(* ===== verification/Prelude.thy ===== *)
theory Prelude
  imports Main "HOL-Library.Word" "HOL-Library.Multiset"
begin

text \<open>
  Shared vocabulary of the development: the machine integer types of the Rust
  sources, the arithmetic of a checked (\<open>overflow-checks = true\<close>) build, generic lemmas
  about counting over lists that are updated at one position, and the notion of
  reachable state with its invariant rule.
\<close>

named_theorems shared_action_defs \<open>the actions on the shared scheduler state, unfolded\<close>
named_theorems group_action_defs \<open>the actions on the state of a task group, unfolded\<close>

section \<open>Machine integers\<close>

type_synonym usize = "64 word"
type_synonym u64 = "64 word"
type_synonym i32 = "32 word"

text \<open>
  Addition on \<open>usize\<close> in a build with overflow checks: \<open>None\<close> is the panic (the
  profiles of \<^verbatim>\<open>Cargo.toml\<close> abort on panic).  A build without them wraps, which is
  addition of words.
\<close>

definition checked_add :: "usize \<Rightarrow> usize \<Rightarrow> usize option" where
  "checked_add a b = (if unat a + unat b < 2 ^ 64 then Some (a + b) else None)"

lemma checked_add_Some: "checked_add a b = Some c \<Longrightarrow> c = a + b \<and> unat c = unat a + unat b"
  by (auto simp: checked_add_def unat_word_ariths split: if_splits)

lemma checked_add_no_overflow [simp]:
  "unat a + unat b < 2 ^ 64 \<Longrightarrow> checked_add a b = Some (a + b)"
  by (simp add: checked_add_def)

lemma unat_less_64: "unat (w :: usize) < 18446744073709551616"
  using unsigned_less [of w] by simp

lemma unat_bound_64: "unat (w :: usize) < 2 ^ 64"
  using unat_less_64 [of w] by simp

lemma unat_add_64: "unat a + unat b < 2 ^ 64 \<Longrightarrow> unat (a + b :: usize) = unat a + unat b"
  by (simp add: unat_word_ariths)

lemma unat_of_nat_64: "n < 2 ^ 64 \<Longrightarrow> unat (of_nat n :: usize) = n"
  by (simp add: unsigned_of_nat take_bit_nat_eq_self)

lemma of_nat_eq_0_64: "n < 2 ^ 64 \<Longrightarrow> (of_nat n :: usize) = 0 \<longleftrightarrow> n = 0"
  using unat_of_nat_64 [of n] unat_eq_zero [of "of_nat n :: usize"] by simp

lemma usize_Suc_of_nat: "of_nat n + (1 :: usize) = of_nat (Suc n)"
  by simp

section \<open>Counting over a list with one updated entry\<close>

lemma sum_list_update_add:
  fixes f :: "'a \<Rightarrow> 'b :: comm_monoid_add"
  assumes "i < length xs"
  shows "sum_list (map f (xs[i := x])) + f (xs ! i) = sum_list (map f xs) + f x"
  using assms
proof (induction xs arbitrary: i)
  case Nil
  then show ?case by simp
next
  case (Cons a xs)
  then show ?case by (cases i) (simp_all add: ac_simps)
qed

lemma sum_list_ge_nth:
  fixes f :: "'a \<Rightarrow> nat"
  assumes "i < length xs"
  shows "f (xs ! i) \<le> sum_list (map f xs)"
  using assms by (intro member_le_sum_list) simp_all

lemma sum_list_nat_eq_0_nth:
  fixes f :: "'a \<Rightarrow> nat"
  assumes "sum_list (map f xs) = 0" and "i < length xs"
  shows "f (xs ! i) = 0"
  using sum_list_ge_nth [OF assms(2), of f] assms(1) by simp

text \<open>
  Balancing one entry of a sum: a transfer between an entry and the rest keeps the
  total of the whole.
\<close>

lemma balanced_transfer:
  fixes c c' q q' t t' h h' :: "'a :: cancel_comm_monoid_add"
  assumes "t' + h = t + h'" and "c' + (q' + h') = c + (q + h)"
  shows "c' + (q' + t') = c + (q + t)"
proof -
  have "c' + (q' + t') + (h + h') = (c' + (q' + h')) + (t' + h)" by (simp only: ac_simps)
  also have "\<dots> = c + (q + t) + (h + h')" unfolding assms by (simp only: ac_simps)
  finally show ?thesis by simp
qed

lemma transferred_total:
  fixes a a' t t' r h h' :: "'a :: cancel_comm_monoid_add"
  assumes "t' + h = t + h'" and "a' + h = a + h'" and "a = t + r"
  shows "a' = t' + r"
proof -
  have "a' + h = (t + h') + r" using assms(2,3) by (simp only: ac_simps)
  also have "\<dots> = (t' + r) + h" unfolding assms(1) [symmetric] by (simp only: ac_simps)
  finally show ?thesis by simp
qed

section \<open>Reachable states and invariants\<close>

text \<open>
  A system is given by its initial states and a partial step function: \<open>step l s\<close> is
  the state after the action named \<open>l\<close>, or \<open>None\<close> if that action is not possible in
  \<open>s\<close>.  The guard \<open>G\<close> restricts attention to runs all of whose states satisfy it.
\<close>

inductive reach :: "('s \<Rightarrow> bool) \<Rightarrow> ('l \<Rightarrow> 's \<Rightarrow> 's option) \<Rightarrow> ('s \<Rightarrow> bool) \<Rightarrow> 's \<Rightarrow> bool"
  for init step G where
  reach_init: "init s \<Longrightarrow> reach init step G s"
| reach_step: "reach init step G s \<Longrightarrow> step l s = Some s' \<Longrightarrow> G s' \<Longrightarrow> reach init step G s'"

fun run :: "('l \<Rightarrow> 's \<Rightarrow> 's option) \<Rightarrow> 'l list \<Rightarrow> 's \<Rightarrow> 's option" where
  "run step [] s = Some s"
| "run step (l # ls) s = (case step l s of None \<Rightarrow> None | Some s' \<Rightarrow> run step ls s')"

lemma reach_run:
  assumes "reach init step (\<lambda>_. True) s" and "run step ls s = Some s'"
  shows "reach init step (\<lambda>_. True) s'"
  using assms
  by (induction ls arbitrary: s) (auto split: option.splits intro: reach_step)

lemma reach_guard_weaken:
  assumes "reach init step G s" and "\<And>s. G s \<Longrightarrow> H s"
  shows "reach init step H s"
  using assms by (induction rule: reach.induct) (auto intro: reach.intros)

text \<open>
  A machine with control state \<open>pc\<close> driven on its own for at most \<open>n\<close> actions; it stops
  earlier where no action is possible.
\<close>

fun drive :: "nat \<Rightarrow> ('p \<Rightarrow> 'w \<Rightarrow> ('p \<times> 'w) option) \<Rightarrow> 'p \<Rightarrow> 'w \<Rightarrow> 'p \<times> 'w" where
  "drive 0 f pc w = (pc, w)"
| "drive (Suc n) f pc w = (case f pc w of None \<Rightarrow> (pc, w) | Some (pc', w') \<Rightarrow> drive n f pc' w')"

lemma drive_stuck [simp]: "f pc w = None \<Longrightarrow> drive n f pc w = (pc, w)"
  by (cases n) simp_all

lemma drive_numeral [simp]:
  "drive (numeral k) f pc w =
     (case f pc w of None \<Rightarrow> (pc, w) | Some (pc', w') \<Rightarrow> drive (pred_numeral k) f pc' w')"
  by (simp add: numeral_eq_Suc)

lemma drive_add: "drive (m + n) f pc w = (case drive m f pc w of (pc', w') \<Rightarrow> drive n f pc' w')"
  by (induction m arbitrary: pc w) (auto split: option.splits)

text \<open>
  An invariant holds initially and is kept by every step between states of the
  guard; an auxiliary invariant already established may be used for it.
\<close>

locale invariant =
  fixes init :: "'s \<Rightarrow> bool" and step :: "'l \<Rightarrow> 's \<Rightarrow> 's option" and G :: "'s \<Rightarrow> bool"
    and J :: "'s \<Rightarrow> bool" and I :: "'s \<Rightarrow> bool"
  assumes aux: "reach init step G s \<Longrightarrow> J s"
    and inv_init: "init s \<Longrightarrow> I s"
    and inv_step: "J s \<Longrightarrow> I s \<Longrightarrow> step l s = Some s' \<Longrightarrow> G s' \<Longrightarrow> I s'"
begin

lemma reach_inv: "reach init step G s \<Longrightarrow> I s"
  by (induction rule: reach.induct) (auto intro: inv_init inv_step aux)

end

end
