(* ===== verification/Stats.thy ===== *)
theory Stats
  imports Prelude
begin

text \<open>
  The statistics of \<^verbatim>\<open>src/src/stats.rs\<close>: seven \<open>AtomicU64\<close> counters, one recording
  operation per counter (a relaxed \<open>fetch_add\<close>, which wraps), and the snapshot.
\<close>

section \<open>Counters and snapshot\<close>

record scheduler_stats =
  submitted :: u64
  completed :: u64
  rejected_full :: u64
  steals_attempted :: u64
  steals_succeeded :: u64
  fairness_yields :: u64
  steal_failures :: u64

record scheduler_stats_snapshot =
  snap_submitted :: u64
  snap_completed :: u64
  snap_rejected_full :: u64
  snap_steals_attempted :: u64
  snap_steals_succeeded :: u64
  snap_fairness_yields :: u64
  snap_steal_failures :: u64

definition stats_new :: scheduler_stats where
  "stats_new = \<lparr>submitted = 0, completed = 0, rejected_full = 0, steals_attempted = 0,
     steals_succeeded = 0, fairness_yields = 0, steal_failures = 0\<rparr>"

definition record_submission :: "scheduler_stats \<Rightarrow> scheduler_stats" where
  "record_submission st = st\<lparr>submitted := submitted st + 1\<rparr>"

definition record_completion :: "scheduler_stats \<Rightarrow> scheduler_stats" where
  "record_completion st = st\<lparr>completed := completed st + 1\<rparr>"

definition record_queue_full :: "scheduler_stats \<Rightarrow> scheduler_stats" where
  "record_queue_full st = st\<lparr>rejected_full := rejected_full st + 1\<rparr>"

definition record_steal_attempt :: "scheduler_stats \<Rightarrow> scheduler_stats" where
  "record_steal_attempt st = st\<lparr>steals_attempted := steals_attempted st + 1\<rparr>"

definition record_steal_success :: "scheduler_stats \<Rightarrow> scheduler_stats" where
  "record_steal_success st = st\<lparr>steals_succeeded := steals_succeeded st + 1\<rparr>"

definition record_fairness_yield :: "scheduler_stats \<Rightarrow> scheduler_stats" where
  "record_fairness_yield st = st\<lparr>fairness_yields := fairness_yields st + 1\<rparr>"

definition record_steal_failure :: "scheduler_stats \<Rightarrow> scheduler_stats" where
  "record_steal_failure st = st\<lparr>steal_failures := steal_failures st + 1\<rparr>"

definition snapshot :: "scheduler_stats \<Rightarrow> scheduler_stats_snapshot" where
  "snapshot st = \<lparr>snap_submitted = submitted st, snap_completed = completed st,
     snap_rejected_full = rejected_full st, snap_steals_attempted = steals_attempted st,
     snap_steals_succeeded = steals_succeeded st, snap_fairness_yields = fairness_yields st,
     snap_steal_failures = steal_failures st\<rparr>"

definition stats_default :: scheduler_stats where
  "stats_default = stats_new"

section \<open>The counters as a vector\<close>

text \<open>
  The contract of a recording operation says everything it does to the seven
  counters at once: it adds one, modulo \<open>2 ^ 64\<close>, to its own and leaves the other
  six alone.  It is stated over the vector of counters, and proved for each of
  the seven operations by an interpretation.
\<close>

definition stats_vec :: "scheduler_stats \<Rightarrow> u64 list" where
  "stats_vec st = [submitted st, completed st, rejected_full st, steals_attempted st,
     steals_succeeded st, fairness_yields st, steal_failures st]"

definition snapshot_vec :: "scheduler_stats_snapshot \<Rightarrow> u64 list" where
  "snapshot_vec sn = [snap_submitted sn, snap_completed sn, snap_rejected_full sn,
     snap_steals_attempted sn, snap_steals_succeeded sn, snap_fairness_yields sn,
     snap_steal_failures sn]"

lemma length_stats_vec [simp]: "length (stats_vec st) = 7"
  by (simp add: stats_vec_def)

lemma snapshot_vec_snapshot [simp]: "snapshot_vec (snapshot st) = stats_vec st"
  by (simp add: snapshot_vec_def snapshot_def stats_vec_def)

locale stat_recorder =
  fixes recorder :: "scheduler_stats \<Rightarrow> scheduler_stats"
    and slot :: nat
  assumes slot_bound: "slot < 7"
    and recorder_vec: "stats_vec (recorder st) = (stats_vec st)[slot := stats_vec st ! slot + 1]"
begin

lemma recorder_nth:
  "k < 7 \<Longrightarrow> stats_vec (recorder st) ! k = stats_vec st ! k + (if k = slot then 1 else 0)"
  by (simp add: recorder_vec slot_bound nth_list_update)

lemma recorder_pow:
  "stats_vec ((recorder ^^ n) st) ! slot = stats_vec st ! slot + of_nat n"
  by (induction n) (simp_all add: recorder_nth slot_bound add_ac)

lemma recorder_exact:
  assumes "stats_vec st ! slot = 0" and "n < 2 ^ 64"
  shows "unat (stats_vec ((recorder ^^ n) st) ! slot) = n"
  using assms by (simp add: recorder_pow unat_of_nat_64)

end

interpretation rec_submission: stat_recorder record_submission 0
  by unfold_locales (simp_all add: record_submission_def stats_vec_def)

interpretation rec_completion: stat_recorder record_completion 1
  by unfold_locales (simp_all add: record_completion_def stats_vec_def)

interpretation rec_queue_full: stat_recorder record_queue_full 2
  by unfold_locales (simp_all add: record_queue_full_def stats_vec_def numeral_eq_Suc)

interpretation rec_steal_attempt: stat_recorder record_steal_attempt 3
  by unfold_locales (simp_all add: record_steal_attempt_def stats_vec_def numeral_eq_Suc)

interpretation rec_steal_success: stat_recorder record_steal_success 4
  by unfold_locales (simp_all add: record_steal_success_def stats_vec_def numeral_eq_Suc)

interpretation rec_fairness_yield: stat_recorder record_fairness_yield 5
  by unfold_locales (simp_all add: record_fairness_yield_def stats_vec_def numeral_eq_Suc)

interpretation rec_steal_failure: stat_recorder record_steal_failure 6
  by unfold_locales (simp_all add: record_steal_failure_def stats_vec_def numeral_eq_Suc)

lemmas recorder_nths =
  rec_submission.recorder_nth rec_completion.recorder_nth rec_queue_full.recorder_nth
  rec_steal_attempt.recorder_nth rec_steal_success.recorder_nth
  rec_fairness_yield.recorder_nth rec_steal_failure.recorder_nth

section \<open>Any interleaving of recordings\<close>

text \<open>
  The threads of the scheduler record in an arbitrary order.  A history of
  recordings is a list of slots; its effect is the fold of the operations.
\<close>

definition stat_ops :: "(scheduler_stats \<Rightarrow> scheduler_stats) list" where
  "stat_ops = [record_submission, record_completion, record_queue_full, record_steal_attempt,
     record_steal_success, record_fairness_yield, record_steal_failure]"

definition record_history :: "nat list \<Rightarrow> scheduler_stats \<Rightarrow> scheduler_stats" where
  "record_history is st = fold (\<lambda>i. stat_ops ! i) is st"

lemma stat_ops_nth:
  assumes "i < 7" and "k < 7"
  shows "stats_vec ((stat_ops ! i) st) ! k = stats_vec st ! k + (if k = i then 1 else 0)"
proof -
  have "i \<in> {0, 1, 2, 3, 4, 5, 6}" using assms(1) by auto
  then show ?thesis using assms(2)
    by (elim insertE emptyE; simp add: stat_ops_def recorder_nths numeral_eq_Suc)
qed

lemma record_history_nth:
  assumes "set is \<subseteq> {..<7}" and "k < 7"
  shows "stats_vec (record_history is st) ! k = stats_vec st ! k + of_nat (count_list is k)"
  using assms
proof (induction "is" arbitrary: st)
  case Nil
  then show ?case by (simp add: record_history_def)
next
  case (Cons i "is")
  have "stats_vec (record_history (i # is) st) ! k = stats_vec (record_history is ((stat_ops ! i) st)) ! k"
    by (simp add: record_history_def)
  also have "\<dots> = stats_vec ((stat_ops ! i) st) ! k + of_nat (count_list is k)"
    using Cons by simp
  also have "\<dots> = stats_vec st ! k + of_nat (count_list (i # is) k)"
    using Cons.prems by (simp add: stat_ops_nth)
  finally show ?case .
qed

section \<open>Properties\<close>

text \<open>
  Property C39. A snapshot reports exactly what was recorded: after any sequence of
  fewer than \<open>2 ^ 64\<close> recordings, in any order, each of its seven fields is the
  number of recordings of its own kind.
\<close>

theorem statistics_count_events:
  assumes "set is \<subseteq> {..<7}" and "k < 7" and "length is < 2 ^ 64"
  shows "unat (snapshot_vec (snapshot (record_history is stats_new)) ! k) = count_list is k"
proof -
  have "stats_vec stats_new ! k = 0"
    using assms(2) by (simp add: stats_vec_def stats_new_def less_Suc_eq numeral_eq_Suc) auto
  moreover have "count_list is k < 2 ^ 64" using assms(3) count_le_length [of "is" k] by linarith
  ultimately show ?thesis
    using record_history_nth [OF assms(1,2), of stats_new] by (simp add: unat_of_nat_64)
qed

theorem statistics_count_events_witness:
  "unat (snap_submitted (snapshot (record_history [0, 1, 0] stats_new))) = 2"
  using statistics_count_events [of "[0, 1, 0]" 0] by (simp add: snapshot_vec_def)

end
