(* ===== verification/Steal.thy ===== *)
theory Steal
  imports Prelude
begin

text \<open>
  Victim selection for work stealing, \<^verbatim>\<open>src/src/steal.rs\<close>: the per-worker
  \<open>StealState\<close>, the round-robin list of victims and its rotating cursor.  The
  index arithmetic is on \<open>usize\<close> and wraps; the build with overflow checks is
  modelled beside it, with the panic as \<open>None\<close>.
\<close>

section \<open>State and operations\<close>

datatype steal_policy = RoundRobin | Adaptive

record steal_state =
  ss_worker_id :: usize
  ss_worker_count :: usize
  ss_policy :: steal_policy
  ss_cursor :: usize

definition steal_worker_id :: "steal_state \<Rightarrow> usize" where
  "steal_worker_id ss = ss_worker_id ss"

definition steal_worker_count :: "steal_state \<Rightarrow> usize" where
  "steal_worker_count ss = ss_worker_count ss"

definition steal_policy_of :: "steal_state \<Rightarrow> steal_policy" where
  "steal_policy_of ss = ss_policy ss"

definition steal_state_new :: "usize \<Rightarrow> usize \<Rightarrow> steal_policy \<Rightarrow> steal_state" where
  "steal_state_new worker_id worker_count policy =
     \<lparr>ss_worker_id = worker_id, ss_worker_count = max worker_count 1,
      ss_policy = policy, ss_cursor = 0\<rparr>"

text \<open>
  The body of \<open>for offset in 0..worker_count\<close>: skip the own index, push the
  victim, leave the loop once \<open>worker_count - 1\<close> victims are collected.
\<close>

fun victim_loop :: "usize \<Rightarrow> usize \<Rightarrow> usize \<Rightarrow> usize list \<Rightarrow> usize list \<Rightarrow> usize list" where
  "victim_loop me wcount first [] victims = victims"
| "victim_loop me wcount first (offset # offsets) victims =
     (let victim = (first + offset) mod wcount in
      if victim = me then victim_loop me wcount first offsets victims
      else let victims' = victims @ [victim] in
        if of_nat (length victims') = wcount - 1 then victims'
        else victim_loop me wcount first offsets victims')"

definition offsets_upto :: "usize \<Rightarrow> usize list" where
  "offsets_upto wcount = map of_nat [0..<unat wcount]"

definition round_robin_victims :: "steal_state \<Rightarrow> usize list \<times> steal_state" where
  "round_robin_victims ss =
     (if ss_worker_count ss \<le> 1 then ([], ss)
      else
        let rotation = ss_cursor ss;
            ss' = ss\<lparr>ss_cursor := rotation + 1\<rparr>;
            first = (ss_worker_id ss + 1 + rotation) mod ss_worker_count ss
        in (victim_loop (ss_worker_id ss) (ss_worker_count ss) first
              (offsets_upto (ss_worker_count ss)) [], ss'))"

definition victims :: "steal_state \<Rightarrow> usize list \<times> steal_state" where
  "victims ss = (case ss_policy ss of
       RoundRobin \<Rightarrow> round_robin_victims ss
     | Adaptive \<Rightarrow> round_robin_victims ss)"

text \<open>
  The same loop and function in a build with overflow checks, where every sum
  may panic.  The cursor's \<open>fetch_add\<close> is an atomic operation and wraps in every
  build.
\<close>

fun victim_loop_checked ::
  "usize \<Rightarrow> usize \<Rightarrow> usize \<Rightarrow> usize list \<Rightarrow> usize list \<Rightarrow> usize list option" where
  "victim_loop_checked me wcount first [] vs = Some vs"
| "victim_loop_checked me wcount first (offset # offsets) vs =
     (case checked_add first offset of
        None \<Rightarrow> None
      | Some s \<Rightarrow>
          (let victim = s mod wcount in
           if victim = me then victim_loop_checked me wcount first offsets vs
           else let vs' = vs @ [victim] in
             if of_nat (length vs') = wcount - 1 then Some vs'
             else victim_loop_checked me wcount first offsets vs'))"

definition round_robin_victims_checked :: "steal_state \<Rightarrow> (usize list \<times> steal_state) option" where
  "round_robin_victims_checked ss =
     (if ss_worker_count ss \<le> 1 then Some ([], ss)
      else
        let rotation = ss_cursor ss;
            ss' = ss\<lparr>ss_cursor := rotation + 1\<rparr>
        in case Option.bind (checked_add (ss_worker_id ss) 1) (\<lambda>a. checked_add a rotation) of
             None \<Rightarrow> None
           | Some b \<Rightarrow>
               let first = b mod ss_worker_count ss in
               map_option (\<lambda>vs. (vs, ss'))
                 (victim_loop_checked (ss_worker_id ss) (ss_worker_count ss) first
                    (offsets_upto (ss_worker_count ss)) []))"

section \<open>Well-formed states\<close>

text \<open>
  A worker's own index is below the number of workers, and there are at most
  \<open>2 ^ 63\<close> of them: the scheduler keeps one \<open>Stealer\<close> per worker in a \<open>Vec\<close>, and no
  Rust allocation is larger than \<open>isize::MAX\<close> bytes.
\<close>

definition steal_state_ok :: "steal_state \<Rightarrow> bool" where
  "steal_state_ok ss \<longleftrightarrow> ss_worker_id ss < ss_worker_count ss \<and> ss_worker_count ss \<le> 2 ^ 63"

lemma steal_state_ok_new:
  "me < wcount \<Longrightarrow> wcount \<le> 2 ^ 63 \<Longrightarrow> steal_state_ok (steal_state_new me wcount policy)"
  by (auto simp: steal_state_ok_def steal_state_new_def max_def word_le_nat_alt word_less_nat_alt)

lemma round_robin_victims_frame:
  "ss_worker_id (snd (round_robin_victims ss)) = ss_worker_id ss"
  "ss_worker_count (snd (round_robin_victims ss)) = ss_worker_count ss"
  "ss_policy (snd (round_robin_victims ss)) = ss_policy ss"
  by (simp_all add: round_robin_victims_def Let_def)

lemma victims_eq_round_robin [simp]: "victims ss = round_robin_victims ss"
  by (simp add: victims_def split: steal_policy.split)

lemma steal_state_ok_victims: "steal_state_ok ss \<Longrightarrow> steal_state_ok (snd (victims ss))"
  by (simp add: steal_state_ok_def round_robin_victims_frame)

section \<open>The loop in closed form\<close>

lemma victim_loop_take:
  assumes "length vs < unat (wcount - 1)"
  shows "victim_loop me wcount first offs vs =
    vs @ take (unat (wcount - 1) - length vs)
      (filter (\<lambda>v. v \<noteq> me) (map (\<lambda>k. (first + k) mod wcount) offs))"
  using assms
proof (induction offs arbitrary: vs)
  case Nil
  then show ?case by simp
next
  case (Cons k offs)
  let ?v = "(first + k) mod wcount"
  have bound: "Suc (length vs) < 2 ^ 64"
    using Cons.prems unat_bound_64 [of "wcount - 1"] by linarith
  have done_iff: "of_nat (Suc (length vs)) = wcount - 1 \<longleftrightarrow> Suc (length vs) = unat (wcount - 1)"
    unfolding word_unat_eq_iff unat_of_nat_64 [OF bound] ..
  show ?case
  proof (cases "?v = me")
    case True
    then show ?thesis using Cons by (simp add: Let_def)
  next
    case False
    show ?thesis
    proof (cases "Suc (length vs) = unat (wcount - 1)")
      case True
      then have one: "unat (wcount - 1) - length vs = Suc 0" by simp
      from True done_iff have "of_nat (length (vs @ [?v])) = wcount - 1" by (simp del: of_nat_Suc)
      with \<open>?v \<noteq> me\<close> show ?thesis by (simp add: Let_def one del: of_nat_Suc)
    next
      case neq: False
      with Cons.prems have "length (vs @ [?v]) < unat (wcount - 1)" by simp
      moreover have "unat (wcount - 1) - length vs = Suc (unat (wcount - 1) - Suc (length vs))"
        using Cons.prems by simp
      ultimately show ?thesis
        using Cons.IH [of "vs @ [?v]"] \<open>?v \<noteq> me\<close> neq done_iff
        by (simp add: Let_def del: of_nat_Suc)
    qed
  qed
qed

text \<open>
  Inside the loop no sum exceeds \<open>2 ^ 64\<close>, so the victims, read as numbers, are a
  rotation of the worker indices without the own one.
\<close>

lemma unat_victim:
  fixes first wcount :: usize
  assumes "first < wcount" and "k < unat wcount" and "wcount \<le> 2 ^ 63"
  shows "unat ((first + of_nat k) mod wcount) = (unat first + k) mod unat wcount"
proof -
  have f: "unat first < unat wcount" and c: "unat wcount \<le> 2 ^ 63"
    using assms(1,3) by (simp_all add: word_less_nat_alt word_le_nat_alt)
  have "unat (of_nat k :: usize) = k"
    using assms(2) c by (intro unat_of_nat_64) simp
  then have "unat (first + of_nat k) = unat first + k"
    using f assms(2) c by (simp add: unat_word_ariths)
  then show ?thesis by (simp add: unat_mod)
qed

lemma rotate_upt: "0 < n \<Longrightarrow> rotate f [0..<n] = map (\<lambda>k. (f + k) mod n) [0..<n]"
  by (rule nth_equalityI) (simp_all add: nth_rotate add.commute)

lemma length_filter_neq_upt: "me < n \<Longrightarrow> length (filter (\<lambda>v. v \<noteq> me) (rotate f [0..<n])) = n - 1"
proof -
  assume "me < n"
  have d: "distinct (filter (\<lambda>v. v \<noteq> me) (rotate f [0..<n]))" by simp
  have "set (filter (\<lambda>v. v \<noteq> me) (rotate f [0..<n])) = {0..<n} - {me}" by auto
  with distinct_card [OF d] \<open>me < n\<close> show ?thesis by simp
qed

definition first_victim :: "steal_state \<Rightarrow> usize" where
  "first_victim ss = (ss_worker_id ss + 1 + ss_cursor ss) mod ss_worker_count ss"

lemma victims_as_rotation:
  assumes ok: "steal_state_ok ss" and many: "1 < ss_worker_count ss"
  shows "map unat (fst (round_robin_victims ss)) =
    filter (\<lambda>v. v \<noteq> unat (ss_worker_id ss))
      (rotate (unat (first_victim ss)) [0..<unat (ss_worker_count ss)])"
proof -
  define n where "n = unat (ss_worker_count ss)"
  define f where "f = unat (first_victim ss)"
  have n: "1 < n" using many by (simp add: n_def word_less_nat_alt)
  have me: "unat (ss_worker_id ss) < n" and le: "ss_worker_count ss \<le> 2 ^ 63"
    using ok by (simp_all add: steal_state_ok_def n_def word_less_nat_alt)
  have first_lt: "first_victim ss < ss_worker_count ss"
    unfolding first_victim_def using n by (intro word_mod_less_divisor) (simp add: n_def word_less_nat_alt)
  have pred: "unat (ss_worker_count ss - 1) = n - 1"
    using n by (simp add: n_def unat_minus_one unat_gt_0 flip: unat_eq_zero)
  let ?offs = "map (\<lambda>k. (first_victim ss + k) mod ss_worker_count ss) (offsets_upto (ss_worker_count ss))"
  have nums: "map unat ?offs = rotate f [0..<n]"
    using n by (simp add: rotate_upt offsets_upto_def f_def n_def unat_victim [OF first_lt _ le])
  have filt: "map unat (filter (\<lambda>v. v \<noteq> ss_worker_id ss) ?offs) =
      filter (\<lambda>v. v \<noteq> unat (ss_worker_id ss)) (rotate f [0..<n])"
    unfolding nums [symmetric] by (simp add: filter_map o_def word_unat_eq_iff)
  have "map unat (fst (round_robin_victims ss)) =
      take (n - 1) (map unat (filter (\<lambda>v. v \<noteq> ss_worker_id ss) ?offs))"
    using many n victim_loop_take [of "[]" "ss_worker_count ss"]
    by (simp add: round_robin_victims_def Let_def pred take_map flip: first_victim_def)
  then show ?thesis
    using length_filter_neq_upt [OF me, of f] by (simp add: filt n_def f_def)
qed

lemma victims_single: "ss_worker_count ss \<le> 1 \<Longrightarrow> round_robin_victims ss = ([], ss)"
  by (simp add: round_robin_victims_def)

lemma victims_set_distinct:
  assumes ok: "steal_state_ok ss"
  shows "distinct (map unat (fst (round_robin_victims ss)))"
    and "unat ` set (fst (round_robin_victims ss)) =
      {0..<unat (ss_worker_count ss)} - {unat (ss_worker_id ss)}"
proof -
  have "distinct (map unat (fst (round_robin_victims ss))) \<and>
    set (map unat (fst (round_robin_victims ss))) =
      {0..<unat (ss_worker_count ss)} - {unat (ss_worker_id ss)}"
  proof (cases "1 < ss_worker_count ss")
    case True
    show ?thesis unfolding victims_as_rotation [OF ok True] by auto
  next
    case False
    with ok have "unat (ss_worker_count ss) = 1" "unat (ss_worker_id ss) = 0"
      by (auto simp: steal_state_ok_def word_less_nat_alt)
    with False show ?thesis by (simp add: victims_single)
  qed
  then show "distinct (map unat (fst (round_robin_victims ss)))"
    and "unat ` set (fst (round_robin_victims ss)) =
      {0..<unat (ss_worker_count ss)} - {unat (ss_worker_id ss)}"
    by simp_all
qed

lemma victim_loop_checked_eq:
  assumes "\<And>k. k \<in> set offs \<Longrightarrow> unat first + unat k < 2 ^ 64"
  shows "victim_loop_checked me wcount first offs vs = Some (victim_loop me wcount first offs vs)"
  using assms by (induction offs arbitrary: vs) (simp_all add: Let_def)

lemma victim_loop_checked_round:
  assumes "first < wcount" and "wcount \<le> 2 ^ 63"
  shows "victim_loop_checked me wcount first (offsets_upto wcount) vs =
    Some (victim_loop me wcount first (offsets_upto wcount) vs)"
proof (rule victim_loop_checked_eq)
  fix k assume "k \<in> set (offsets_upto wcount)"
  then have k: "unat k \<le> unat wcount"
    by (auto simp: offsets_upto_def unsigned_of_nat take_bit_eq_mod
        intro: order.trans [OF mod_less_eq_dividend])
  have "unat first < unat wcount" "unat wcount \<le> 2 ^ 63"
    using assms by (simp_all add: word_less_nat_alt word_le_nat_alt)
  with k show "unat first + unat k < 2 ^ 64" by simp
qed

section \<open>Successive calls\<close>

definition after_calls :: "nat \<Rightarrow> steal_state \<Rightarrow> steal_state" where
  "after_calls n = ((\<lambda>ss. snd (victims ss)) ^^ n)"

lemma after_calls_state:
  assumes "1 < ss_worker_count ss"
  shows "after_calls n ss = ss\<lparr>ss_cursor := ss_cursor ss + of_nat n\<rparr>"
proof (induction n)
  case 0
  then show ?case by (simp add: after_calls_def)
next
  case (Suc n)
  have "after_calls (Suc n) ss = snd (victims (after_calls n ss))"
    by (simp add: after_calls_def)
  with Suc assms show ?case
    by (simp add: round_robin_victims_def Let_def add_ac not_le)
qed

lemma unat_first_victim_after:
  assumes "1 < ss_worker_count ss"
    and "unat (ss_worker_id ss) + 1 + unat (ss_cursor ss) + n < 2 ^ 64"
  shows "unat (first_victim (after_calls n ss)) =
    (unat (ss_worker_id ss) + 1 + unat (ss_cursor ss) + n) mod unat (ss_worker_count ss)"
proof -
  have n: "unat (of_nat n :: usize) = n" using assms(2) by (intro unat_of_nat_64) simp
  have "unat (ss_worker_id ss + 1 + (ss_cursor ss + of_nat n)) =
      unat (ss_worker_id ss) + 1 + unat (ss_cursor ss) + n"
    using assms(2) by (simp add: unat_add_64 n)
  then show ?thesis
    by (simp add: first_victim_def after_calls_state [OF assms(1)] unat_mod)
qed

lemma hd_filter_rotate:
  assumes "v < n" and "v \<noteq> me"
  shows "hd (filter (\<lambda>x. x \<noteq> me) (rotate v [0..<n])) = v"
proof -
  have "[0..<n] = 0 # [1..<n]" using assms(1) by (simp add: upt_conv_Cons)
  then have "map (\<lambda>k. (v + k) mod n) [0..<n] = v # map (\<lambda>k. (v + k) mod n) [1..<n]"
    using assms(1) by simp
  then have "rotate v [0..<n] = v # map (\<lambda>k. (v + k) mod n) [1..<n]"
    using assms(1) rotate_upt [of n v] by simp
  with assms(2) show ?thesis by simp
qed

lemma ex_mod_window:
  assumes "(v::nat) < n"
  shows "\<exists>k<n. (b + k) mod n = v"
proof (intro exI conjI)
  show "(v + (n - b mod n)) mod n < n" using assms by simp
  have "(b + (v + (n - b mod n)) mod n) mod n = (b mod n + (v + (n - b mod n))) mod n"
    by (simp add: mod_simps)
  also have "b mod n + (v + (n - b mod n)) = v + n"
    using assms mod_less_divisor [of n b] by linarith
  finally show "(b + (v + (n - b mod n)) mod n) mod n = v" using assms by simp
qed

section \<open>Properties\<close>

text \<open>
  Property C31. One round of work stealing probes every other worker exactly once
  and never the worker itself: the victim list has no duplicates, and its
  elements are exactly the indices below the worker count other than the own
  one.  The state it leaves is again well formed.
\<close>

theorem victims_are_all_peers:
  assumes "steal_state_ok ss"
  shows "distinct (fst (victims ss)) \<and>
    set (fst (victims ss)) = {v. v < ss_worker_count ss \<and> v \<noteq> ss_worker_id ss} \<and>
    steal_state_ok (snd (victims ss))"
proof (intro conjI set_eqI)
  show "distinct (fst (victims ss))"
    using victims_set_distinct(1) [OF assms] by (simp add: distinct_map)
  show "steal_state_ok (snd (victims ss))" using assms by (rule steal_state_ok_victims)
  fix v :: usize
  have "v \<in> set (fst (victims ss)) \<longleftrightarrow> unat v \<in> unat ` set (fst (victims ss))"
    by (auto simp: image_iff word_unat_eq_iff [symmetric])
  also have "\<dots> \<longleftrightarrow> v < ss_worker_count ss \<and> v \<noteq> ss_worker_id ss"
    using victims_set_distinct(2) [OF assms] by (simp add: word_less_nat_alt word_unat_eq_iff)
  finally show "v \<in> set (fst (victims ss)) \<longleftrightarrow>
      v \<in> {v. v < ss_worker_count ss \<and> v \<noteq> ss_worker_id ss}" by simp
qed

theorem victims_are_all_peers_witness:
  "distinct (fst (victims (steal_state_new 1 4 RoundRobin))) \<and>
   set (fst (victims (steal_state_new 1 4 RoundRobin))) = {v. v < 4 \<and> v \<noteq> 1}"
proof -
  have "steal_state_ok (steal_state_new 1 4 RoundRobin)" by code_simp
  from victims_are_all_peers [OF this] show ?thesis
    by (simp add: steal_state_new_def max_def word_le_nat_alt)
qed

text \<open>
  Property C32. Every peer gets its turn: whatever the cursor, in any
  \<open>worker_count\<close> successive steal rounds each peer is the first victim probed at
  least once, as long as the cursor does not wrap during those rounds.  Two
  successive rounds may begin with the same peer, because a round whose turn is the
  worker's own index moves on to the next one.
\<close>

theorem every_peer_is_probed_first:
  assumes ok: "steal_state_ok ss"
    and v: "v < ss_worker_count ss" "v \<noteq> ss_worker_id ss"
    and room: "unat (ss_worker_id ss) + 1 + unat (ss_cursor ss) + unat (ss_worker_count ss) < 2 ^ 64"
  shows "\<exists>k < unat (ss_worker_count ss). hd (fst (victims (after_calls k ss))) = v"
proof -
  have many: "1 < ss_worker_count ss"
    using ok v by (auto simp: steal_state_ok_def word_less_nat_alt word_unat_eq_iff)
  obtain k where k: "k < unat (ss_worker_count ss)"
    and eq: "(unat (ss_worker_id ss) + 1 + unat (ss_cursor ss) + k) mod unat (ss_worker_count ss) = unat v"
    using ex_mod_window [of "unat v"] v(1) by (metis word_less_nat_alt)
  let ?ss = "after_calls k ss"
  have ok': "steal_state_ok ?ss" and many': "1 < ss_worker_count ?ss"
    using ok many by (simp_all add: after_calls_state steal_state_ok_def)
  have first: "unat (first_victim ?ss) = unat v"
    using unat_first_victim_after [OF many, of k] eq room k by simp
  have ids: "ss_worker_id ?ss = ss_worker_id ss" "ss_worker_count ?ss = ss_worker_count ss"
    using many by (simp_all add: after_calls_state)
  have "unat v \<in> unat ` set (fst (round_robin_victims ?ss))"
    using victims_set_distinct(2) [OF ok'] v by (simp add: ids word_less_nat_alt word_unat_eq_iff)
  then have ne: "fst (round_robin_victims ?ss) \<noteq> []" by auto
  have "unat (hd (fst (round_robin_victims ?ss))) = hd (map unat (fst (round_robin_victims ?ss)))"
    using ne by (simp add: hd_map)
  also have "\<dots> = unat v"
    unfolding victims_as_rotation [OF ok' many'] first ids
    using v by (intro hd_filter_rotate) (simp_all add: word_less_nat_alt word_unat_eq_iff)
  finally show ?thesis using k by (auto simp: word_unat_eq_iff)
qed

theorem every_peer_is_probed_first_witness:
  "\<exists>k < 3. hd (fst (victims (after_calls k (steal_state_new 0 3 RoundRobin)))) = 2"
proof -
  have ok: "steal_state_ok (steal_state_new 0 3 RoundRobin)" by code_simp
  have cnt: "ss_worker_count (steal_state_new 0 3 RoundRobin) = 3"
    "ss_worker_id (steal_state_new 0 3 RoundRobin) = 0"
    "ss_cursor (steal_state_new 0 3 RoundRobin) = 0" by code_simp+
  show ?thesis
    using every_peer_is_probed_first [OF ok, of 2] by (simp add: cnt word_less_nat_alt)
qed

text \<open>
  Property C33. A build with overflow checks selects the same victims as one
  without, until the cursor has grown so far that \<open>worker_id + 1 + rotation\<close>
  exceeds \<open>usize::MAX\<close>; there, and only there, it panics.
\<close>

theorem checked_build_agrees_or_panics:
  assumes "steal_state_ok ss" and "1 < ss_worker_count ss"
  shows "round_robin_victims_checked ss =
    (if unat (ss_worker_id ss) + 1 + unat (ss_cursor ss) < 2 ^ 64
     then Some (round_robin_victims ss) else None)"
proof -
  have nle: "\<not> ss_worker_count ss \<le> 1" using assms(2) by simp
  have "unat (ss_worker_id ss) < unat (ss_worker_count ss)"
    using assms(1) by (simp add: steal_state_ok_def word_less_nat_alt)
  then have id1: "unat (ss_worker_id ss) + 1 < 2 ^ 64"
    using unat_bound_64 [of "ss_worker_count ss"] by linarith
  then have a: "checked_add (ss_worker_id ss) 1 = Some (ss_worker_id ss + 1)"
    and ua: "unat (ss_worker_id ss + 1) = unat (ss_worker_id ss) + 1"
    by (simp_all add: checked_add_def unat_word_ariths)
  have "first_victim ss < ss_worker_count ss"
    unfolding first_victim_def using assms(2) by (intro word_mod_less_divisor) (simp add: word_less_nat_alt)
  then have "victim_loop_checked (ss_worker_id ss) (ss_worker_count ss) (first_victim ss)
      (offsets_upto (ss_worker_count ss)) [] = Some (fst (round_robin_victims ss))"
    using assms nle by (simp add: victim_loop_checked_round steal_state_ok_def
        round_robin_victims_def Let_def first_victim_def)
  then show ?thesis
    using nle a ua
    by (simp add: round_robin_victims_checked_def round_robin_victims_def Let_def checked_add_def
        first_victim_def)
qed

theorem checked_build_agrees_or_panics_witness:
  "round_robin_victims_checked (steal_state_new 0 2 RoundRobin) =
     Some (round_robin_victims (steal_state_new 0 2 RoundRobin)) \<and>
   round_robin_victims_checked ((steal_state_new 0 2 RoundRobin)\<lparr>ss_cursor := - 1\<rparr>) = None"
proof -
  let ?a = "steal_state_new 0 2 RoundRobin" and ?b = "(steal_state_new 0 2 RoundRobin)\<lparr>ss_cursor := - 1\<rparr>"
  have ok: "steal_state_ok ?a" "1 < ss_worker_count ?a" by code_simp+
  have ok': "steal_state_ok ?b" "1 < ss_worker_count ?b" by code_simp+
  have "unat (ss_cursor ?a) = 0" "unat (ss_worker_id ?a) = 0" by code_simp+
  moreover have "unat (ss_cursor ?b) = 2 ^ 64 - 1" "unat (ss_worker_id ?b) = 0"
    by (simp_all add: steal_state_new_def unsigned_minus_1_eq_mask mask_eq_exp_minus_1)
  ultimately show ?thesis
    using checked_build_agrees_or_panics [OF ok] checked_build_agrees_or_panics [OF ok'] by simp
qed

end
