(* ===== verification/Sync.thy ===== *)
theory Sync
  imports Prelude
begin

text \<open>
  Threads and the \<^verbatim>\<open>parking_lot\<close> primitives the scheduler blocks on.  The crate is
  not part of the repository, so its operations are a parameter (\<open>sync_api\<close>) and
  what its documentation promises is the predicate \<open>sync_ok\<close>.  On top of it stands
  the one blocking idiom of the sources, a \<open>while\<close> loop around \<open>Condvar::wait\<close> under
  the \<open>Mutex\<close> that belongs to it, as a machine that performs one atomic action per
  step.
\<close>

section \<open>Threads, mutexes and condition variables\<close>

text \<open>
  A thread is either a client of the C API or a worker, each with its index.
  A mutex records the thread that holds its guard, a condition variable the
  threads blocked in it in the order they arrived.  The counter of a condition
  variable numbers the \<open>notify_one\<close> calls made on it, so that the parameter may
  choose a different thread at every call.
\<close>

datatype tid = Client nat | WorkerThread nat

type_synonym mutex = "tid option"

record condvar =
  cv_waiting :: "tid list"
  cv_clock :: nat

definition condvar_new :: condvar where
  "condvar_new = \<lparr>cv_waiting = [], cv_clock = 0\<rparr>"

record sync_api =
  mutex_lock :: "tid \<Rightarrow> mutex \<Rightarrow> mutex option"
  mutex_unlock :: "mutex \<Rightarrow> mutex"
  notify_one_waiting :: "nat \<Rightarrow> tid list \<Rightarrow> tid list"
  notify_all_waiting :: "tid list \<Rightarrow> tid list"

text \<open>
  \<open>Mutex::lock\<close> blocks (\<open>None\<close>) while another guard is alive; \<open>notify_all\<close> wakes every
  blocked thread; \<open>notify_one\<close> wakes one blocked thread if there is one, and a
  notification that finds no blocked thread has no effect.
\<close>

definition sync_ok :: "sync_api \<Rightarrow> bool" where
  "sync_ok sy \<longleftrightarrow>
     (\<forall>t. mutex_lock sy t None = Some (Some t)) \<and>
     (\<forall>t h. mutex_lock sy t (Some h) = None) \<and>
     (\<forall>m. mutex_unlock sy m = None) \<and>
     (\<forall>ws. notify_all_waiting sy ws = []) \<and>
     (\<forall>n. notify_one_waiting sy n [] = []) \<and>
     (\<forall>n ws. ws \<noteq> [] \<longrightarrow>
        (\<exists>i < length ws. notify_one_waiting sy n ws = take i ws @ drop (Suc i) ws))"

definition notify_one :: "sync_api \<Rightarrow> condvar \<Rightarrow> condvar" where
  "notify_one sy cv =
     \<lparr>cv_waiting = notify_one_waiting sy (cv_clock cv) (cv_waiting cv), cv_clock = Suc (cv_clock cv)\<rparr>"

definition notify_all :: "sync_api \<Rightarrow> condvar \<Rightarrow> condvar" where
  "notify_all sy cv = cv\<lparr>cv_waiting := notify_all_waiting sy (cv_waiting cv)\<rparr>"

text \<open>
  An instance that satisfies the contract: first blocked, first woken.  It serves
  the evaluation of concrete executions.
\<close>

definition fifo_sync :: sync_api where
  "fifo_sync = \<lparr>mutex_lock = (\<lambda>t m. case m of None \<Rightarrow> Some (Some t) | Some h \<Rightarrow> None),
     mutex_unlock = (\<lambda>m. None), notify_one_waiting = (\<lambda>n ws. tl ws),
     notify_all_waiting = (\<lambda>ws. [])\<rparr>"

lemma fifo_sync_ok: "sync_ok fifo_sync"
proof -
  have "\<exists>i < length ws. tl ws = take i ws @ drop (Suc i) ws" if "ws \<noteq> []" for ws :: "tid list"
    using that by (intro exI [of _ 0]) (cases ws, auto)
  then show ?thesis by (simp add: sync_ok_def fifo_sync_def)
qed

lemma sync_okD:
  assumes "sync_ok sy"
  shows "mutex_lock sy t None = Some (Some t)" and "mutex_lock sy t (Some h) = None"
    and "mutex_unlock sy m = None" and "notify_all_waiting sy ws = []"
    and "notify_one_waiting sy n [] = []"
  using assms by (simp_all add: sync_ok_def)

lemma mutex_lock_Some:
  assumes "sync_ok sy"
  shows "mutex_lock sy t m = Some m' \<longleftrightarrow> m = None \<and> m' = Some t"
  using assms by (cases m) (auto simp: sync_okD)

lemma notify_one_subset:
  assumes "sync_ok sy"
  shows "set (notify_one_waiting sy n ws) \<subseteq> set ws"
proof (cases "ws = []")
  case True
  with assms show ?thesis by (simp add: sync_okD)
next
  case False
  with assms obtain i where "notify_one_waiting sy n ws = take i ws @ drop (Suc i) ws"
    unfolding sync_ok_def by blast
  then show ?thesis by (auto dest: in_set_takeD in_set_dropD)
qed

lemma notify_all_waiting_empty: "sync_ok sy \<Longrightarrow> cv_waiting (notify_all sy cv) = []"
  by (simp add: notify_all_def sync_okD)

section \<open>The wait loop\<close>

text \<open>
  \<^verbatim>\<open>
  let mut guard = lock.lock();
  while busy { condvar.wait(&mut guard); }
  \<close>
  One constructor per point between two atomic actions.  \<open>Condvar::wait\<close> releases
  the mutex and blocks in one action (\<open>WaitEnter\<close>), and takes the mutex again once the
  thread is no longer among the blocked ones (\<open>WaitBlocked\<close>).  The guard is dropped at
  \<open>WaitUnlock\<close>.
\<close>

datatype wait_pc = WaitLock | WaitCheck | WaitEnter | WaitBlocked | WaitUnlock | WaitDone

fun wait_step :: "sync_api \<Rightarrow> tid \<Rightarrow> bool \<Rightarrow> wait_pc \<Rightarrow> mutex \<Rightarrow> condvar \<Rightarrow>
    (wait_pc \<times> mutex \<times> condvar) option" where
  "wait_step sy t busy WaitLock m cv = map_option (\<lambda>m'. (WaitCheck, m', cv)) (mutex_lock sy t m)"
| "wait_step sy t busy WaitCheck m cv = Some (if busy then WaitEnter else WaitUnlock, m, cv)"
| "wait_step sy t busy WaitEnter m cv =
     Some (WaitBlocked, mutex_unlock sy m, cv\<lparr>cv_waiting := cv_waiting cv @ [t]\<rparr>)"
| "wait_step sy t busy WaitBlocked m cv =
     (if t \<in> set (cv_waiting cv) then None
      else map_option (\<lambda>m'. (WaitCheck, m', cv)) (mutex_lock sy t m))"
| "wait_step sy t busy WaitUnlock m cv = Some (WaitDone, mutex_unlock sy m, cv)"
| "wait_step sy t busy WaitDone m cv = None"

text \<open>The points at which a thread in the loop holds the mutex.\<close>

definition wait_holds :: "wait_pc \<Rightarrow> bool" where
  "wait_holds pc \<longleftrightarrow> pc \<in> {WaitCheck, WaitEnter, WaitUnlock}"

lemma wait_holds_simps [simp]:
  "\<not> wait_holds WaitLock" "wait_holds WaitCheck" "wait_holds WaitEnter" "\<not> wait_holds WaitBlocked"
  "wait_holds WaitUnlock" "\<not> wait_holds WaitDone"
  by (simp_all add: wait_holds_def)

end
