(* ===== verification/Group.thy ===== *)
theory Group
  imports Sync
begin

text \<open>
  Task groups, \<^verbatim>\<open>src/src/group.rs\<close>: the count of tasks that belong to the group and
  have not completed, the flag that closes it, and the mutex and condition
  variable its waiters block on.
\<close>

section \<open>State and operations\<close>

record task_group =
  grp_tasks_in_flight :: usize
  grp_closed :: bool
  grp_wait_lock :: mutex
  grp_wake :: condvar

definition group_new :: task_group where
  "group_new = \<lparr>grp_tasks_in_flight = 0, grp_closed = False, grp_wait_lock = None,
     grp_wake = condvar_new\<rparr>"

definition group_default :: task_group where
  "group_default = group_new"

text \<open>The atomic actions on a group.\<close>

definition group_fetch_add :: "task_group \<Rightarrow> task_group" where
  "group_fetch_add g = g\<lparr>grp_tasks_in_flight := grp_tasks_in_flight g + 1\<rparr>"

definition group_fetch_sub :: "task_group \<Rightarrow> usize \<times> task_group" where
  "group_fetch_sub g =
     (grp_tasks_in_flight g, g\<lparr>grp_tasks_in_flight := grp_tasks_in_flight g - 1\<rparr>)"

definition group_notify_all :: "sync_api \<Rightarrow> task_group \<Rightarrow> task_group" where
  "group_notify_all sy g = g\<lparr>grp_wake := notify_all sy (grp_wake g)\<rparr>"

definition group_store_closed :: "task_group \<Rightarrow> task_group" where
  "group_store_closed g = g\<lparr>grp_closed := True\<rparr>"

text \<open>The operations, run without interference.\<close>

definition group_task_completed :: "sync_api \<Rightarrow> task_group \<Rightarrow> task_group" where
  "group_task_completed sy g =
     (let (previous, g') = group_fetch_sub g
      in if previous = 1 then group_notify_all sy g' else g')"

definition add_task :: "sync_api \<Rightarrow> task_group \<Rightarrow> bool \<times> task_group" where
  "add_task sy g =
     (if grp_closed g then (False, g)
      else
        let g' = group_fetch_add g
        in if grp_closed g' then (False, group_task_completed sy g')
           else (True, g'))"

definition group_close :: "sync_api \<Rightarrow> task_group \<Rightarrow> task_group" where
  "group_close sy g = group_notify_all sy (group_store_closed g)"

definition group_tasks_in_flight :: "task_group \<Rightarrow> usize" where
  "group_tasks_in_flight g = grp_tasks_in_flight g"

definition group_is_closed :: "task_group \<Rightarrow> bool" where
  "group_is_closed g = grp_closed g"

text \<open>One atomic action of \<open>TaskGroup::wait\<close> by thread \<open>t\<close>.\<close>

definition group_wait_step ::
  "sync_api \<Rightarrow> tid \<Rightarrow> wait_pc \<Rightarrow> task_group \<Rightarrow> (wait_pc \<times> task_group) option" where
  "group_wait_step sy t pc g =
     map_option (\<lambda>(pc', m, cv). (pc', g\<lparr>grp_wait_lock := m, grp_wake := cv\<rparr>))
       (wait_step sy t (grp_tasks_in_flight g \<noteq> 0) pc (grp_wait_lock g) (grp_wake g))"

text \<open>\<open>TaskGroup::wait\<close> without interference; \<open>None\<close> means that it blocks.\<close>

definition group_wait :: "sync_api \<Rightarrow> tid \<Rightarrow> task_group \<Rightarrow> task_group option" where
  "group_wait sy t g =
     (case drive 4 (group_wait_step sy t) WaitLock g of
        (WaitDone, g') \<Rightarrow> Some g'
      | _ \<Rightarrow> None)"

end
