(* ===== verification/Queue.thy ===== *)
theory Queue
  imports Stats Steal
begin

text \<open>
  Tasks, priorities and the queue system of \<^verbatim>\<open>src/src/queue.rs\<close>: three global
  injectors, one local deque per worker, and the search a worker makes for its
  next task.  The queues themselves are \<^verbatim>\<open>crossbeam_deque\<close>, which is not part of
  the repository: its operations are the parameter \<open>deque_api\<close> and its documented
  behaviour the predicate \<open>deque_ok\<close>.
\<close>

section \<open>Tasks and priorities\<close>

type_synonym task_fn = usize
type_synonym gid = nat

datatype task_priority = Low | Normal | High

fun priority_rank :: "task_priority \<Rightarrow> nat" where
  "priority_rank Low = 0"
| "priority_rank Normal = 1"
| "priority_rank High = 2"

instantiation task_priority :: linorder
begin

definition less_eq_task_priority :: "task_priority \<Rightarrow> task_priority \<Rightarrow> bool" where
  "p \<le> q \<longleftrightarrow> priority_rank p \<le> priority_rank q"

definition less_task_priority :: "task_priority \<Rightarrow> task_priority \<Rightarrow> bool" where
  "p < q \<longleftrightarrow> priority_rank p < priority_rank q"

instance
proof
  fix p q r :: task_priority
  show "p < q \<longleftrightarrow> p \<le> q \<and> \<not> q \<le> p"
    by (auto simp: less_eq_task_priority_def less_task_priority_def)
  show "p \<le> p" by (simp add: less_eq_task_priority_def)
  show "p \<le> q \<Longrightarrow> q \<le> r \<Longrightarrow> p \<le> r" by (simp add: less_eq_task_priority_def)
  show "p \<le> q \<Longrightarrow> q \<le> p \<Longrightarrow> p = q"
    by (cases p; cases q) (simp_all add: less_eq_task_priority_def)
  show "p \<le> q \<or> q \<le> p" by (auto simp: less_eq_task_priority_def)
qed

end

lemma priority_less_iff [simp]:
  "\<not> High < p" "Normal < p \<longleftrightarrow> p = High" "Low < p \<longleftrightarrow> p \<noteq> Low"
  by (cases p; simp add: less_task_priority_def)+

record task =
  tk_function :: task_fn
  tk_argument :: usize
  tk_priority :: task_priority
  tk_group :: "gid option"

definition task_new :: "task_fn \<Rightarrow> usize \<Rightarrow> task_priority \<Rightarrow> gid option \<Rightarrow> task" where
  "task_new fn arg p g = \<lparr>tk_function = fn, tk_argument = arg, tk_priority = p, tk_group = g\<rparr>"

definition task_priority_of :: "task \<Rightarrow> task_priority" where
  "task_priority_of t = tk_priority t"

definition take_group :: "task \<Rightarrow> gid option \<times> task" where
  "take_group t = (tk_group t, t\<lparr>tk_group := None\<rparr>)"

text \<open>
  Executing a task calls its C function with its argument.  The function is code
  of the caller; what the scheduler does is make the call, so the model returns
  the call that is made.
\<close>

definition task_execute :: "task \<Rightarrow> task_fn \<times> usize" where
  "task_execute t = (tk_function t, tk_argument t)"

section \<open>Fairness state\<close>

definition HIGH_BURST_LIMIT :: usize where
  "HIGH_BURST_LIMIT = 32"

record priority_state =
  high_streak :: usize

definition priority_state_new :: priority_state where
  "priority_state_new = \<lparr>high_streak = 0\<rparr>"

definition priority_state_default :: priority_state where
  "priority_state_default = priority_state_new"

definition record_high :: "priority_state \<Rightarrow> priority_state" where
  "record_high ps = ps\<lparr>high_streak := high_streak ps + 1\<rparr>"

definition reset_streak :: "priority_state \<Rightarrow> priority_state" where
  "reset_streak ps = ps\<lparr>high_streak := 0\<rparr>"

definition fairness_due :: "priority_state \<Rightarrow> bool" where
  "fairness_due ps \<longleftrightarrow> HIGH_BURST_LIMIT \<le> high_streak ps"

definition record_task :: "priority_state \<Rightarrow> task \<Rightarrow> priority_state" where
  "record_task ps t = (case tk_priority t of
       High \<Rightarrow> record_high ps
     | Normal \<Rightarrow> reset_streak ps
     | Low \<Rightarrow> reset_streak ps)"

section \<open>The queues\<close>

datatype 'a steal = Success 'a | StealEmpty | StealRetry

datatype pop_result = PopTask task | PopEmpty | PopRetry

record deque_api =
  injector_push :: "task list \<Rightarrow> task \<Rightarrow> task list"
  injector_steal_batch_and_pop ::
    "nat \<Rightarrow> task list \<Rightarrow> task list \<Rightarrow> task steal \<times> task list \<times> task list"
  deque_pop :: "task list \<Rightarrow> task option \<times> task list"
  deque_steal :: "nat \<Rightarrow> task list \<Rightarrow> task steal \<times> task list"

text \<open>
  An \<open>Injector\<close> and a \<open>Worker\<close> made by \<open>new_fifo\<close> are FIFO queues, listed here from the
  front.  \<open>steal_batch_and_pop\<close> moves some prefix of the injector, of unspecified
  length, into the worker's deque and hands out the first task of that prefix;
  \<open>steal\<close> takes the task at the front of a deque.  Either may ask for a retry, which
  changes nothing, and reports \<open>Empty\<close> only when the queue was empty.  The number
  passed to a stealing operation is the count of deque operations so far, so that
  the batch lengths and the retries may differ from call to call.
\<close>

definition deque_ok :: "deque_api \<Rightarrow> bool" where
  "deque_ok dq \<longleftrightarrow>
     (\<forall>q t. injector_push dq q t = q @ [t]) \<and>
     (\<forall>n q w t q' w'. injector_steal_batch_and_pop dq n q w = (Success t, q', w') \<longrightarrow>
        (\<exists>batch. q = t # batch @ q' \<and> w' = w @ batch)) \<and>
     (\<forall>n q w q' w'. injector_steal_batch_and_pop dq n q w = (StealEmpty, q', w') \<longrightarrow>
        q = [] \<and> q' = q \<and> w' = w) \<and>
     (\<forall>n q w q' w'. injector_steal_batch_and_pop dq n q w = (StealRetry, q', w') \<longrightarrow>
        q' = q \<and> w' = w) \<and>
     deque_pop dq [] = (None, []) \<and>
     (\<forall>t w. deque_pop dq (t # w) = (Some t, w)) \<and>
     (\<forall>n w t w'. deque_steal dq n w = (Success t, w') \<longrightarrow> w = t # w') \<and>
     (\<forall>n w w'. deque_steal dq n w = (StealEmpty, w') \<longrightarrow> w = [] \<and> w' = w) \<and>
     (\<forall>n w w'. deque_steal dq n w = (StealRetry, w') \<longrightarrow> w' = w)"

record queue_system =
  q_high :: "task list"
  q_normal :: "task list"
  q_low :: "task list"
  q_locals :: "task list list"
  q_clock :: nat

text \<open>
  \<open>QueueSystem::new\<close> makes the local deques and their stealers in one loop; both
  views of a deque are the same entry of \<open>q_locals\<close>.
\<close>

definition queue_system_new :: "usize \<Rightarrow> queue_system" where
  "queue_system_new worker_count =
     \<lparr>q_high = [], q_normal = [], q_low = [],
      q_locals = replicate (unat (max worker_count 1)) [], q_clock = 0\<rparr>"

fun injector :: "queue_system \<Rightarrow> task_priority \<Rightarrow> task list" where
  "injector qs High = q_high qs"
| "injector qs Normal = q_normal qs"
| "injector qs Low = q_low qs"

fun set_injector :: "task_priority \<Rightarrow> task list \<Rightarrow> queue_system \<Rightarrow> queue_system" where
  "set_injector High q qs = qs\<lparr>q_high := q\<rparr>"
| "set_injector Normal q qs = qs\<lparr>q_normal := q\<rparr>"
| "set_injector Low q qs = qs\<lparr>q_low := q\<rparr>"

definition set_local :: "nat \<Rightarrow> task list \<Rightarrow> queue_system \<Rightarrow> queue_system" where
  "set_local i w qs = qs\<lparr>q_locals := (q_locals qs)[i := w]\<rparr>"

definition tick :: "queue_system \<Rightarrow> queue_system" where
  "tick qs = qs\<lparr>q_clock := Suc (q_clock qs)\<rparr>"

definition push_global :: "deque_api \<Rightarrow> task \<Rightarrow> queue_system \<Rightarrow> queue_system" where
  "push_global dq t qs = (case tk_priority t of
       High \<Rightarrow> qs\<lparr>q_high := injector_push dq (q_high qs) t\<rparr>
     | Normal \<Rightarrow> qs\<lparr>q_normal := injector_push dq (q_normal qs) t\<rparr>
     | Low \<Rightarrow> qs\<lparr>q_low := injector_push dq (q_low qs) t\<rparr>)"

definition queue_worker_count :: "queue_system \<Rightarrow> usize" where
  "queue_worker_count qs = of_nat (length (q_locals qs))"

section \<open>Looking for the next task\<close>

definition steal_priority ::
  "deque_api \<Rightarrow> nat \<Rightarrow> task_priority \<Rightarrow> queue_system \<Rightarrow> pop_result \<times> queue_system" where
  "steal_priority dq me p qs =
     (case injector_steal_batch_and_pop dq (q_clock qs) (injector qs p) (q_locals qs ! me) of
        (r, q', w') \<Rightarrow>
          (case r of Success t \<Rightarrow> PopTask t | StealRetry \<Rightarrow> PopRetry | StealEmpty \<Rightarrow> PopEmpty,
           tick (set_local me w' (set_injector p q' qs))))"

definition try_priority_queue ::
  "deque_api \<Rightarrow> nat \<Rightarrow> task_priority \<Rightarrow> queue_system \<Rightarrow> priority_state \<Rightarrow>
     pop_result option \<times> queue_system \<times> priority_state" where
  "try_priority_queue dq me p qs ps =
     (case steal_priority dq me p qs of
        (PopTask t, qs') \<Rightarrow> (Some (PopTask t), qs', record_task ps t)
      | (PopRetry, qs') \<Rightarrow> (Some PopRetry, qs', ps)
      | (PopEmpty, qs') \<Rightarrow> (None, qs', ps))"

definition local_pop :: "deque_api \<Rightarrow> nat \<Rightarrow> queue_system \<Rightarrow> task option \<times> queue_system" where
  "local_pop dq me qs =
     (case deque_pop dq (q_locals qs ! me) of (r, w') \<Rightarrow> (r, tick (set_local me w' qs)))"

definition peer_steal :: "deque_api \<Rightarrow> nat \<Rightarrow> queue_system \<Rightarrow> task steal \<times> queue_system" where
  "peer_steal dq v qs =
     (case deque_steal dq (q_clock qs) (q_locals qs ! v) of (r, w') \<Rightarrow> (r, tick (set_local v w' qs)))"

text \<open>The loop over the victims; an index without a stealer is skipped.\<close>

fun peer_loop ::
  "deque_api \<Rightarrow> usize list \<Rightarrow> queue_system \<Rightarrow> scheduler_stats \<Rightarrow> priority_state \<Rightarrow>
     pop_result \<times> queue_system \<times> scheduler_stats \<times> priority_state" where
  "peer_loop dq [] qs st ps = (PopEmpty, qs, st, ps)"
| "peer_loop dq (victim # vs) qs st ps =
     (if unat victim < length (q_locals qs) then
        let st = record_steal_attempt st in
        (case peer_steal dq (unat victim) qs of
           (Success t, qs') \<Rightarrow> (PopTask t, qs', record_steal_success st, record_task ps t)
         | (StealRetry, qs') \<Rightarrow> (PopRetry, qs', st, ps)
         | (StealEmpty, qs') \<Rightarrow> peer_loop dq vs qs' (record_steal_failure st) ps)
      else peer_loop dq vs qs st ps)"

definition steal_from_peers ::
  "deque_api \<Rightarrow> queue_system \<Rightarrow> steal_state \<Rightarrow> scheduler_stats \<Rightarrow> priority_state \<Rightarrow>
     pop_result \<times> queue_system \<times> steal_state \<times> scheduler_stats \<times> priority_state" where
  "steal_from_peers dq qs ss st ps =
     (let (vs, ss') = victims ss;
          (r, qs', st', ps') = peer_loop dq vs qs st ps
      in (r, qs', ss', st', ps'))"

text \<open>The part of the search that follows the fairness intervention.\<close>

definition pop_normal_order ::
  "deque_api \<Rightarrow> nat \<Rightarrow> queue_system \<Rightarrow> steal_state \<Rightarrow> scheduler_stats \<Rightarrow> priority_state \<Rightarrow>
     pop_result \<times> queue_system \<times> steal_state \<times> scheduler_stats \<times> priority_state" where
  "pop_normal_order dq me qs ss st ps =
     (case local_pop dq me qs of
        (Some t, qs) \<Rightarrow> (PopTask t, qs, ss, st, record_task ps t)
      | (None, qs) \<Rightarrow>
     (case try_priority_queue dq me High qs ps of
        (Some r, qs, ps) \<Rightarrow> (r, qs, ss, st, ps)
      | (None, qs, ps) \<Rightarrow>
     (case try_priority_queue dq me Normal qs ps of
        (Some r, qs, ps) \<Rightarrow> (r, qs, ss, st, ps)
      | (None, qs, ps) \<Rightarrow>
     (case try_priority_queue dq me Low qs ps of
        (Some r, qs, ps) \<Rightarrow> (r, qs, ss, st, ps)
      | (None, qs, ps) \<Rightarrow> steal_from_peers dq qs ss st ps))))"

definition pop_for_worker ::
  "deque_api \<Rightarrow> nat \<Rightarrow> queue_system \<Rightarrow> steal_state \<Rightarrow> scheduler_stats \<Rightarrow> priority_state \<Rightarrow>
     pop_result \<times> queue_system \<times> steal_state \<times> scheduler_stats \<times> priority_state" where
  "pop_for_worker dq me qs ss st ps =
     (if fairness_due ps then
        let st = record_fairness_yield st in
        (case try_priority_queue dq me Normal qs ps of
           (Some r, qs, ps) \<Rightarrow> (r, qs, ss, st, ps)
         | (None, qs, ps) \<Rightarrow>
        (case try_priority_queue dq me Low qs ps of
           (Some r, qs, ps) \<Rightarrow> (r, qs, ss, st, ps)
         | (None, qs, ps) \<Rightarrow>
             pop_normal_order dq me qs ss st (reset_streak ps)))
      else pop_normal_order dq me qs ss st ps)"

section \<open>What the deque operations do\<close>

lemma set_injector_same [simp]: "set_injector p (injector qs p) qs = qs"
  by (cases p) simp_all

lemma set_local_same [simp]: "set_local i (q_locals qs ! i) qs = qs"
  by (simp add: set_local_def)

lemma injector_frames [simp]:
  "injector (tick qs) p = injector qs p"
  "injector (set_local i w qs) p = injector qs p"
  "injector (set_injector p q qs) p' = (if p' = p then q else injector qs p')"
  by (cases p; cases p'; simp add: tick_def set_local_def)+

lemma tick_fields [simp]:
  "q_high (tick qs) = q_high qs" "q_normal (tick qs) = q_normal qs" "q_low (tick qs) = q_low qs"
  by (simp_all add: tick_def)

lemma locals_frames [simp]:
  "q_locals (tick qs) = q_locals qs"
  "q_locals (set_injector p q qs) = q_locals qs"
  "q_locals (set_local i w qs) = (q_locals qs)[i := w]"
  by (cases p; simp add: tick_def set_local_def)+

lemma set_local_id: "w = q_locals qs ! i \<Longrightarrow> set_local i w qs = qs"
  by simp

lemma set_injector_id: "q = injector qs p \<Longrightarrow> set_injector p q qs = qs"
  by simp

lemma steal_batch_SuccessD:
  "deque_ok dq \<Longrightarrow> injector_steal_batch_and_pop dq n q w = (Success t, q', w') \<Longrightarrow>
     \<exists>batch. q = t # batch @ q' \<and> w' = w @ batch"
  unfolding deque_ok_def by (elim conjE) simp

lemma steal_batch_EmptyD:
  "deque_ok dq \<Longrightarrow> injector_steal_batch_and_pop dq n q w = (StealEmpty, q', w') \<Longrightarrow>
     q = [] \<and> q' = q \<and> w' = w"
  unfolding deque_ok_def by (elim conjE) simp

lemma steal_batch_RetryD:
  "deque_ok dq \<Longrightarrow> injector_steal_batch_and_pop dq n q w = (StealRetry, q', w') \<Longrightarrow>
     q' = q \<and> w' = w"
  unfolding deque_ok_def by (elim conjE) simp

lemma deque_stealD:
  "deque_ok dq \<Longrightarrow> deque_steal dq n w = (Success t, w') \<Longrightarrow> w = t # w'"
  "deque_ok dq \<Longrightarrow> deque_steal dq n w = (StealEmpty, w') \<Longrightarrow> w = [] \<and> w' = w"
  "deque_ok dq \<Longrightarrow> deque_steal dq n w = (StealRetry, w') \<Longrightarrow> w' = w"
  unfolding deque_ok_def by (elim conjE, simp)+

lemma steal_priority_cases:
  assumes "deque_ok dq"
  obtains
    (Task) t batch q' where "injector qs p = t # batch @ q'"
      "steal_priority dq me p qs =
         (PopTask t, tick (set_local me (q_locals qs ! me @ batch) (set_injector p q' qs)))"
  | (Retry) "steal_priority dq me p qs = (PopRetry, tick qs)"
  | (Empty) "injector qs p = []" "steal_priority dq me p qs = (PopEmpty, tick qs)"
proof -
  obtain r q' w' where eq:
    "injector_steal_batch_and_pop dq (q_clock qs) (injector qs p) (q_locals qs ! me) = (r, q', w')"
    by (metis prod_cases3)
  show ?thesis
  proof (cases r)
    case (Success t)
    with steal_batch_SuccessD [OF assms] eq
    obtain batch where "injector qs p = t # batch @ q'" "w' = q_locals qs ! me @ batch"
      by blast
    with Success eq Task show ?thesis by (simp add: steal_priority_def)
  next
    case StealEmpty
    with steal_batch_EmptyD [OF assms] eq
    have *: "injector qs p = []" "q' = injector qs p" "w' = q_locals qs ! me" by blast+
    from StealEmpty eq have "steal_priority dq me p qs = (PopEmpty, tick qs)"
      by (simp add: steal_priority_def set_injector_id [OF *(2)] set_local_id [OF *(3)])
    with *(1) show ?thesis by (rule Empty)
  next
    case StealRetry
    with steal_batch_RetryD [OF assms] eq
    have *: "q' = injector qs p" "w' = q_locals qs ! me" by blast+
    from StealRetry eq have "steal_priority dq me p qs = (PopRetry, tick qs)"
      by (simp add: steal_priority_def set_injector_id [OF *(1)] set_local_id [OF *(2)])
    then show ?thesis by (rule Retry)
  qed
qed

lemma try_priority_queue_cases:
  assumes "deque_ok dq"
  obtains
    (Task) t batch q' where "injector qs p = t # batch @ q'"
      "try_priority_queue dq me p qs ps =
         (Some (PopTask t), tick (set_local me (q_locals qs ! me @ batch) (set_injector p q' qs)),
          record_task ps t)"
  | (Retry) "try_priority_queue dq me p qs ps = (Some PopRetry, tick qs, ps)"
  | (Empty) "injector qs p = []" "try_priority_queue dq me p qs ps = (None, tick qs, ps)"
  using assms
  by (cases rule: steal_priority_cases [where qs = qs and p = p and me = me])
    (auto simp: try_priority_queue_def)

lemma local_pop_cases:
  assumes "deque_ok dq"
  obtains
    (Task) t w where "q_locals qs ! me = t # w"
      "local_pop dq me qs = (Some t, tick (set_local me w qs))"
  | (Empty) "q_locals qs ! me = []" "local_pop dq me qs = (None, tick qs)"
proof (cases "q_locals qs ! me")
  case Nil
  moreover have "set_local me [] qs = qs" using set_local_same [of me qs] Nil by simp
  ultimately show ?thesis using assms Empty by (simp add: local_pop_def deque_ok_def)
next
  case (Cons t w)
  then show ?thesis using assms Task by (simp add: local_pop_def deque_ok_def)
qed

lemma peer_steal_cases:
  assumes "deque_ok dq"
  obtains
    (Task) t w where "q_locals qs ! v = t # w"
      "peer_steal dq v qs = (Success t, tick (set_local v w qs))"
  | (Retry) "peer_steal dq v qs = (StealRetry, tick qs)"
  | (Empty) "q_locals qs ! v = []" "peer_steal dq v qs = (StealEmpty, tick qs)"
proof -
  obtain r w' where eq: "deque_steal dq (q_clock qs) (q_locals qs ! v) = (r, w')"
    by (metis prod.exhaust)
  show ?thesis
  proof (cases r)
    case (Success t)
    with deque_stealD(1) [OF assms] eq have "q_locals qs ! v = t # w'" by blast
    with Success eq Task show ?thesis by (simp add: peer_steal_def)
  next
    case StealEmpty
    with deque_stealD(2) [OF assms] eq have *: "q_locals qs ! v = []" "w' = q_locals qs ! v" by blast+
    from StealEmpty eq have "peer_steal dq v qs = (StealEmpty, tick qs)"
      by (simp add: peer_steal_def set_local_id [OF *(2)])
    with *(1) show ?thesis by (rule Empty)
  next
    case StealRetry
    with deque_stealD(3) [OF assms] eq have *: "w' = q_locals qs ! v" by blast
    from StealRetry eq have "peer_steal dq v qs = (StealRetry, tick qs)"
      by (simp add: peer_steal_def set_local_id [OF *])
    then show ?thesis by (rule Retry)
  qed
qed

section \<open>The queued tasks as a multiset\<close>

definition queued :: "queue_system \<Rightarrow> task multiset" where
  "queued qs = mset (q_high qs) + mset (q_normal qs) + mset (q_low qs) + mset (concat (q_locals qs))"

lemma mset_concat_update:
  "i < length ws \<Longrightarrow> mset (concat (ws[i := w])) + mset (ws ! i) = mset (concat ws) + mset w"
proof (induction ws arbitrary: i)
  case Nil
  then show ?case by simp
next
  case (Cons a ws)
  show ?case
  proof (cases i)
    case 0
    then show ?thesis by simp
  next
    case (Suc j)
    then show ?thesis using Cons.IH [of j] Cons.prems by (simp add: union_assoc)
  qed
qed

lemma queued_tick [simp]: "queued (tick qs) = queued qs"
  by (simp add: queued_def tick_def)

lemma queued_set_local:
  "i < length (q_locals qs) \<Longrightarrow>
     queued (set_local i w qs) + mset (q_locals qs ! i) = queued qs + mset w"
  using mset_concat_update [of i "q_locals qs" w]
  by (simp add: queued_def set_local_def add.assoc)

lemma queued_set_injector:
  "queued (set_injector p q qs) + mset (injector qs p) = queued qs + mset q"
  by (cases p) (simp_all add: queued_def ac_simps)

lemma queued_steal_batch:
  assumes "me < length (q_locals qs)" and "injector qs p = t # batch @ q'"
  shows "queued qs =
    add_mset t (queued (set_local me (q_locals qs ! me @ batch) (set_injector p q' qs)))"
proof -
  let ?qi = "set_injector p q' qs"
  have "queued ?qi + mset (injector qs p) = queued qs + mset q'"
    by (rule queued_set_injector)
  moreover have "queued (set_local me (q_locals qs ! me @ batch) ?qi) = queued ?qi + mset batch"
    using queued_set_local [of me ?qi "q_locals qs ! me @ batch"] assms(1) by simp
  ultimately show ?thesis using assms(2) by simp
qed

lemma queued_local_pop:
  assumes "i < length (q_locals qs)" and "q_locals qs ! i = t # w"
  shows "queued qs = add_mset t (queued (set_local i w qs))"
  using queued_set_local [OF assms(1), of w] assms(2) by simp

lemma queued_push_global:
  "deque_ok dq \<Longrightarrow> queued (push_global dq t qs) = add_mset t (queued qs)"
  by (simp add: push_global_def deque_ok_def queued_def split: task_priority.split)

section \<open>Soundness of the search\<close>

text \<open>
  Every injector holds tasks of its own priority only (\<open>push_global\<close> sorts them, and
  no operation puts a task back).  The local deques may hold any mixture.
\<close>

definition injectors_ok :: "queue_system \<Rightarrow> bool" where
  "injectors_ok qs \<longleftrightarrow>
     (\<forall>t \<in> set (q_high qs). tk_priority t = High) \<and>
     (\<forall>t \<in> set (q_normal qs). tk_priority t = Normal) \<and>
     (\<forall>t \<in> set (q_low qs). tk_priority t = Low)"

lemma injectors_ok_iff: "injectors_ok qs \<longleftrightarrow> (\<forall>p. \<forall>t \<in> set (injector qs p). tk_priority t = p)"
proof
  assume "injectors_ok qs"
  then show "\<forall>p. \<forall>t \<in> set (injector qs p). tk_priority t = p"
    unfolding injectors_ok_def by (intro allI, case_tac p) simp_all
next
  assume "\<forall>p. \<forall>t \<in> set (injector qs p). tk_priority t = p"
  from this [THEN spec, of High] this [THEN spec, of Normal] this [THEN spec, of Low]
  show "injectors_ok qs" by (simp add: injectors_ok_def)
qed

text \<open>
  What every part of the search guarantees between the queues before and after:
  the deques stay in place, the injectors stay sorted, and the task handed out,
  if any, is the only one that has left the queues.
\<close>

definition handed_out :: "pop_result \<Rightarrow> task multiset" where
  "handed_out r = (case r of PopTask t \<Rightarrow> {#t#} | _ \<Rightarrow> {#})"

lemma handed_out_simps [simp]:
  "handed_out (PopTask t) = {#t#}" "handed_out PopEmpty = {#}" "handed_out PopRetry = {#}"
  by (simp_all add: handed_out_def)

definition pop_sound :: "queue_system \<Rightarrow> pop_result \<Rightarrow> queue_system \<Rightarrow> bool" where
  "pop_sound qs r qs' \<longleftrightarrow>
     length (q_locals qs') = length (q_locals qs) \<and>
     (injectors_ok qs \<longrightarrow> injectors_ok qs') \<and>
     queued qs = handed_out r + queued qs'"

lemma pop_sound_trans:
  "pop_sound qs PopEmpty qs1 \<Longrightarrow> pop_sound qs1 r qs2 \<Longrightarrow> pop_sound qs r qs2"
  by (simp add: pop_sound_def)

lemma pop_sound_tick [simp]: "handed_out r = {#} \<Longrightarrow> pop_sound qs r (tick qs)"
  by (simp add: pop_sound_def injectors_ok_iff)

lemma pop_sound_batch:
  assumes "me < length (q_locals qs)" and "injector qs p = t # batch @ q'"
  shows "pop_sound qs (PopTask t)
    (tick (set_local me (q_locals qs ! me @ batch) (set_injector p q' qs)))"
  using queued_steal_batch [OF assms] assms(2)
  by (auto simp: pop_sound_def injectors_ok_iff)

lemma pop_sound_take:
  assumes "i < length (q_locals qs)" and "q_locals qs ! i = t # w"
  shows "pop_sound qs (PopTask t) (tick (set_local i w qs))"
  using queued_local_pop [OF assms] by (auto simp: pop_sound_def injectors_ok_iff)

text \<open>
  The search as a case distinction.  A probe that finds its queue empty changes
  nothing but the operation counter, so every outcome is described by the queues
  at the start.
\<close>

lemma ticks_frames [simp]:
  "injector ((tick ^^ n) qs) p = injector qs p"
  "q_locals ((tick ^^ n) qs) = q_locals qs"
  "queued ((tick ^^ n) qs) = queued qs"
  by (induction n) simp_all

lemma injectors_ok_ticks [simp]: "injectors_ok ((tick ^^ n) qs) = injectors_ok qs"
  by (simp add: injectors_ok_iff)

definition batch_taken :: "nat \<Rightarrow> task_priority \<Rightarrow> task list \<Rightarrow> task list \<Rightarrow> queue_system \<Rightarrow> queue_system" where
  "batch_taken me p batch q' qs = tick (set_local me (q_locals qs ! me @ batch) (set_injector p q' qs))"

lemma try_chain_cases:
  assumes "deque_ok dq"
    and "(case try_priority_queue dq me p qs ps of
        (Some r, qs, ps) \<Rightarrow> (r, qs, ss, st, ps) | (None, qs, ps) \<Rightarrow> k qs ps) = res"
  obtains
    (Task) t batch q' where "injector qs p = t # batch @ q'"
      "res = (PopTask t, batch_taken me p batch q' qs, ss, st, record_task ps t)"
  | (Retry) "res = (PopRetry, tick qs, ss, st, ps)"
  | (Empty) "injector qs p = []" "k (tick qs) ps = res"
  using assms(1)
  by (cases rule: try_priority_queue_cases [where qs = qs and p = p and me = me and ps = ps])
    (use assms(2) that in \<open>auto simp: batch_taken_def\<close>)

lemma global_chain_cases:
  assumes dq: "deque_ok dq"
    and res: "(case try_priority_queue dq me High qs ps of
        (Some r, qs, ps) \<Rightarrow> (r, qs, ss, st, ps) | (None, qs, ps) \<Rightarrow>
      (case try_priority_queue dq me Normal qs ps of
        (Some r, qs, ps) \<Rightarrow> (r, qs, ss, st, ps) | (None, qs, ps) \<Rightarrow>
      (case try_priority_queue dq me Low qs ps of
        (Some r, qs, ps) \<Rightarrow> (r, qs, ss, st, ps) | (None, qs, ps) \<Rightarrow> k qs ps))) = res"
  obtains
    (Task) p t batch q' n where "injector qs p = t # batch @ q'" "\<And>p'. p < p' \<Longrightarrow> injector qs p' = []"
      "res = (PopTask t, batch_taken me p batch q' ((tick ^^ n) qs), ss, st, record_task ps t)"
  | (Retry) n where "res = (PopRetry, (tick ^^ n) qs, ss, st, ps)"
  | (Empty) "\<And>p. injector qs p = []" "k ((tick ^^ 3) qs) ps = res"
  using dq res
proof (cases rule: try_chain_cases)
  case (Task t batch q')
  then show ?thesis by (intro that(1) [of High t batch q' 0]) simp_all
next
  case Retry
  then show ?thesis using that(2) [of 1] by simp
next
  case high: Empty
  from dq high(2) show ?thesis
  proof (cases rule: try_chain_cases)
    case (Task t batch q')
    with high(1) show ?thesis by (intro that(1) [of Normal t batch q' 1]) simp_all
  next
    case Retry
    then show ?thesis using that(2) [of 2] by (simp add: numeral_eq_Suc)
  next
    case normal: Empty
    have upper: "injector qs p = []" if "Low < p" for p
      using that high(1) normal(1) by (cases p) simp_all
    from dq normal(2) show ?thesis
    proof (cases rule: try_chain_cases)
      case (Task t batch q')
      with upper show ?thesis by (intro that(1) [of Low t batch q' 2]) (simp_all add: numeral_eq_Suc)
    next
      case Retry
      then show ?thesis using that(2) [of 3] by (simp add: numeral_eq_Suc)
    next
      case low: Empty
      have "injector qs p = []" for p
        using high(1) normal(1) low(1) by (cases p) simp_all
      with low(2) show ?thesis by (intro that(3)) (simp_all add: numeral_eq_Suc)
    qed
  qed
qed

lemma pop_normal_order_cases:
  assumes dq: "deque_ok dq" and res: "pop_normal_order dq me qs ss st ps = res"
  obtains
    (Local) t w where "q_locals qs ! me = t # w"
      "res = (PopTask t, tick (set_local me w qs), ss, st, record_task ps t)"
  | (Global) p t batch q' n where "q_locals qs ! me = []" "injector qs p = t # batch @ q'"
      "\<And>p'. p < p' \<Longrightarrow> injector qs p' = []"
      "res = (PopTask t, batch_taken me p batch q' ((tick ^^ n) qs), ss, st, record_task ps t)"
  | (Retry) n where "q_locals qs ! me = []" "res = (PopRetry, (tick ^^ n) qs, ss, st, ps)"
  | (Peers) "q_locals qs ! me = []" "\<And>p. injector qs p = []"
      "res = steal_from_peers dq ((tick ^^ 4) qs) ss st ps"
  using dq
proof (cases rule: local_pop_cases [where qs = qs and me = me])
  case (Task t w)
  with res show ?thesis by (intro Local) (auto simp: pop_normal_order_def)
next
  case loc: Empty
  note chain = res [unfolded pop_normal_order_def loc(2), simplified]
  from dq chain show ?thesis
  proof (cases rule: global_chain_cases)
    case (Task p t batch q' n)
    with loc(1) show ?thesis by (intro Global [of p t batch q' "Suc n"]) (simp_all add: funpow_swap1)
  next
    case (Retry n)
    with loc(1) show ?thesis by (intro that(3) [of "Suc n"]) (simp_all add: funpow_swap1)
  next
    case Empty
    with loc(1) show ?thesis by (intro Peers) (simp_all add: numeral_eq_Suc)
  qed
qed

lemma pop_for_worker_cases:
  assumes dq: "deque_ok dq" and res: "pop_for_worker dq me qs ss st ps = res"
  obtains
    (Fair) p t batch q' n where "fairness_due ps" "p \<noteq> High" "injector qs p = t # batch @ q'"
      "p = Low \<Longrightarrow> q_normal qs = []"
      "res = (PopTask t, batch_taken me p batch q' ((tick ^^ n) qs), ss,
         record_fairness_yield st, record_task ps t)"
  | (Fair_Retry) n where "fairness_due ps"
      "res = (PopRetry, (tick ^^ n) qs, ss, record_fairness_yield st, ps)"
  | (Fair_None) "fairness_due ps" "q_normal qs = []" "q_low qs = []"
      "pop_normal_order dq me ((tick ^^ 2) qs) ss (record_fairness_yield st) (reset_streak ps) = res"
  | (Plain) "\<not> fairness_due ps" "pop_normal_order dq me qs ss st ps = res"
proof (cases "fairness_due ps")
  case False
  with res Plain show ?thesis by (simp add: pop_for_worker_def)
next
  case due: True
  let ?st = "record_fairness_yield st"
  let ?low = "\<lambda>qs ps. case try_priority_queue dq me Low qs ps of
      (Some r, qs, ps) \<Rightarrow> (r, qs, ss, ?st, ps)
    | (None, qs, ps) \<Rightarrow> pop_normal_order dq me qs ss ?st (reset_streak ps)"
  have "(case try_priority_queue dq me Normal qs ps of
      (Some r, qs, ps) \<Rightarrow> (r, qs, ss, ?st, ps) | (None, qs, ps) \<Rightarrow> ?low qs ps) = res"
    using res due by (simp add: pop_for_worker_def Let_def)
  from dq this show ?thesis
  proof (cases rule: try_chain_cases)
    case (Task t batch q')
    with due show ?thesis by (intro Fair [of Normal t batch q' 0]) simp_all
  next
    case Retry
    with due show ?thesis by (intro Fair_Retry [of 1]) simp_all
  next
    case normal: Empty
    from dq normal(2) show ?thesis
    proof (cases rule: try_chain_cases)
      case (Task t batch q')
      with due normal show ?thesis by (intro Fair [of Low t batch q' 1]) simp_all
    next
      case Retry
      with due show ?thesis by (intro Fair_Retry [of 2]) (simp_all add: numeral_eq_Suc)
    next
      case Empty
      with due normal(1) show ?thesis by (intro Fair_None) (simp_all add: numeral_eq_Suc)
    qed
  qed
qed

lemma peer_loop_cases:
  assumes dq: "deque_ok dq" and res: "peer_loop dq vs qs st ps = (r, qs', st', ps')"
  obtains
    (Task) v t w n where "v \<in> set vs" "unat v < length (q_locals qs)" "q_locals qs ! unat v = t # w"
      "r = PopTask t" "qs' = tick (set_local (unat v) w ((tick ^^ n) qs))" "ps' = record_task ps t"
  | (Retry) n where "r = PopRetry" "qs' = (tick ^^ n) qs" "ps' = ps"
  | (Empty) n where "r = PopEmpty" "qs' = (tick ^^ n) qs" "ps' = ps"
      "\<And>v. v \<in> set vs \<Longrightarrow> unat v < length (q_locals qs) \<Longrightarrow> q_locals qs ! unat v = []"
  using res
proof (induction vs arbitrary: qs st thesis)
  case Nil
  then show ?case using Nil.prems(3) [of 0] by simp
next
  case (Cons v vs)
  show ?case
  proof (cases "unat v < length (q_locals qs)")
    case False
    with Cons.prems(4) have "peer_loop dq vs qs st ps = (r, qs', st', ps')" by simp
    then show ?thesis
      by (rule Cons.IH [rotated 3]) (use False Cons.prems(1-3) in auto)
  next
    case True
    show ?thesis using dq
    proof (cases rule: peer_steal_cases [where qs = qs and v = "unat v"])
      case (Task t w)
      with True Cons.prems(4) show ?thesis
        by (intro Cons.prems(1) [of v t w 0]) (auto simp: Let_def)
    next
      case Retry
      with True Cons.prems(4) show ?thesis by (intro Cons.prems(2) [of 1]) (auto simp: Let_def)
    next
      case Empty
      with True Cons.prems(4)
      have "peer_loop dq vs (tick qs) (record_steal_failure (record_steal_attempt st)) ps = (r, qs', st', ps')"
        by (simp add: Let_def)
      then show ?thesis
      proof (rule Cons.IH [rotated 3])
        fix u t w n
        assume "u \<in> set vs" "unat u < length (q_locals (tick qs))" "q_locals (tick qs) ! unat u = t # w"
          "r = PopTask t" "qs' = tick (set_local (unat u) w ((tick ^^ n) (tick qs)))" "ps' = record_task ps t"
        then show thesis
          by (intro Cons.prems(1) [of u t w "Suc n"]) (simp_all add: funpow_swap1)
      next
        fix n assume "r = PopRetry" "qs' = (tick ^^ n) (tick qs)" "ps' = ps"
        then show thesis by (intro Cons.prems(2) [of "Suc n"]) (simp_all add: funpow_swap1)
      next
        fix n
        assume "r = PopEmpty" "qs' = (tick ^^ n) (tick qs)" "ps' = ps"
          "\<And>u. u \<in> set vs \<Longrightarrow> unat u < length (q_locals (tick qs)) \<Longrightarrow> q_locals (tick qs) ! unat u = []"
        then show thesis
          using Empty by (intro Cons.prems(3) [of "Suc n"]) (auto simp: funpow_swap1)
      qed
    qed
  qed
qed

text \<open>
  The two case distinctions put together.  \<open>streak_base\<close> is the fairness state the
  normal order starts from: the streak is forgotten when the intervention found
  nothing of lower priority.
\<close>

definition streak_base :: "priority_state \<Rightarrow> priority_state" where
  "streak_base ps = (if fairness_due ps then reset_streak ps else ps)"

definition lower_empty_if_due :: "priority_state \<Rightarrow> queue_system \<Rightarrow> bool" where
  "lower_empty_if_due ps qs \<longleftrightarrow> (fairness_due ps \<longrightarrow> q_normal qs = [] \<and> q_low qs = [])"

lemma pop_normal_order_outcome:
  assumes dq: "deque_ok dq" and res: "pop_normal_order dq me qs ss st ps = (r, qs', ss', st', ps')"
  obtains
    (Local) t w where "q_locals qs ! me = t # w" "r = PopTask t" "qs' = tick (set_local me w qs)"
      "ps' = record_task ps t"
  | (Global) p t batch q' n where "q_locals qs ! me = []" "injector qs p = t # batch @ q'"
      "\<And>p'. p < p' \<Longrightarrow> injector qs p' = []" "r = PopTask t"
      "qs' = batch_taken me p batch q' ((tick ^^ n) qs)" "ps' = record_task ps t"
  | (Peer) v t w n where "q_locals qs ! me = []" "\<And>p. injector qs p = []"
      "v \<in> set (fst (victims ss))" "unat v < length (q_locals qs)" "q_locals qs ! unat v = t # w"
      "r = PopTask t" "qs' = tick (set_local (unat v) w ((tick ^^ n) qs))" "ps' = record_task ps t"
  | (Retry) n where "q_locals qs ! me = []" "r = PopRetry" "qs' = (tick ^^ n) qs" "ps' = ps"
  | (Empty) n where "r = PopEmpty" "q_locals qs ! me = []" "\<And>p. injector qs p = []"
      "\<And>v. v \<in> set (fst (victims ss)) \<Longrightarrow> unat v < length (q_locals qs) \<Longrightarrow> q_locals qs ! unat v = []"
      "qs' = (tick ^^ n) qs" "ps' = ps"
  using dq res
proof (cases rule: pop_normal_order_cases)
  case (Local t w)
  then show ?thesis by (intro that(1) [of t w]) auto
next
  case (Global p t batch q' n)
  then show ?thesis by (intro that(2) [of p t batch q' n]) auto
next
  case (Retry n)
  then show ?thesis by (intro that(4) [of n]) auto
next
  case Peers
  then have "peer_loop dq (fst (victims ss)) ((tick ^^ 4) qs) st ps = (r, qs', st', ps')"
    by (auto simp: steal_from_peers_def split: prod.splits)
  with dq show ?thesis
  proof (cases rule: peer_loop_cases)
    case (Task v t w n)
    with Peers show ?thesis
      by (intro that(3) [of v t w "n + 4"]) (simp_all add: funpow_add)
  next
    case (Retry n)
    with Peers show ?thesis by (intro that(4) [of "n + 4"]) (simp_all add: funpow_add)
  next
    case (Empty n)
    with Peers show ?thesis by (intro that(5) [of "n + 4"]) (simp_all add: funpow_add)
  qed
qed

lemma pop_for_worker_outcome:
  assumes dq: "deque_ok dq" and res: "pop_for_worker dq me qs ss st ps = (r, qs', ss', st', ps')"
  obtains
    (Fair) p t batch q' n where "fairness_due ps" "p \<noteq> High" "injector qs p = t # batch @ q'"
      "p = Low \<Longrightarrow> q_normal qs = []" "r = PopTask t"
      "qs' = batch_taken me p batch q' ((tick ^^ n) qs)" "ps' = record_task ps t"
  | (Local) t w n where "lower_empty_if_due ps qs" "q_locals qs ! me = t # w" "r = PopTask t"
      "qs' = tick (set_local me w ((tick ^^ n) qs))" "ps' = record_task (streak_base ps) t"
  | (Global) p t batch q' n where "lower_empty_if_due ps qs" "q_locals qs ! me = []"
      "injector qs p = t # batch @ q'" "\<And>p'. p < p' \<Longrightarrow> injector qs p' = []" "r = PopTask t"
      "qs' = batch_taken me p batch q' ((tick ^^ n) qs)" "ps' = record_task (streak_base ps) t"
  | (Peer) v t w n where "lower_empty_if_due ps qs" "q_locals qs ! me = []" "\<And>p. injector qs p = []"
      "v \<in> set (fst (victims ss))" "unat v < length (q_locals qs)" "q_locals qs ! unat v = t # w"
      "r = PopTask t" "qs' = tick (set_local (unat v) w ((tick ^^ n) qs))"
      "ps' = record_task (streak_base ps) t"
  | (Retry) n where "r = PopRetry" "qs' = (tick ^^ n) qs"
      "ps' = ps \<or> lower_empty_if_due ps qs \<and> ps' = streak_base ps" "fairness_due ps \<or> q_locals qs ! me = []"
  | (Empty) n where "r = PopEmpty" "q_locals qs ! me = []" "\<And>p. injector qs p = []"
      "\<And>v. v \<in> set (fst (victims ss)) \<Longrightarrow> unat v < length (q_locals qs) \<Longrightarrow> q_locals qs ! unat v = []"
      "qs' = (tick ^^ n) qs" "ps' = streak_base ps"
proof -
  note outcome = that
  have normal: thesis
    if "pop_normal_order dq me ((tick ^^ k) qs) ss st0 (streak_base ps) = (r, qs', ss', st', ps')"
      and low: "lower_empty_if_due ps qs" for k st0
    using dq that(1)
  proof (cases rule: pop_normal_order_outcome)
    case (Local t w)
    with low show ?thesis by (intro outcome(2) [of t w k]) simp_all
  next
    case (Global p t batch q' n)
    with low show ?thesis by (intro outcome(3) [of p t batch q' "n + k"]) (simp_all add: funpow_add)
  next
    case (Peer v t w n)
    with low show ?thesis by (intro outcome(4) [of v t w "n + k"]) (simp_all add: funpow_add)
  next
    case (Retry n)
    with low show ?thesis by (intro outcome(5) [of "n + k"]) (simp_all add: funpow_add)
  next
    case (Empty n)
    then show ?thesis by (intro outcome(6) [of "n + k"]) (simp_all add: funpow_add)
  qed
  from dq res show ?thesis
  proof (cases rule: pop_for_worker_cases)
    case (Fair p t batch q' n)
    then show ?thesis by (intro outcome(1) [of p t batch q' n]) simp_all
  next
    case (Fair_Retry n)
    then show ?thesis by (intro outcome(5) [of n]) simp_all
  next
    case Fair_None
    then show ?thesis
      by (intro normal [of 2]) (simp_all add: streak_base_def lower_empty_if_due_def)
  next
    case Plain
    then show ?thesis
      by (intro normal [of 0]) (simp_all add: streak_base_def lower_empty_if_due_def)
  qed
qed

section \<open>An instance of the deque operations\<close>

text \<open>
  Batches of half the injector and no retries; it satisfies the contract and lets
  concrete searches be evaluated.
\<close>

definition half_deque :: deque_api where
  "half_deque = \<lparr>injector_push = (\<lambda>q t. q @ [t]),
     injector_steal_batch_and_pop = (\<lambda>n q w. case q of
         [] \<Rightarrow> (StealEmpty, [], w)
       | t # ts \<Rightarrow> (Success t, drop (length ts div 2) ts, w @ take (length ts div 2) ts)),
     deque_pop = (\<lambda>w. case w of [] \<Rightarrow> (None, []) | t # ts \<Rightarrow> (Some t, ts)),
     deque_steal = (\<lambda>n w. case w of [] \<Rightarrow> (StealEmpty, []) | t # ts \<Rightarrow> (Success t, ts))\<rparr>"

lemma half_deque_ok: "deque_ok half_deque"
  by (auto simp: deque_ok_def half_deque_def split: list.splits)

section \<open>Facts about one search\<close>

lemma pop_sound_ticks:
  "pop_sound ((tick ^^ n) qs) r qs' \<Longrightarrow> pop_sound qs r qs'"
  by (simp add: pop_sound_def)

lemma pop_sound_batch_taken:
  assumes "me < length (q_locals qs)" and "injector qs p = t # batch @ q'"
  shows "pop_sound qs (PopTask t) (batch_taken me p batch q' ((tick ^^ n) qs))"
  by (rule pop_sound_ticks [where n = n], unfold batch_taken_def, rule pop_sound_batch)
    (simp_all add: assms)

lemma pop_sound_taken:
  assumes "i < length (q_locals qs)" and "q_locals qs ! i = t # w"
  shows "pop_sound qs (PopTask t) (tick (set_local i w ((tick ^^ n) qs)))"
  by (rule pop_sound_ticks [where n = n], rule pop_sound_take) (simp_all add: assms)

lemma pop_sound_nothing: "handed_out r = {#} \<Longrightarrow> pop_sound qs r ((tick ^^ n) qs)"
  by (simp add: pop_sound_def)

lemma pop_for_worker_sound:
  assumes "deque_ok dq" and me: "me < length (q_locals qs)"
    and "pop_for_worker dq me qs ss st ps = (r, qs', ss', st', ps')"
  shows "pop_sound qs r qs'"
  using assms(1,3)
proof (cases rule: pop_for_worker_outcome)
  case (Fair p t batch q' n)
  with me show ?thesis by (simp add: pop_sound_batch_taken)
next
  case (Local t w n)
  with me show ?thesis by (simp add: pop_sound_taken)
next
  case (Global p t batch q' n)
  with me show ?thesis by (simp add: pop_sound_batch_taken)
next
  case (Peer v t w n)
  then show ?thesis by (simp add: pop_sound_taken)
next
  case (Retry n)
  then show ?thesis by (simp add: pop_sound_nothing)
next
  case (Empty n)
  then show ?thesis by (simp add: pop_sound_nothing)
qed

text \<open>The streak.\<close>

lemma high_streak_record:
  "high_streak (record_task ps t) = (if tk_priority t = High then high_streak ps + 1 else 0)"
  by (simp add: record_task_def record_high_def reset_streak_def split: task_priority.split)

lemma streak_base_less: "high_streak (streak_base ps) < 32"
  by (auto simp: streak_base_def fairness_due_def HIGH_BURST_LIMIT_def reset_streak_def not_le)

lemma streak_base_id: "\<not> fairness_due ps \<Longrightarrow> streak_base ps = ps"
  by (simp add: streak_base_def)

lemma usize_Suc_le: "(x :: usize) < 32 \<Longrightarrow> x + 1 \<le> 32"
  by unat_arith

lemma streak_record_base: "high_streak (record_task (streak_base ps) t) \<le> 32"
  using streak_base_less [of ps] by (simp add: high_streak_record usize_Suc_le)

lemma injector_priority: "injectors_ok qs \<Longrightarrow> injector qs p = t # ts \<Longrightarrow> tk_priority t = p"
  by (simp add: injectors_ok_iff)

lemma pop_for_worker_streak:
  assumes "deque_ok dq" and ok: "injectors_ok qs" and le: "high_streak ps \<le> 32"
    and "pop_for_worker dq me qs ss st ps = (r, qs', ss', st', ps')"
  shows "high_streak ps' \<le> 32"
  using assms(1,4)
proof (cases rule: pop_for_worker_outcome)
  case (Fair p t batch q' n)
  then show ?thesis using injector_priority [OF ok] by (simp add: high_streak_record)
next
  case (Retry n)
  then show ?thesis using le streak_base_less [of ps] by auto
next
  case (Empty n)
  then show ?thesis using streak_base_less [of ps] by simp
qed (simp_all add: streak_record_base)

text \<open>
  The steal state of worker \<open>me\<close> in a queue system: its own index and the number of
  deques, as \<open>worker_main\<close> sets them up.
\<close>

definition worker_view_ok :: "nat \<Rightarrow> queue_system \<Rightarrow> steal_state \<Rightarrow> bool" where
  "worker_view_ok me qs ss \<longleftrightarrow>
     me < length (q_locals qs) \<and> length (q_locals qs) \<le> 2 ^ 63 \<and>
     ss_worker_id ss = of_nat me \<and> ss_worker_count ss = queue_worker_count qs"

lemma worker_view_steal_ok:
  assumes "worker_view_ok me qs ss"
  shows "steal_state_ok ss" and "unat (ss_worker_id ss) = me"
    and "unat (ss_worker_count ss) = length (q_locals qs)"
proof -
  have len: "length (q_locals qs) < 2 ^ 64" "me < 2 ^ 64"
    using assms by (auto simp: worker_view_ok_def)
  show id: "unat (ss_worker_id ss) = me"
    using assms len by (simp add: worker_view_ok_def unat_of_nat_64)
  show cnt: "unat (ss_worker_count ss) = length (q_locals qs)"
    using assms len by (simp add: worker_view_ok_def queue_worker_count_def unat_of_nat_64)
  show "steal_state_ok ss"
    using assms id cnt by (simp add: worker_view_ok_def steal_state_ok_def word_less_nat_alt word_le_nat_alt)
qed

lemma all_deques_empty:
  assumes view: "worker_view_ok me qs ss" and own: "q_locals qs ! me = []"
    and peers: "\<And>v. v \<in> set (fst (victims ss)) \<Longrightarrow> unat v < length (q_locals qs) \<Longrightarrow>
      q_locals qs ! unat v = []"
    and i: "i < length (q_locals qs)"
  shows "q_locals qs ! i = []"
proof (cases "i = me")
  case False
  note ok = worker_view_steal_ok [OF view]
  have "i \<in> unat ` set (fst (round_robin_victims ss))"
    using victims_set_distinct(2) [OF ok(1)] ok(2,3) i False by simp
  then obtain v where "v \<in> set (fst (victims ss))" "unat v = i" by auto
  with peers i show ?thesis by blast
qed (simp add: own)

lemma queued_empty:
  assumes "\<And>p. injector qs p = []" and "\<And>i. i < length (q_locals qs) \<Longrightarrow> q_locals qs ! i = []"
  shows "queued qs = {#}"
proof -
  have "concat (q_locals qs) = []" using assms(2) by (auto simp: in_set_conv_nth)
  moreover have "q_high qs = []" "q_normal qs = []" "q_low qs = []"
    using assms(1) [of High] assms(1) [of Normal] assms(1) [of Low] by simp_all
  ultimately show ?thesis by (simp add: queued_def)
qed

section \<open>Runs of a worker's searches\<close>

text \<open>
  The results of successive searches by one worker.  Before each search the other
  threads may have changed the queues in any way, so the queues found by each
  search are given as a list; the worker's own steal state, statistics and
  fairness state are carried along.
\<close>

fun selections :: "deque_api \<Rightarrow> nat \<Rightarrow> queue_system list \<Rightarrow> steal_state \<Rightarrow> scheduler_stats \<Rightarrow>
    priority_state \<Rightarrow> pop_result list" where
  "selections dq me [] ss st ps = []"
| "selections dq me (qs # later) ss st ps =
     (case pop_for_worker dq me qs ss st ps of
        (r, qs', ss', st', ps') \<Rightarrow> r # selections dq me later ss' st' ps')"

fun selected_tasks :: "pop_result list \<Rightarrow> task list" where
  "selected_tasks [] = []"
| "selected_tasks (PopTask t # rs) = t # selected_tasks rs"
| "selected_tasks (r # rs) = selected_tasks rs"

text \<open>Counting the current run of HIGH tasks, at most 32 long, from \<open>k\<close> on.\<close>

fun bursts_ok :: "nat \<Rightarrow> task list \<Rightarrow> bool" where
  "bursts_ok k [] \<longleftrightarrow> True"
| "bursts_ok k (t # ts) \<longleftrightarrow>
     (if tk_priority t = High then k < 32 \<and> bursts_ok (Suc k) ts else bursts_ok 0 ts)"

lemma bursts_ok_drop: "bursts_ok k ts \<Longrightarrow> \<exists>j. bursts_ok j (drop n ts)"
proof (induction ts arbitrary: k n)
  case (Cons t ts)
  then show ?case by (cases n) (auto split: if_splits)
qed auto

lemma bursts_ok_take_high:
  "bursts_ok k ts \<Longrightarrow> m \<le> length ts \<Longrightarrow> (\<forall>t \<in> set (take m ts). tk_priority t = High) \<Longrightarrow>
     0 < m \<Longrightarrow> k + m \<le> 32"
proof (induction ts arbitrary: k m)
  case (Cons t ts)
  then obtain m' where m: "m = Suc m'" by (cases m) auto
  with Cons.prems have high: "tk_priority t = High" and k: "k < 32" and ok: "bursts_ok (Suc k) ts"
    by (auto split: if_splits)
  show ?case
  proof (cases m')
    case 0
    with k m show ?thesis by simp
  next
    case (Suc m'')
    with Cons.prems m ok Cons.IH [of "Suc k" m'] show ?thesis by simp
  qed
qed simp

lemma bursts_ok_window:
  assumes "bursts_ok 0 ts" and "i + 33 \<le> length ts"
  shows "\<exists>j \<in> {i ..< i + 33}. tk_priority (ts ! j) \<noteq> High"
proof (rule ccontr)
  assume none: "\<not> ?thesis"
  obtain k where k: "bursts_ok k (drop i ts)" using bursts_ok_drop [OF assms(1)] by blast
  have "\<forall>t \<in> set (take 33 (drop i ts)). tk_priority t = High"
  proof
    fix t assume "t \<in> set (take 33 (drop i ts))"
    then obtain j where "j < 33" "t = ts ! (i + j)"
      using assms(2) by (auto simp: in_set_conv_nth)
    with none show "tk_priority t = High" by auto
  qed
  from bursts_ok_take_high [OF k _ this] assms(2) show False by (simp add: le_diff_conv2)
qed

lemma selected_streak:
  assumes "deque_ok dq" and ok: "injectors_ok qs" and lower: "q_normal qs \<noteq> [] \<or> q_low qs \<noteq> []"
    and le: "high_streak ps \<le> 32"
    and pop: "pop_for_worker dq me qs ss st ps = (r, qs', ss', st', ps')"
  shows "case r of
      PopTask t \<Rightarrow> if tk_priority t = High then high_streak ps < 32 \<and> high_streak ps' = high_streak ps + 1
        else high_streak ps' = 0
    | _ \<Rightarrow> high_streak ps' = high_streak ps"
proof -
  have due: "\<not> fairness_due ps \<and> streak_base ps = ps \<and> high_streak ps < 32"
    if "lower_empty_if_due ps qs"
    using that lower streak_base_id [of ps]
    by (auto simp: lower_empty_if_due_def fairness_due_def HIGH_BURST_LIMIT_def not_le)
  from assms(1) pop show ?thesis
  proof (cases rule: pop_for_worker_outcome)
    case (Fair p t batch q' n)
    then show ?thesis using injector_priority [OF ok] by (simp add: high_streak_record)
  next
    case (Retry n)
    then show ?thesis using due by auto
  next
    case (Empty n)
    then show ?thesis using lower Empty(3) [of Normal] Empty(3) [of Low] by auto
  qed (use due in \<open>simp_all add: high_streak_record\<close>)
qed

lemma selections_bursts:
  assumes dq: "deque_ok dq"
    and "\<And>qs. qs \<in> set env \<Longrightarrow> injectors_ok qs \<and> (q_normal qs \<noteq> [] \<or> q_low qs \<noteq> [])"
    and "high_streak ps \<le> 32"
  shows "bursts_ok (unat (high_streak ps)) (selected_tasks (selections dq me env ss st ps))"
  using assms(2,3)
proof (induction env arbitrary: ss st ps)
  case (Cons qs env)
  obtain r qs' ss' st' ps' where pop: "pop_for_worker dq me qs ss st ps = (r, qs', ss', st', ps')"
    by (metis prod_cases5)
  have ok: "injectors_ok qs" and lower: "q_normal qs \<noteq> [] \<or> q_low qs \<noteq> []"
    using Cons.prems(1) [of qs] by simp_all
  have le: "high_streak ps' \<le> 32"
    by (rule pop_for_worker_streak [OF dq ok Cons.prems(2) pop])
  have later: "bursts_ok (unat (high_streak ps')) (selected_tasks (selections dq me env ss' st' ps'))"
    using Cons.prems(1) le by (intro Cons.IH) auto
  note streak = selected_streak [OF dq ok lower Cons.prems(2) pop]
  show ?case
  proof (cases r)
    case (PopTask t)
    have "unat (high_streak ps + 1) = Suc (unat (high_streak ps))" if "high_streak ps < 32"
      using that by (simp add: unat_add_64 word_less_nat_alt)
    with streak later PopTask pop show ?thesis
      by (auto simp: word_less_nat_alt split: if_splits)
  qed (use streak later pop in simp_all)
qed simp

section \<open>Properties\<close>

text \<open>Tasks and queues for the concrete instances.\<close>

definition sample_task :: "task_priority \<Rightarrow> usize \<Rightarrow> task" where
  "sample_task p fn = task_new fn 0 p None"

definition sample_queues :: queue_system where
  "sample_queues = fold (push_global half_deque)
     [sample_task Low 1, sample_task High 2, sample_task Normal 3, sample_task High 4, sample_task High 5]
     (queue_system_new 2)"

definition sample_search :: "nat \<Rightarrow> priority_state \<Rightarrow>
    pop_result \<times> queue_system \<times> steal_state \<times> scheduler_stats \<times> priority_state" where
  "sample_search me ps = pop_for_worker half_deque me sample_queues
     (steal_state_new (of_nat me) 2 RoundRobin) stats_new ps"

lemma sample_queues_ok: "injectors_ok sample_queues" "length (q_locals sample_queues) = 2"
  "q_normal sample_queues \<noteq> []" "q_locals sample_queues ! 0 = []"
  by code_simp+

text \<open>
  Property C13. A search never loses, duplicates or invents a task: the tasks queued
  before it are exactly those queued after it plus the one it hands out, the
  injectors stay sorted by priority, and no deque disappears, whatever batch sizes
  and retries the deque library chooses.
\<close>

theorem search_conserves_tasks:
  assumes "deque_ok dq" and "me < length (q_locals qs)"
    and "pop_for_worker dq me qs ss st ps = (r, qs', ss', st', ps')"
  shows "queued qs = (case r of PopTask t \<Rightarrow> add_mset t (queued qs') | _ \<Rightarrow> queued qs') \<and>
    (injectors_ok qs \<longrightarrow> injectors_ok qs') \<and> length (q_locals qs') = length (q_locals qs)"
  using pop_for_worker_sound [OF assms] by (cases r) (simp_all add: pop_sound_def)

theorem search_conserves_tasks_witness:
  "case sample_search 0 priority_state_new of (r, qs', _) \<Rightarrow>
     r = PopTask (sample_task High 2) \<and>
     queued sample_queues = add_mset (sample_task High 2) (queued qs')"
proof -
  obtain r qs' ss' st' ps' where eq: "sample_search 0 priority_state_new = (r, qs', ss', st', ps')"
    by (metis prod_cases5)
  have r: "fst (sample_search 0 priority_state_new) = PopTask (sample_task High 2)" by code_simp
  from eq have pop: "pop_for_worker half_deque 0 sample_queues
      (steal_state_new (of_nat 0) 2 RoundRobin) stats_new priority_state_new = (r, qs', ss', st', ps')"
    by (simp add: sample_search_def)
  have "0 < length (q_locals sample_queues)" by (simp add: sample_queues_ok)
  from search_conserves_tasks [OF half_deque_ok this pop] r eq show ?thesis by simp
qed

text \<open>
  Property C15. A search that finds nothing to do has looked everywhere: when it
  reports \<open>Empty\<close> (and no other thread interferes), no injector and no deque, its own
  or a peer's, holds a task.
\<close>

theorem empty_search_means_no_work:
  assumes "deque_ok dq" and "worker_view_ok me qs ss"
    and "pop_for_worker dq me qs ss st ps = (PopEmpty, qs', ss', st', ps')"
  shows "queued qs = {#}"
  using assms(1,3)
proof (cases rule: pop_for_worker_outcome)
  case (Empty n)
  show ?thesis
  proof (rule queued_empty)
    show "injector qs p = []" for p by (rule Empty(3))
    show "q_locals qs ! i = []" if "i < length (q_locals qs)" for i
      using assms(2) Empty(2,4) that by (rule all_deques_empty)
  qed
qed simp_all

theorem empty_search_means_no_work_witness:
  "fst (pop_for_worker half_deque 1 (queue_system_new 2) (steal_state_new 1 2 RoundRobin)
      stats_new priority_state_new) = PopEmpty \<and> queued (queue_system_new 2) = {#}"
proof -
  let ?pop = "pop_for_worker half_deque 1 (queue_system_new 2) (steal_state_new 1 2 RoundRobin)
      stats_new priority_state_new"
  obtain r qs' ss' st' ps' where eq: "?pop = (r, qs', ss', st', ps')" by (metis prod_cases5)
  have r: "fst ?pop = PopEmpty" by code_simp
  have view: "worker_view_ok 1 (queue_system_new 2) (steal_state_new 1 2 RoundRobin)"
    by (simp add: worker_view_ok_def queue_system_new_def steal_state_new_def queue_worker_count_def
        max_def word_le_nat_alt)
  from eq r have "?pop = (PopEmpty, qs', ss', st', ps')" by simp
  from empty_search_means_no_work [OF half_deque_ok view this] r show ?thesis by simp
qed

text \<open>
  Property C14. Which task a search takes, in the order of \<open>pop_for_worker\<close>.  When the
  fairness limit is reached and NORMAL or LOW has a task, it is the oldest of NORMAL,
  or of LOW if NORMAL is empty.  Otherwise the worker's own deque comes first: its
  front task is taken and the injectors are left alone.  Only when that deque is empty
  come the injectors: the oldest task of the most urgent non-empty one, HIGH before
  NORMAL before LOW.  Only when they are empty too is a peer robbed of its front task.
  The library may ask for a retry instead, but not in an ordinary search of a worker
  that has local tasks.
\<close>

theorem search_takes_most_urgent:
  assumes "deque_ok dq" and "injectors_ok qs"
    and "pop_for_worker dq me qs ss st ps = (r, qs', ss', st', ps')"
  shows "if fairness_due ps \<and> (q_normal qs \<noteq> [] \<or> q_low qs \<noteq> []) then
      r = PopRetry \<or> r = PopTask (hd (if q_normal qs \<noteq> [] then q_normal qs else q_low qs))
    else if r = PopRetry then fairness_due ps \<or> q_locals qs ! me = []
    else (case q_locals qs ! me of
        t # w \<Rightarrow> r = PopTask t \<and> q_locals qs' = (q_locals qs)[me := w] \<and>
          (\<forall>p. injector qs' p = injector qs p)
      | [] \<Rightarrow>
          if \<exists>p. injector qs p \<noteq> [] then
            \<exists>t. r = PopTask t \<and> injector qs (tk_priority t) \<noteq> [] \<and> t = hd (injector qs (tk_priority t)) \<and>
              (\<forall>p'. injector qs p' \<noteq> [] \<longrightarrow> p' \<le> tk_priority t)
          else r = PopEmpty \<or> (\<exists>v \<in> set (fst (victims ss)). unat v < length (q_locals qs) \<and>
              q_locals qs ! unat v \<noteq> [] \<and> r = PopTask (hd (q_locals qs ! unat v))))"
  using assms(1,3)
proof (cases rule: pop_for_worker_outcome)
  case (Fair p t batch q' n)
  then show ?thesis by (cases p) auto
next
  case (Local t w n)
  then show ?thesis by (auto simp: lower_empty_if_due_def)
next
  case (Global p t batch q' n)
  have t: "tk_priority t = p" using injector_priority [OF assms(2) Global(3)] .
  have "p' \<le> p" if "injector qs p' \<noteq> []" for p'
    using Global(4) [of p'] that by (meson not_le)
  with t Global show ?thesis by (auto simp: lower_empty_if_due_def)
next
  case (Peer v t w n)
  then show ?thesis by (auto simp: lower_empty_if_due_def intro!: bexI [of _ v])
next
  case (Retry n)
  then show ?thesis by auto
next
  case (Empty n)
  moreover from Empty(3) [of Normal] Empty(3) [of Low] have "q_normal qs = []" "q_low qs = []" by simp_all
  ultimately show ?thesis by simp
qed

theorem search_takes_most_urgent_witness:
  "\<exists>t. fst (sample_search 0 priority_state_new) = PopTask t \<and> Normal \<le> tk_priority t \<and>
     t = hd (injector sample_queues (tk_priority t))"
proof -
  obtain r qs' ss' st' ps' where eq: "sample_search 0 priority_state_new = (r, qs', ss', st', ps')"
    by (metis prod_cases5)
  have r: "fst (sample_search 0 priority_state_new) \<noteq> PopRetry" by code_simp
  from eq have pop: "pop_for_worker half_deque 0 sample_queues
      (steal_state_new (of_nat 0) 2 RoundRobin) stats_new priority_state_new = (r, qs', ss', st', ps')"
    by (simp add: sample_search_def)
  have h: "\<not> fairness_due priority_state_new" "injector sample_queues Normal \<noteq> []"
    by code_simp+
  then have "\<exists>p. injector sample_queues p \<noteq> []" by blast
  with search_takes_most_urgent [OF half_deque_ok sample_queues_ok(1) pop] h sample_queues_ok(4) eq r
  show ?thesis by auto
qed

text \<open>
  Property C12. Fairness towards the injectors: as long as a task is waiting in the
  NORMAL or LOW injector at every search, no worker ever executes more than
  \<open>HIGH_BURST_LIMIT\<close> = 32 HIGH tasks in a row, however the other threads change the
  queues between its searches: any 33 consecutive tasks it selects contain one
  of lower priority.  Work that only sits in the deque of a peer is not covered: a
  worker whose limit is reached looks at the two injectors and, finding both empty,
  starts a new burst.
\<close>

theorem high_burst_is_bounded:
  assumes "deque_ok dq"
    and "\<forall>qs \<in> set env. injectors_ok qs \<and> (q_normal qs \<noteq> [] \<or> q_low qs \<noteq> [])"
    and "tasks = selected_tasks (selections dq me env ss st priority_state_new)"
    and "i + 33 \<le> length tasks"
  shows "\<exists>j \<in> {i ..< i + 33}. tk_priority (tasks ! j) \<noteq> High"
proof (rule bursts_ok_window [OF _ assms(4)])
  show "bursts_ok 0 tasks"
    using selections_bursts [OF assms(1), of env priority_state_new me ss st] assms(2)
    by (simp add: assms(3) priority_state_new_def)
qed

theorem high_burst_is_bounded_witness:
  "\<exists>j \<in> {0 ..< 33}. tk_priority (selected_tasks (selections half_deque 0 (replicate 33 sample_queues)
      (steal_state_new 0 2 RoundRobin) stats_new priority_state_new) ! j) \<noteq> High"
proof -
  let ?tasks = "selected_tasks (selections half_deque 0 (replicate 33 sample_queues)
      (steal_state_new 0 2 RoundRobin) stats_new priority_state_new)"
  have len: "length ?tasks = 33" by code_simp
  have env: "\<forall>qs \<in> set (replicate 33 sample_queues). injectors_ok qs \<and> (q_normal qs \<noteq> [] \<or> q_low qs \<noteq> [])"
    by (simp add: sample_queues_ok)
  show ?thesis using high_burst_is_bounded [OF half_deque_ok env refl, of 0] len by simp
qed

end
