(* ===== verification/Topology.thy ===== *)
theory Topology
  imports Prelude
begin

text \<open>
  CPU topology, \<^verbatim>\<open>src/src/topology.rs\<close>.  What the operating system answers is a
  parameter: \<open>parallelism\<close> is the result of \<open>thread::available_parallelism\<close> (\<open>None\<close> for
  an error), and \<open>set_affinity\<close> the result code of \<open>pthread_setaffinity_np\<close> for the
  set that contains one CPU.
\<close>

section \<open>Detection and assignment\<close>

record cpu_info =
  logical_id :: usize

record topology =
  cpus :: "cpu_info list"

definition detect :: "usize option \<Rightarrow> topology" where
  "detect parallelism =
     (let count = (case parallelism of Some value \<Rightarrow> value | None \<Rightarrow> 1)
      in \<lparr>cpus = map (\<lambda>k. \<lparr>logical_id = of_nat k\<rparr>) [0..<unat count]\<rparr>)"

definition cpu_count :: "topology \<Rightarrow> usize" where
  "cpu_count tp = of_nat (length (cpus tp))"

definition topology_cpus :: "topology \<Rightarrow> cpu_info list" where
  "topology_cpus tp = cpus tp"

definition cpu_logical_id :: "cpu_info \<Rightarrow> usize" where
  "cpu_logical_id cpu = logical_id cpu"

definition cpu_for_worker :: "topology \<Rightarrow> usize \<Rightarrow> cpu_info option" where
  "cpu_for_worker tp worker_id =
     (if cpus tp = [] then None
      else Some (cpus tp ! (unat worker_id mod length (cpus tp))))"

text \<open>The error is the raw operating-system code.\<close>

definition pin_current_thread :: "(usize \<Rightarrow> i32) \<Rightarrow> cpu_info \<Rightarrow> i32 + unit" where
  "pin_current_thread set_affinity cpu =
     (let result = set_affinity (logical_id cpu)
      in if result \<noteq> 0 then Inl result else Inr ())"

section \<open>Lemmas\<close>

lemma length_detect_cpus:
  "length (cpus (detect par)) = unat (case par of Some n \<Rightarrow> n | None \<Rightarrow> 1)"
  by (simp add: detect_def Let_def)

lemma cpu_count_detect: "cpu_count (detect par) = (case par of Some n \<Rightarrow> n | None \<Rightarrow> 1)"
  by (simp add: cpu_count_def length_detect_cpus)

lemma card_residue_class:
  assumes "(c::nat) < n"
  shows "card {w. w < k \<and> w mod n = c} = k div n + (if c < k mod n then 1 else 0)"
proof (induction k)
  case 0
  then show ?case by simp
next
  case (Suc k)
  have split: "{w. w < Suc k \<and> w mod n = c} =
      (if k mod n = c then insert k {w. w < k \<and> w mod n = c} else {w. w < k \<and> w mod n = c})"
    by (auto simp: less_Suc_eq)
  have n: "0 < n" using assms by simp
  show ?case
  proof (cases "Suc (k mod n) = n")
    case True
    then have "Suc k mod n = 0" "Suc k div n = Suc (k div n)" by (simp_all add: mod_Suc div_Suc)
    moreover from True assms have "k mod n = c \<or> c < k mod n" by linarith
    ultimately show ?thesis using Suc split by auto
  next
    case False
    then have "Suc k mod n = Suc (k mod n)" "Suc k div n = k div n" by (simp_all add: mod_Suc div_Suc)
    then show ?thesis using Suc split by auto
  qed
qed

section \<open>Properties\<close>

text \<open>
  Property C40. Workers are spread evenly over the detected CPUs: every worker gets a
  CPU, and of the first \<open>k\<close> workers each CPU gets \<open>k div n\<close> or one more, where \<open>n\<close> is the
  number of CPUs the system reports (one when it reports an error).
\<close>

theorem workers_spread_evenly:
  assumes "k \<le> 2 ^ 64" and "c < length (cpus (detect parallelism))"
  shows "card {w. w < k \<and> cpu_for_worker (detect parallelism) (of_nat w) = Some (cpus (detect parallelism) ! c)}
    = k div length (cpus (detect parallelism)) +
      (if c < k mod length (cpus (detect parallelism)) then 1 else 0)"
proof -
  let ?tp = "detect parallelism" let ?n = "length (cpus ?tp)"
  have inj: "cpus ?tp ! i = cpus ?tp ! c \<longleftrightarrow> i = c" if "i < ?n" for i
  proof -
    have "i < 2 ^ 64" "c < 2 ^ 64"
      using that assms(2) unat_bound_64 [of "case parallelism of Some n \<Rightarrow> n | None \<Rightarrow> 1"]
      by (auto simp: length_detect_cpus)
    then have "unat (of_nat i :: usize) = i" "unat (of_nat c :: usize) = c"
      by (simp_all add: unat_of_nat_64)
    moreover have "cpus ?tp ! i = \<lparr>logical_id = of_nat i\<rparr>" "cpus ?tp ! c = \<lparr>logical_id = of_nat c\<rparr>"
      using that assms(2) by (simp_all add: detect_def Let_def)
    ultimately show ?thesis by (metis cpu_info.simps(1))
  qed
  have "cpu_for_worker ?tp (of_nat w) = Some (cpus ?tp ! c) \<longleftrightarrow> w mod ?n = c" if "w < k" for w
  proof -
    have "unat (of_nat w :: usize) = w" using that assms(1) by (intro unat_of_nat_64) simp
    moreover have "cpus ?tp \<noteq> []" using assms(2) by auto
    ultimately show ?thesis using inj [of "w mod ?n"] by (simp add: cpu_for_worker_def)
  qed
  then have "{w. w < k \<and> cpu_for_worker ?tp (of_nat w) = Some (cpus ?tp ! c)} = {w. w < k \<and> w mod ?n = c}"
    by auto
  then show ?thesis using card_residue_class [OF assms(2)] by simp
qed

theorem workers_spread_evenly_witness:
  "card {w. w < 5 \<and> cpu_for_worker (detect (Some 2)) (of_nat w) = Some (cpus (detect (Some 2)) ! 0)} = 3"
  using workers_spread_evenly [of 5 0 "Some 2"] by (simp add: length_detect_cpus)

end
