(* ===== verification/Worker.thy ===== *)
theory Worker
  imports Group Queue
begin

text \<open>
  The state shared by the workers and the worker loop, \<^verbatim>\<open>src/src/worker.rs\<close>.  The
  operations of \<open>WorkerShared\<close> and \<open>execute_task\<close> are given as functions that run
  without interference; \<open>worker_main\<close> blocks and interleaves with other threads, so
  it is a machine (\<open>worker_step\<close>) that performs one atomic action on shared state
  per step.
\<close>

section \<open>Shared state\<close>

record worker_shared =
  ws_queues :: queue_system
  ws_tasks_in_flight :: usize
  ws_sleeping_workers :: usize
  ws_shutdown :: bool
  ws_sleep_lock :: mutex
  ws_wake :: condvar
  ws_stats :: scheduler_stats

definition worker_shared_new :: "queue_system \<Rightarrow> worker_shared" where
  "worker_shared_new queues =
     \<lparr>ws_queues = queues, ws_tasks_in_flight = 0, ws_sleeping_workers = 0, ws_shutdown = False,
      ws_sleep_lock = None, ws_wake = condvar_new, ws_stats = stats_new\<rparr>"

text \<open>
  The heap the threads share: the state behind \<open>Arc<WorkerShared>\<close>, the task groups
  behind their \<open>Arc<TaskGroup>\<close>s, and the calls of task functions made so far,
  oldest first.
\<close>

record world =
  shared :: worker_shared
  groups :: "gid \<Rightarrow> task_group"
  calls :: "(task_fn \<times> usize) list"

text \<open>The atomic actions on the shared state.\<close>

definition in_flight_fetch_add :: "worker_shared \<Rightarrow> worker_shared" where
  "in_flight_fetch_add ws = ws\<lparr>ws_tasks_in_flight := ws_tasks_in_flight ws + 1\<rparr>"

definition in_flight_fetch_sub :: "worker_shared \<Rightarrow> usize \<times> worker_shared" where
  "in_flight_fetch_sub ws =
     (ws_tasks_in_flight ws, ws\<lparr>ws_tasks_in_flight := ws_tasks_in_flight ws - 1\<rparr>)"

definition sleeping_fetch_add :: "worker_shared \<Rightarrow> worker_shared" where
  "sleeping_fetch_add ws = ws\<lparr>ws_sleeping_workers := ws_sleeping_workers ws + 1\<rparr>"

definition sleeping_fetch_sub :: "worker_shared \<Rightarrow> worker_shared" where
  "sleeping_fetch_sub ws = ws\<lparr>ws_sleeping_workers := ws_sleeping_workers ws - 1\<rparr>"

definition shared_notify_all :: "sync_api \<Rightarrow> worker_shared \<Rightarrow> worker_shared" where
  "shared_notify_all sy ws = ws\<lparr>ws_wake := notify_all sy (ws_wake ws)\<rparr>"

definition shared_notify_one :: "sync_api \<Rightarrow> worker_shared \<Rightarrow> worker_shared" where
  "shared_notify_one sy ws = ws\<lparr>ws_wake := notify_one sy (ws_wake ws)\<rparr>"

definition store_shutdown :: "worker_shared \<Rightarrow> worker_shared" where
  "store_shutdown ws = ws\<lparr>ws_shutdown := True\<rparr>"

text \<open>The methods of \<open>WorkerShared\<close>.\<close>

definition shared_task_completed :: "sync_api \<Rightarrow> worker_shared \<Rightarrow> worker_shared" where
  "shared_task_completed sy ws =
     (let ws = ws\<lparr>ws_stats := record_completion (ws_stats ws)\<rparr>;
          (previous, ws) = in_flight_fetch_sub ws
      in if previous = 1 then shared_notify_all sy ws else ws)"

definition should_stop :: "worker_shared \<Rightarrow> bool" where
  "should_stop ws \<longleftrightarrow> ws_shutdown ws \<and> ws_tasks_in_flight ws = 0"

definition begin_shutdown :: "sync_api \<Rightarrow> worker_shared \<Rightarrow> worker_shared" where
  "begin_shutdown sy ws = shared_notify_all sy (store_shutdown ws)"

definition wake_one :: "sync_api \<Rightarrow> worker_shared \<Rightarrow> worker_shared" where
  "wake_one sy ws = (if ws_sleeping_workers ws \<noteq> 0 then shared_notify_one sy ws else ws)"

definition wake_all :: "sync_api \<Rightarrow> worker_shared \<Rightarrow> worker_shared" where
  "wake_all sy ws = shared_notify_all sy ws"

text \<open>Executing a task: the call, the scheduler's accounting, then the group's.\<close>

definition execute_task :: "sync_api \<Rightarrow> task \<Rightarrow> world \<Rightarrow> world" where
  "execute_task sy t w =
     (let (group, t) = take_group t;
          w = w\<lparr>calls := calls w @ [task_execute t]\<rparr>;
          w = w\<lparr>shared := shared_task_completed sy (shared w)\<rparr>
      in case group of
           None \<Rightarrow> w
         | Some g \<Rightarrow> w\<lparr>groups := (groups w)(g := group_task_completed sy (groups w g))\<rparr>)"

section \<open>One action of a search\<close>

text \<open>
  The points of \<open>pop_for_worker\<close> between its accesses to shared queues, and the
  action taken at each.  A search ends with a result (\<open>Inr\<close>) or goes on (\<open>Inl\<close>).
  The statistics recorded around a steal belong to the action of the steal.
\<close>

datatype pop_pc =
    PStart | PFairNormal | PFairLow | PLocal | PHigh | PNormal | PLow | PVictims
  | PSteal "usize list"

type_synonym search_state = "queue_system \<times> steal_state \<times> scheduler_stats \<times> priority_state"

definition probe ::
  "deque_api \<Rightarrow> nat \<Rightarrow> task_priority \<Rightarrow> (priority_state \<Rightarrow> priority_state) \<Rightarrow> pop_pc \<Rightarrow> search_state \<Rightarrow>
     (pop_pc + pop_result) \<times> search_state" where
  "probe dq me p f next_pc s =
     (case s of (qs, ss, st, ps) \<Rightarrow>
       (case try_priority_queue dq me p qs ps of
          (Some r, qs', ps') \<Rightarrow> (Inr r, qs', ss, st, ps')
        | (None, qs', ps') \<Rightarrow> (Inl next_pc, qs', ss, st, f ps')))"

fun pop_step :: "deque_api \<Rightarrow> nat \<Rightarrow> pop_pc \<Rightarrow> search_state \<Rightarrow> (pop_pc + pop_result) \<times> search_state" where
  "pop_step dq me PStart (qs, ss, st, ps) =
     (if fairness_due ps then (Inl PFairNormal, qs, ss, record_fairness_yield st, ps)
      else (Inl PLocal, qs, ss, st, ps))"
| "pop_step dq me PFairNormal s = probe dq me Normal (\<lambda>ps. ps) PFairLow s"
| "pop_step dq me PFairLow s = probe dq me Low reset_streak PLocal s"
| "pop_step dq me PLocal (qs, ss, st, ps) =
     (case local_pop dq me qs of
        (Some t, qs') \<Rightarrow> (Inr (PopTask t), qs', ss, st, record_task ps t)
      | (None, qs') \<Rightarrow> (Inl PHigh, qs', ss, st, ps))"
| "pop_step dq me PHigh s = probe dq me High (\<lambda>ps. ps) PNormal s"
| "pop_step dq me PNormal s = probe dq me Normal (\<lambda>ps. ps) PLow s"
| "pop_step dq me PLow s = probe dq me Low (\<lambda>ps. ps) PVictims s"
| "pop_step dq me PVictims (qs, ss, st, ps) =
     (let (vs, ss') = victims ss in (Inl (PSteal vs), qs, ss', st, ps))"
| "pop_step dq me (PSteal []) s = (Inr PopEmpty, s)"
| "pop_step dq me (PSteal (victim # vs)) (qs, ss, st, ps) =
     (if unat victim < length (q_locals qs) then
        let st = record_steal_attempt st in
        (case peer_steal dq (unat victim) qs of
           (Success t, qs') \<Rightarrow> (Inr (PopTask t), qs', ss, record_steal_success st, record_task ps t)
         | (StealRetry, qs') \<Rightarrow> (Inr PopRetry, qs', ss, st, ps)
         | (StealEmpty, qs') \<Rightarrow> (Inl (PSteal vs), qs', ss, record_steal_failure st, ps))
      else (Inl (PSteal vs), qs, ss, st, ps))"

section \<open>The worker loop\<close>

text \<open>
  \<open>worker_main\<close> searches up to three times per round: without the sleep mutex
  (\<open>Fast\<close>), holding it (\<open>Locked\<close>), and holding it with the worker published as
  sleeping (\<open>Published\<close>).  \<open>after\<close> says what follows once a round is left: execute the
  task found, start the next round, or leave the loop.
\<close>

datatype phase = Fast | Locked | Published

datatype after = AExec task | ANext | ABreak

datatype worker_pc =
    WPop phase pop_pc
  | WReadShutdown phase
  | WReadInFlight phase
  | WAcquire
  | WPublish
  | WSleep
  | WBlockedOn
  | WUnpublish after
  | WRelease after
  | WExec task
  | WRunning task
  | WRecord "gid option"
  | WDecrement "gid option"
  | WNotifyIdle "gid option"
  | WGroupDecrement gid
  | WGroupNotify gid
  | WDone

record worker =
  wk_pc :: worker_pc
  wk_steal :: steal_state
  wk_priority :: priority_state

text \<open>A worker at the start of \<open>worker_main\<close>.\<close>

definition worker_start :: "usize \<Rightarrow> usize \<Rightarrow> worker" where
  "worker_start worker_id worker_count =
     \<lparr>wk_pc = WPop Fast PStart, wk_steal = steal_state_new worker_id worker_count RoundRobin,
      wk_priority = priority_state_new\<rparr>"

fun follow :: "after \<Rightarrow> worker_pc" where
  "follow (AExec t) = WExec t"
| "follow ANext = WPop Fast PStart"
| "follow ABreak = WDone"

text \<open>Leaving a round: undo the publication, then drop the guard, as far as they were made.\<close>

fun leave :: "phase \<Rightarrow> after \<Rightarrow> worker_pc" where
  "leave Fast a = follow a"
| "leave Locked a = WRelease a"
| "leave Published a = WUnpublish a"

text \<open>What follows a search that found nothing and a scheduler that is not stopping.\<close>

fun proceed :: "phase \<Rightarrow> worker_pc" where
  "proceed Fast = WAcquire"
| "proceed Locked = WPublish"
| "proceed Published = WSleep"

fun after_search :: "phase \<Rightarrow> pop_result \<Rightarrow> worker_pc" where
  "after_search ph (PopTask t) = leave ph (AExec t)"
| "after_search ph PopRetry = leave ph ANext"
| "after_search ph PopEmpty = WReadShutdown ph"

definition group_or_next :: "gid option \<Rightarrow> worker_pc" where
  "group_or_next g = (case g of None \<Rightarrow> WPop Fast PStart | Some g \<Rightarrow> WGroupDecrement g)"

text \<open>One atomic action of worker \<open>me\<close>; \<open>None\<close> means that it is blocked or has terminated.\<close>

fun worker_action :: "deque_api \<Rightarrow> sync_api \<Rightarrow> nat \<Rightarrow> worker \<Rightarrow> worker_pc \<Rightarrow> world \<Rightarrow> (worker \<times> world) option" where
  "worker_action dq sy me wk (WPop ph pc) w =
     (case pop_step dq me pc
        (ws_queues (shared w), wk_steal wk, ws_stats (shared w), wk_priority wk) of
        (res, qs, ss, st, ps) \<Rightarrow>
          Some (wk\<lparr>wk_pc := (case res of Inl pc' \<Rightarrow> WPop ph pc' | Inr r \<Rightarrow> after_search ph r),
                   wk_steal := ss, wk_priority := ps\<rparr>,
                w\<lparr>shared := (shared w)\<lparr>ws_queues := qs, ws_stats := st\<rparr>\<rparr>))"
| "worker_action dq sy me wk (WReadShutdown ph) w =
     Some (wk\<lparr>wk_pc := (if ws_shutdown (shared w) then WReadInFlight ph else proceed ph)\<rparr>, w)"
| "worker_action dq sy me wk (WReadInFlight ph) w =
     Some (wk\<lparr>wk_pc := (if ws_tasks_in_flight (shared w) = 0 then leave ph ABreak else proceed ph)\<rparr>, w)"
| "worker_action dq sy me wk WAcquire w =
     map_option (\<lambda>m. (wk\<lparr>wk_pc := WPop Locked PStart\<rparr>, w\<lparr>shared := (shared w)\<lparr>ws_sleep_lock := m\<rparr>\<rparr>))
       (mutex_lock sy (WorkerThread me) (ws_sleep_lock (shared w)))"
| "worker_action dq sy me wk WPublish w =
     Some (wk\<lparr>wk_pc := WPop Published PStart\<rparr>, w\<lparr>shared := sleeping_fetch_add (shared w)\<rparr>)"
| "worker_action dq sy me wk WSleep w =
     Some (wk\<lparr>wk_pc := WBlockedOn\<rparr>,
       w\<lparr>shared := (shared w)\<lparr>ws_sleep_lock := mutex_unlock sy (ws_sleep_lock (shared w)),
           ws_wake := (ws_wake (shared w))\<lparr>cv_waiting := cv_waiting (ws_wake (shared w)) @ [WorkerThread me]\<rparr>\<rparr>\<rparr>)"
| "worker_action dq sy me wk WBlockedOn w =
     (if WorkerThread me \<in> set (cv_waiting (ws_wake (shared w))) then None
      else map_option (\<lambda>m. (wk\<lparr>wk_pc := WUnpublish ANext\<rparr>, w\<lparr>shared := (shared w)\<lparr>ws_sleep_lock := m\<rparr>\<rparr>))
        (mutex_lock sy (WorkerThread me) (ws_sleep_lock (shared w))))"
| "worker_action dq sy me wk (WUnpublish a) w =
     Some (wk\<lparr>wk_pc := WRelease a\<rparr>, w\<lparr>shared := sleeping_fetch_sub (shared w)\<rparr>)"
| "worker_action dq sy me wk (WRelease a) w =
     Some (wk\<lparr>wk_pc := follow a\<rparr>,
       w\<lparr>shared := (shared w)\<lparr>ws_sleep_lock := mutex_unlock sy (ws_sleep_lock (shared w))\<rparr>\<rparr>)"
| "worker_action dq sy me wk (WExec t) w =
     Some (wk\<lparr>wk_pc := WRunning t\<rparr>, w\<lparr>calls := calls w @ [task_execute (snd (take_group t))]\<rparr>)"
| "worker_action dq sy me wk (WRunning t) w =
     Some (wk\<lparr>wk_pc := WRecord (fst (take_group t))\<rparr>, w)"
| "worker_action dq sy me wk (WRecord g) w =
     Some (wk\<lparr>wk_pc := WDecrement g\<rparr>,
       w\<lparr>shared := (shared w)\<lparr>ws_stats := record_completion (ws_stats (shared w))\<rparr>\<rparr>)"
| "worker_action dq sy me wk (WDecrement g) w =
     (let (previous, ws) = in_flight_fetch_sub (shared w)
      in Some (wk\<lparr>wk_pc := (if previous = 1 then WNotifyIdle g else group_or_next g)\<rparr>, w\<lparr>shared := ws\<rparr>))"
| "worker_action dq sy me wk (WNotifyIdle g) w =
     Some (wk\<lparr>wk_pc := group_or_next g\<rparr>, w\<lparr>shared := shared_notify_all sy (shared w)\<rparr>)"
| "worker_action dq sy me wk (WGroupDecrement g) w =
     (let (previous, tg) = group_fetch_sub (groups w g)
      in Some (wk\<lparr>wk_pc := (if previous = 1 then WGroupNotify g else WPop Fast PStart)\<rparr>,
               w\<lparr>groups := (groups w)(g := tg)\<rparr>))"
| "worker_action dq sy me wk (WGroupNotify g) w =
     Some (wk\<lparr>wk_pc := WPop Fast PStart\<rparr>,
       w\<lparr>groups := (groups w)(g := group_notify_all sy (groups w g))\<rparr>)"
| "worker_action dq sy me wk WDone w = None"

definition worker_step :: "deque_api \<Rightarrow> sync_api \<Rightarrow> nat \<Rightarrow> worker \<Rightarrow> world \<Rightarrow> (worker \<times> world) option" where
  "worker_step dq sy me wk w = worker_action dq sy me wk (wk_pc wk) w"

section \<open>What the actions of a search do\<close>

definition search_result :: "pop_pc + pop_result \<Rightarrow> pop_result" where
  "search_result res = (case res of Inl _ \<Rightarrow> PopEmpty | Inr r \<Rightarrow> r)"

lemma search_result_simps [simp]: "search_result (Inl pc) = PopEmpty" "search_result (Inr r) = r"
  by (simp_all add: search_result_def)

lemma try_priority_queue_sound:
  assumes "deque_ok dq" and "me < length (q_locals qs)"
    and "try_priority_queue dq me p qs ps = (r, qs', ps')"
  shows "pop_sound qs (case r of None \<Rightarrow> PopEmpty | Some x \<Rightarrow> x) qs'"
  using assms(1)
  by (cases rule: try_priority_queue_cases [where qs = qs and p = p and me = me and ps = ps])
    (use assms(2,3) in \<open>auto intro: pop_sound_batch\<close>)

lemma probe_sound:
  assumes "deque_ok dq" and "me < length (q_locals qs)"
    and "probe dq me p f pc (qs, ss, st, ps) = (res, qs', ss', st', ps')"
  shows "pop_sound qs (search_result res) qs' \<and> ss' = ss \<and> st' = st"
proof -
  obtain r q p' where eq: "try_priority_queue dq me p qs ps = (r, q, p')" by (metis prod_cases3)
  from try_priority_queue_sound [OF assms(1,2) eq] eq assms(3) show ?thesis
    by (auto simp: probe_def split: option.splits)
qed

lemma local_pop_sound:
  assumes "deque_ok dq" and "me < length (q_locals qs)" and "local_pop dq me qs = (r, qs')"
  shows "pop_sound qs (case r of None \<Rightarrow> PopEmpty | Some t \<Rightarrow> PopTask t) qs'"
  using assms(1)
  by (cases rule: local_pop_cases [where qs = qs and me = me])
    (use assms(2,3) in \<open>auto intro: pop_sound_take\<close>)

lemma peer_steal_sound:
  assumes "deque_ok dq" and "v < length (q_locals qs)" and "peer_steal dq v qs = (r, qs')"
  shows "pop_sound qs (case r of Success t \<Rightarrow> PopTask t | _ \<Rightarrow> PopEmpty) qs'"
  using assms(1)
  by (cases rule: peer_steal_cases [where qs = qs and v = v])
    (use assms(2,3) in \<open>auto intro: pop_sound_take\<close>)

lemma pop_sound_refl [simp]: "handed_out r = {#} \<Longrightarrow> pop_sound qs r qs"
  by (simp add: pop_sound_def)

lemma pop_step_sound:
  assumes "deque_ok dq" and "me < length (q_locals qs)"
    and "pop_step dq me pc (qs, ss, st, ps) = (res, qs', ss', st', ps')"
  shows "pop_sound qs (search_result res) qs' \<and>
    ss_worker_id ss' = ss_worker_id ss \<and> ss_worker_count ss' = ss_worker_count ss"
proof (cases pc)
  case PLocal
  then show ?thesis
    using assms local_pop_sound [OF assms(1,2)]
    by (fastforce split: prod.splits option.splits)
next
  case PVictims
  then show ?thesis
    using assms(3) round_robin_victims_frame [of ss] by (auto split: prod.splits)
next
  case (PSteal vs)
  show ?thesis
  proof (cases vs)
    case (Cons v vs')
    have retry: "pop_sound qs PopRetry q" if "pop_sound qs PopEmpty q" for q
      using that by (simp add: pop_sound_def)
    show ?thesis
      using assms(3) PSteal Cons peer_steal_sound [OF assms(1), of "unat v" qs] retry
      by (auto simp: Let_def split: if_splits prod.splits steal.splits)
  qed (use assms(3) PSteal in auto)
qed (use assms(3) in \<open>auto split: if_splits dest: probe_sound [OF assms(1,2)]\<close>)

end
