(* ===== verification/Scheduler.thy ===== *)
theory Scheduler
  imports Worker Topology
begin

text \<open>
  The scheduler core, \<^verbatim>\<open>src/src/scheduler.rs\<close>: configuration, construction, task
  submission with its capacity check and roll-backs, waiting and shutdown.
  Submission is given twice: as the function \<open>push_internal\<close>, which runs without
  interference, and as the machine \<open>push_step\<close>, which performs one atomic action per
  step and is what the interleaved system runs.  Construction and the joining of the
  workers depend on what the worker threads do meanwhile, so they are run under a
  schedule of the threads.
\<close>

section \<open>Errors and configuration\<close>

datatype scheduler_error = WorkerCreationFailed | SchedulerStopped | QueueFull | InternalError

fun scheduler_error_message :: "scheduler_error \<Rightarrow> string" where
  "scheduler_error_message WorkerCreationFailed = ''failed to create scheduler worker''"
| "scheduler_error_message SchedulerStopped = ''scheduler has stopped''"
| "scheduler_error_message QueueFull = ''scheduler queue is full''"
| "scheduler_error_message InternalError = ''internal scheduler error''"

record scheduler_config =
  cfg_worker_count :: usize
  cfg_pin_workers :: bool
  cfg_queue_capacity :: usize

definition config_automatic :: scheduler_config where
  "config_automatic = \<lparr>cfg_worker_count = 0, cfg_pin_workers = True, cfg_queue_capacity = 0\<rparr>"

definition config_default :: scheduler_config where
  "config_default = config_automatic"

section \<open>Worker threads\<close>

text \<open>
  A worker thread: its name, the CPU it tries to pin itself to before it enters
  \<open>worker_main\<close>, and where it is in \<open>worker_main\<close>.
\<close>

record spawned =
  sp_name :: string
  sp_cpu :: "cpu_info option"
  sp_worker :: worker

text \<open>One action of the \<open>i\<close>-th of some threads; \<open>None\<close> if it is blocked, terminated or not there.\<close>

definition threads_step :: "deque_api \<Rightarrow> sync_api \<Rightarrow> nat \<Rightarrow> spawned list \<times> world \<Rightarrow>
    (spawned list \<times> world) option" where
  "threads_step dq sy i s =
     (case s of (ts, w) \<Rightarrow>
        if i < length ts then
          map_option (\<lambda>(wk, w'). (ts[i := (ts ! i)\<lparr>sp_worker := wk\<rparr>], w'))
            (worker_step dq sy i (sp_worker (ts ! i)) w)
        else None)"

definition terminated :: "spawned \<Rightarrow> bool" where
  "terminated t \<longleftrightarrow> wk_pc (sp_worker t) = WDone"

text \<open>
  Joining the workers while they act in the order of a schedule, in which a thread that
  cannot act is passed over.  \<open>None\<close> says that some thread has not terminated by the end
  of the schedule.
\<close>

fun threads_run :: "deque_api \<Rightarrow> sync_api \<Rightarrow> nat list \<Rightarrow> spawned list \<times> world \<Rightarrow> spawned list \<times> world" where
  "threads_run dq sy [] s = s"
| "threads_run dq sy (i # schedule) s =
     threads_run dq sy schedule (case threads_step dq sy i s of None \<Rightarrow> s | Some s' \<Rightarrow> s')"

definition join_workers :: "deque_api \<Rightarrow> sync_api \<Rightarrow> nat list \<Rightarrow> spawned list \<Rightarrow> world \<Rightarrow> world option" where
  "join_workers dq sy schedule workers w =
     (case threads_run dq sy schedule (workers, w) of
        (ts, w') \<Rightarrow> if list_all terminated ts then Some w' else None)"

section \<open>Construction\<close>

record scheduler =
  sc_workers :: "spawned list"
  sc_worker_count :: usize
  sc_topology :: topology
  sc_pin_workers :: bool
  sc_queue_capacity :: usize

text \<open>Decimal notation, as \<open>format!\<close> prints an unsigned number.\<close>

fun decimal :: "nat \<Rightarrow> string" where
  "decimal n = (if n < 10 then [char_of (48 + n)] else decimal (n div 10) @ [char_of (48 + n mod 10)])"

declare decimal.simps [simp del]

definition worker_name :: "nat \<Rightarrow> string" where
  "worker_name worker_id = ''cortlet-worker-'' @ decimal worker_id"

text \<open>The thread spawned for the \<open>worker_id\<close>-th local queue.\<close>

definition spawn_worker :: "topology \<Rightarrow> bool \<Rightarrow> usize \<Rightarrow> nat \<Rightarrow> spawned" where
  "spawn_worker tp pin deques worker_id =
     (let assigned_cpu = (if pin then cpu_for_worker tp (of_nat worker_id) else None)
      in \<lparr>sp_name = worker_name worker_id, sp_cpu = assigned_cpu,
          sp_worker = worker_start (of_nat worker_id) deques\<rparr>)"

text \<open>
  Construction is a machine as well, because the threads already spawned run while the
  next ones are spawned, and because on a failed spawn the creating thread requests
  shutdown and joins them: it can block, and what it waits for is what they do.  Its
  points are the head of the spawn loop, the two actions of \<open>begin_shutdown\<close>, the
  \<open>k\<close>-th join and the return.
\<close>

datatype create_pc =
    CrSpawn nat | CrStore | CrNotify | CrJoin nat | CrReturn "scheduler_error + unit"

record creation =
  cr_pc :: create_pc
  cr_workers :: "spawned list"
  cr_world :: world

datatype create_label = Creator | Started nat

fun creator_step :: "sync_api \<Rightarrow> (nat \<Rightarrow> bool) \<Rightarrow> topology \<Rightarrow> bool \<Rightarrow> create_pc \<Rightarrow> creation \<Rightarrow> creation option" where
  "creator_step sy spawn_ok tp pin (CrSpawn worker_id) x =
     (if worker_id < length (q_locals (ws_queues (shared (cr_world x)))) then
        if spawn_ok worker_id then
          Some (x\<lparr>cr_pc := CrSpawn (Suc worker_id),
                  cr_workers := cr_workers x @
                    [spawn_worker tp pin (queue_worker_count (ws_queues (shared (cr_world x)))) worker_id]\<rparr>)
        else Some (x\<lparr>cr_pc := CrStore\<rparr>)
      else Some (x\<lparr>cr_pc := CrReturn (Inr ())\<rparr>))"
| "creator_step sy spawn_ok tp pin CrStore x =
     Some (x\<lparr>cr_pc := CrNotify,
             cr_world := (cr_world x)\<lparr>shared := store_shutdown (shared (cr_world x))\<rparr>\<rparr>)"
| "creator_step sy spawn_ok tp pin CrNotify x =
     Some (x\<lparr>cr_pc := CrJoin 0,
             cr_world := (cr_world x)\<lparr>shared := shared_notify_all sy (shared (cr_world x))\<rparr>\<rparr>)"
| "creator_step sy spawn_ok tp pin (CrJoin k) x =
     (if k < length (cr_workers x) then
        if terminated (cr_workers x ! k) then Some (x\<lparr>cr_pc := CrJoin (Suc k)\<rparr>) else None
      else Some (x\<lparr>cr_pc := CrReturn (Inl WorkerCreationFailed)\<rparr>))"
| "creator_step sy spawn_ok tp pin (CrReturn r) x = None"

fun create_step :: "deque_api \<Rightarrow> sync_api \<Rightarrow> (nat \<Rightarrow> bool) \<Rightarrow> topology \<Rightarrow> bool \<Rightarrow> create_label \<Rightarrow> creation \<Rightarrow>
    creation option" where
  "create_step dq sy spawn_ok tp pin Creator x = creator_step sy spawn_ok tp pin (cr_pc x) x"
| "create_step dq sy spawn_ok tp pin (Started i) x =
     map_option (\<lambda>(ts, w). x\<lparr>cr_workers := ts, cr_world := w\<rparr>)
       (threads_step dq sy i (cr_workers x, cr_world x))"

text \<open>
  The machine under a schedule, up to the return of the constructor; a thread that
  cannot act is passed over.
\<close>

fun create_run :: "(create_label \<Rightarrow> creation \<Rightarrow> creation option) \<Rightarrow> create_label list \<Rightarrow> creation \<Rightarrow> creation" where
  "create_run step [] x = x"
| "create_run step (l # ls) x =
     (case cr_pc x of
        CrReturn r \<Rightarrow> x
      | _ \<Rightarrow> create_run step ls (case step l x of None \<Rightarrow> x | Some y \<Rightarrow> y))"

text \<open>
  What the operating system decides: the parallelism it reports, which allocations and
  which thread creations succeed, and the order in which threads run.
\<close>

record os_env =
  os_parallelism :: "usize option"
  os_alloc :: "usize \<Rightarrow> bool"
  os_spawn :: "nat \<Rightarrow> bool"
  os_schedule :: "create_label list"

text \<open>
  \<open>Vec::with_capacity\<close> panics when the elements, of at least one byte each, need more
  than \<open>isize::MAX\<close> bytes, and the process aborts when the allocation fails.
\<close>

definition with_capacity_ok :: "os_env \<Rightarrow> usize \<Rightarrow> bool" where
  "with_capacity_ok os n \<longleftrightarrow> unat n < 2 ^ 63 \<and> os_alloc os n"

text \<open>
  The outcomes of a call that may not return: undefined behaviour, an abort of the
  process, not having returned at the end of the schedule, or a value.
\<close>

datatype 'a outcome = Undefined | Aborts | Blocks | Returns 'a

definition creation_new :: "usize \<Rightarrow> creation" where
  "creation_new worker_count =
     \<lparr>cr_pc = CrSpawn 0, cr_workers = [],
      cr_world = \<lparr>shared = worker_shared_new (queue_system_new worker_count),
        groups = (\<lambda>_. group_new), calls = []\<rparr>\<rparr>"

text \<open>
  The result and the shared state at the return.  No task exists during construction,
  so the task groups in the world of the machine are never looked at.
\<close>

definition create :: "deque_api \<Rightarrow> sync_api \<Rightarrow> os_env \<Rightarrow> usize \<Rightarrow> topology \<Rightarrow> bool \<Rightarrow> usize \<Rightarrow>
    ((scheduler_error + scheduler) \<times> worker_shared) outcome" where
  "create dq sy os worker_count tp pin_workers queue_capacity =
     (let worker_count = max worker_count 1 in
      if \<not> with_capacity_ok os worker_count then Aborts
      else
        let x = create_run (create_step dq sy (os_spawn os) tp pin_workers) (os_schedule os)
                  (creation_new worker_count)
        in case cr_pc x of
             CrReturn (Inl e) \<Rightarrow> Returns (Inl e, shared (cr_world x))
           | CrReturn (Inr u) \<Rightarrow>
               Returns (Inr \<lparr>sc_workers = cr_workers x, sc_worker_count = worker_count, sc_topology = tp,
                  sc_pin_workers = pin_workers, sc_queue_capacity = queue_capacity\<rparr>, shared (cr_world x))
           | _ \<Rightarrow> Blocks)"

definition from_config :: "deque_api \<Rightarrow> sync_api \<Rightarrow> os_env \<Rightarrow> scheduler_config \<Rightarrow>
    ((scheduler_error + scheduler) \<times> worker_shared) outcome" where
  "from_config dq sy os config =
     (let tp = detect (os_parallelism os);
          worker_count = (if cfg_worker_count config = 0 then max (cpu_count tp) 1
                          else cfg_worker_count config)
      in create dq sy os worker_count tp (cfg_pin_workers config) (cfg_queue_capacity config))"

definition scheduler_new :: "deque_api \<Rightarrow> sync_api \<Rightarrow> os_env \<Rightarrow>
    ((scheduler_error + scheduler) \<times> worker_shared) outcome" where
  "scheduler_new dq sy os = from_config dq sy os config_automatic"

definition with_worker_count :: "deque_api \<Rightarrow> sync_api \<Rightarrow> os_env \<Rightarrow> usize \<Rightarrow>
    ((scheduler_error + scheduler) \<times> worker_shared) outcome" where
  "with_worker_count dq sy os worker_count =
     from_config dq sy os
       \<lparr>cfg_worker_count = max worker_count 1, cfg_pin_workers = True, cfg_queue_capacity = 0\<rparr>"

section \<open>Reserving a task slot\<close>

text \<open>
  \<open>compare_exchange_weak\<close> on the counter of outstanding tasks: the exchange fails
  with the value found when that differs from the expected one, and may fail
  spuriously.
\<close>

definition in_flight_cas_weak :: "bool \<Rightarrow> usize \<Rightarrow> usize \<Rightarrow> worker_shared \<Rightarrow> usize + worker_shared" where
  "in_flight_cas_weak spurious current new ws =
     (if spurious \<or> ws_tasks_in_flight ws \<noteq> current then Inl (ws_tasks_in_flight ws)
      else Inr (ws\<lparr>ws_tasks_in_flight := new\<rparr>))"

text \<open>
  The exchange loop without interference.  \<open>sp\<close> lists which attempts fail
  spuriously; attempts beyond the list do not.
\<close>

function reserve_loop :: "usize \<Rightarrow> bool list \<Rightarrow> usize \<Rightarrow> worker_shared \<Rightarrow>
    (scheduler_error + unit) \<times> worker_shared" where
  "reserve_loop capacity sp current ws =
     (if capacity \<le> current then
        (Inl QueueFull, ws\<lparr>ws_stats := record_queue_full (ws_stats ws)\<rparr>)
      else
        case in_flight_cas_weak (sp \<noteq> [] \<and> hd sp) current (current + 1) ws of
          Inr ws' \<Rightarrow> (Inr (), ws')
        | Inl actual \<Rightarrow> reserve_loop capacity (tl sp) actual ws)"
  by pat_completeness auto
termination
proof (relation "measures [\<lambda>(capacity, sp, current, ws). length sp,
    \<lambda>(capacity, sp, current, ws). if ws_tasks_in_flight ws = current then 0 else 1]")
  show "wf (measures [\<lambda>(capacity, sp, current, ws). length sp,
    \<lambda>(capacity, sp, current, ws). if ws_tasks_in_flight ws = current then 0 else 1])" by simp
  fix capacity current actual :: usize and sp :: "bool list" and ws :: worker_shared
  assume "in_flight_cas_weak (sp \<noteq> [] \<and> hd sp) current (current + 1) ws = Inl actual"
  then show "((capacity, tl sp, actual, ws), capacity, sp, current, ws)
      \<in> measures [\<lambda>(capacity, sp, current, ws). length sp,
          \<lambda>(capacity, sp, current, ws). if ws_tasks_in_flight ws = current then 0 else 1]"
    by (cases sp) (auto simp: in_flight_cas_weak_def split: if_splits)
qed

declare reserve_loop.simps [simp del]

definition reserve_task_slot :: "usize \<Rightarrow> bool list \<Rightarrow> worker_shared \<Rightarrow>
    (scheduler_error + unit) \<times> worker_shared" where
  "reserve_task_slot queue_capacity sp ws =
     (if queue_capacity = 0 then (Inr (), in_flight_fetch_add ws)
      else reserve_loop queue_capacity sp (ws_tasks_in_flight ws) ws)"

definition release_task_slot :: "worker_shared \<Rightarrow> worker_shared" where
  "release_task_slot ws = snd (in_flight_fetch_sub ws)"

section \<open>Task submission without interference\<close>

definition with_shared :: "(worker_shared \<Rightarrow> worker_shared) \<Rightarrow> world \<Rightarrow> world" where
  "with_shared f w = w\<lparr>shared := f (shared w)\<rparr>"

definition with_group :: "gid \<Rightarrow> (task_group \<Rightarrow> task_group) \<Rightarrow> world \<Rightarrow> world" where
  "with_group g f w = w\<lparr>groups := (groups w)(g := f (groups w g))\<rparr>"

text \<open>Registration with the optional group: whether it succeeded.\<close>

definition register_group :: "sync_api \<Rightarrow> gid option \<Rightarrow> world \<Rightarrow> bool \<times> world" where
  "register_group sy grp w =
     (case grp of
        None \<Rightarrow> (True, w)
      | Some g \<Rightarrow> (let (ok, tg) = add_task sy (groups w g) in (ok, with_group g (\<lambda>_. tg) w)))"

definition push_internal :: "deque_api \<Rightarrow> sync_api \<Rightarrow> bool list \<Rightarrow> scheduler \<Rightarrow>
    task_fn \<Rightarrow> usize \<Rightarrow> task_priority \<Rightarrow> gid option \<Rightarrow> world \<Rightarrow> (scheduler_error + unit) \<times> world" where
  "push_internal dq sy sp sc function argument priority grp w =
     (if ws_shutdown (shared w) then (Inl SchedulerStopped, w)
      else
        case reserve_task_slot (sc_queue_capacity sc) sp (shared w) of
          (Inl e, ws) \<Rightarrow> (Inl e, w\<lparr>shared := ws\<rparr>)
        | (Inr _, ws) \<Rightarrow>
            let w = w\<lparr>shared := ws\<rparr> in
            if ws_shutdown (shared w) then (Inl SchedulerStopped, with_shared release_task_slot w)
            else
              (case register_group sy grp w of
                (False, w) \<Rightarrow> (Inl SchedulerStopped, with_shared release_task_slot w)
              | (True, w) \<Rightarrow>
                  if ws_shutdown (shared w) then
                    let w = with_shared release_task_slot w in
                    (Inl SchedulerStopped,
                     case grp of None \<Rightarrow> w | Some g \<Rightarrow> with_group g (group_task_completed sy) w)
                  else
                    let t = task_new function argument priority grp;
                        w = with_shared (\<lambda>ws. ws\<lparr>ws_queues := push_global dq t (ws_queues ws)\<rparr>) w;
                        w = with_shared (\<lambda>ws. ws\<lparr>ws_stats := record_submission (ws_stats ws)\<rparr>) w;
                        w = with_shared (wake_one sy) w
                    in (Inr (), w)))"

text \<open>The eight public submission methods.\<close>

definition sched_push where
  "sched_push dq sy sp sc f arg w = push_internal dq sy sp sc f arg Normal None w"

definition sched_push_priority where
  "sched_push_priority dq sy sp sc f arg p w = push_internal dq sy sp sc f arg p None w"

definition sched_push_group where
  "sched_push_group dq sy sp sc f arg g w = push_internal dq sy sp sc f arg Normal (Some g) w"

definition sched_push_group_priority where
  "sched_push_group_priority dq sy sp sc f arg p g w = push_internal dq sy sp sc f arg p (Some g) w"

definition sched_try_push where
  "sched_try_push dq sy sp sc f arg w = push_internal dq sy sp sc f arg Normal None w"

definition sched_try_push_priority where
  "sched_try_push_priority dq sy sp sc f arg p w = push_internal dq sy sp sc f arg p None w"

definition sched_try_push_group where
  "sched_try_push_group dq sy sp sc f arg g w = push_internal dq sy sp sc f arg Normal (Some g) w"

definition sched_try_push_group_priority where
  "sched_try_push_group_priority dq sy sp sc f arg p g w = push_internal dq sy sp sc f arg p (Some g) w"

section \<open>Information and shutdown\<close>

definition sched_worker_count :: "scheduler \<Rightarrow> usize" where
  "sched_worker_count sc = sc_worker_count sc"

definition sched_pin_workers :: "scheduler \<Rightarrow> bool" where
  "sched_pin_workers sc = sc_pin_workers sc"

definition sched_queue_capacity :: "scheduler \<Rightarrow> usize" where
  "sched_queue_capacity sc = sc_queue_capacity sc"

definition sched_tasks_in_flight :: "world \<Rightarrow> usize" where
  "sched_tasks_in_flight w = ws_tasks_in_flight (shared w)"

definition sched_is_stopped :: "world \<Rightarrow> bool" where
  "sched_is_stopped w = ws_shutdown (shared w)"

definition sched_stats :: "world \<Rightarrow> scheduler_stats_snapshot" where
  "sched_stats w = snapshot (ws_stats (shared w))"

definition sched_outstanding_tasks :: "world \<Rightarrow> usize" where
  "sched_outstanding_tasks w = ws_tasks_in_flight (shared w)"

definition sched_sleeping_workers :: "world \<Rightarrow> usize" where
  "sched_sleeping_workers w = ws_sleeping_workers (shared w)"

definition sched_high_burst_limit :: usize where
  "sched_high_burst_limit = HIGH_BURST_LIMIT"

definition sched_shutdown :: "sync_api \<Rightarrow> world \<Rightarrow> world" where
  "sched_shutdown sy w = with_shared (begin_shutdown sy) w"

text \<open>The fields that \<open>Debug\<close> prints, in order; further fields are elided.\<close>

datatype debug_value = DebugNumber usize | DebugFlag bool

definition scheduler_debug :: "scheduler \<Rightarrow> world \<Rightarrow> string \<times> (string \<times> debug_value) list" where
  "scheduler_debug sc w =
     (''Scheduler'',
      [(''worker_count'', DebugNumber (sc_worker_count sc)),
       (''tasks_in_flight'', DebugNumber (sched_tasks_in_flight w)),
       (''shutdown'', DebugFlag (ws_shutdown (shared w))),
       (''cpu_count'', DebugNumber (cpu_count (sc_topology sc))),
       (''pin_workers'', DebugFlag (sc_pin_workers sc)),
       (''queue_capacity'', DebugNumber (sc_queue_capacity sc))])"

section \<open>Submission and waiting, one atomic action at a time\<close>

text \<open>
  The points of \<open>push_internal\<close> between its accesses to shared state.  The task is
  built at the end in the source; carrying it from the start changes nothing.
\<close>

datatype push_pc =
    QStart task
  | QReserve task
  | QExchange task usize
  | QFull
  | QCheckReserved task
  | QReleaseSlot
  | QGroupRead task gid
  | QGroupAdd task gid
  | QGroupReread task gid
  | QGroupUndo gid
  | QGroupUndoNotify gid
  | QCheckFinal task
  | QRollback "gid option"
  | QRollbackGroup gid
  | QRollbackNotify gid
  | QPublish task
  | QRecord
  | QReadSleeping
  | QNotify
  | QDone "scheduler_error + unit"

definition register_or_check :: "task \<Rightarrow> push_pc" where
  "register_or_check t = (case tk_group t of None \<Rightarrow> QCheckFinal t | Some g \<Rightarrow> QGroupRead t g)"

fun push_step :: "deque_api \<Rightarrow> sync_api \<Rightarrow> usize \<Rightarrow> bool \<Rightarrow> push_pc \<Rightarrow> world \<Rightarrow> (push_pc \<times> world) option" where
  "push_step dq sy capacity spurious (QStart t) w =
     Some (if ws_shutdown (shared w) then QDone (Inl SchedulerStopped) else QReserve t, w)"
| "push_step dq sy capacity spurious (QReserve t) w =
     Some (if capacity = 0 then (QCheckReserved t, with_shared in_flight_fetch_add w)
           else (QExchange t (ws_tasks_in_flight (shared w)), w))"
| "push_step dq sy capacity spurious (QExchange t current) w =
     Some (if capacity \<le> current then (QFull, w)
           else case in_flight_cas_weak spurious current (current + 1) (shared w) of
             Inr ws \<Rightarrow> (QCheckReserved t, w\<lparr>shared := ws\<rparr>)
           | Inl actual \<Rightarrow> (QExchange t actual, w))"
| "push_step dq sy capacity spurious QFull w =
     Some (QDone (Inl QueueFull), with_shared (\<lambda>ws. ws\<lparr>ws_stats := record_queue_full (ws_stats ws)\<rparr>) w)"
| "push_step dq sy capacity spurious (QCheckReserved t) w =
     Some (if ws_shutdown (shared w) then QReleaseSlot else register_or_check t, w)"
| "push_step dq sy capacity spurious QReleaseSlot w =
     Some (QDone (Inl SchedulerStopped), with_shared release_task_slot w)"
| "push_step dq sy capacity spurious (QGroupRead t g) w =
     Some (if grp_closed (groups w g) then QReleaseSlot else QGroupAdd t g, w)"
| "push_step dq sy capacity spurious (QGroupAdd t g) w =
     Some (QGroupReread t g, with_group g group_fetch_add w)"
| "push_step dq sy capacity spurious (QGroupReread t g) w =
     Some (if grp_closed (groups w g) then QGroupUndo g else QCheckFinal t, w)"
| "push_step dq sy capacity spurious (QGroupUndo g) w =
     (let (previous, tg) = group_fetch_sub (groups w g)
      in Some (if previous = 1 then QGroupUndoNotify g else QReleaseSlot, with_group g (\<lambda>_. tg) w))"
| "push_step dq sy capacity spurious (QGroupUndoNotify g) w =
     Some (QReleaseSlot, with_group g (group_notify_all sy) w)"
| "push_step dq sy capacity spurious (QCheckFinal t) w =
     Some (if ws_shutdown (shared w) then QRollback (tk_group t) else QPublish t, w)"
| "push_step dq sy capacity spurious (QRollback grp) w =
     Some (case grp of None \<Rightarrow> QDone (Inl SchedulerStopped) | Some g \<Rightarrow> QRollbackGroup g,
           with_shared release_task_slot w)"
| "push_step dq sy capacity spurious (QRollbackGroup g) w =
     (let (previous, tg) = group_fetch_sub (groups w g)
      in Some (if previous = 1 then QRollbackNotify g else QDone (Inl SchedulerStopped),
               with_group g (\<lambda>_. tg) w))"
| "push_step dq sy capacity spurious (QRollbackNotify g) w =
     Some (QDone (Inl SchedulerStopped), with_group g (group_notify_all sy) w)"
| "push_step dq sy capacity spurious (QPublish t) w =
     Some (QRecord, with_shared (\<lambda>ws. ws\<lparr>ws_queues := push_global dq t (ws_queues ws)\<rparr>) w)"
| "push_step dq sy capacity spurious QRecord w =
     Some (QReadSleeping, with_shared (\<lambda>ws. ws\<lparr>ws_stats := record_submission (ws_stats ws)\<rparr>) w)"
| "push_step dq sy capacity spurious QReadSleeping w =
     Some (if ws_sleeping_workers (shared w) \<noteq> 0 then QNotify else QDone (Inr ()), w)"
| "push_step dq sy capacity spurious QNotify w =
     Some (QDone (Inr ()), with_shared (shared_notify_one sy) w)"
| "push_step dq sy capacity spurious (QDone r) w = None"

text \<open>One atomic action of \<open>Scheduler::wait\<close> by thread \<open>t\<close>.\<close>

definition sched_wait_step ::
  "sync_api \<Rightarrow> tid \<Rightarrow> wait_pc \<Rightarrow> world \<Rightarrow> (wait_pc \<times> world) option" where
  "sched_wait_step sy t pc w =
     map_option (\<lambda>(pc', m, cv). (pc', with_shared (\<lambda>ws. ws\<lparr>ws_sleep_lock := m, ws_wake := cv\<rparr>) w))
       (wait_step sy t (ws_tasks_in_flight (shared w) \<noteq> 0) pc
          (ws_sleep_lock (shared w)) (ws_wake (shared w)))"

text \<open>
  \<open>Scheduler::wait\<close> by a thread that no other thread interferes with: four actions
  lead to its return, or to a state in which it is blocked (\<open>None\<close>).
\<close>

definition sched_wait :: "sync_api \<Rightarrow> tid \<Rightarrow> world \<Rightarrow> ((scheduler_error + unit) \<times> world) option" where
  "sched_wait sy t w =
     (case drive 4 (sched_wait_step sy t) WaitLock w of
        (WaitDone, w') \<Rightarrow> Some (Inr (), w')
      | _ \<Rightarrow> None)"

end
