(* ===== verification/System.thy ===== *)
theory System
  imports Scheduler
begin

text \<open>
  The running system: a fixed number of workers and of client threads that call the
  API, interleaved one atomic action at a time.  Actions are sequentially
  consistent: the memory orderings of the sources (acquire, release, relaxed) are
  not weakened further, and the task functions run for an arbitrary time and may
  call the API themselves, which is the same as some client calling it.
\<close>

section \<open>Clients\<close>

text \<open>
  The operations of the C API that touch shared state.  \<open>OpDestroy\<close> is \<open>Drop\<close> for
  \<open>Scheduler\<close>: shutdown, then joining every worker.
\<close>

datatype client_op =
    OpPush task | OpWait | OpShutdown | OpGroupWait gid | OpGroupClose gid | OpDestroy

datatype client_pc =
    CIdle
  | CPush push_pc
  | CWait wait_pc
  | CShutdownStore
  | CShutdownNotify
  | CGroupWait gid wait_pc
  | CGroupCloseStore gid
  | CGroupCloseNotify gid
  | CDestroyStore
  | CDestroyNotify
  | CJoin
  | CDestroyed

fun start_op :: "client_op \<Rightarrow> client_pc" where
  "start_op (OpPush t) = CPush (QStart t)"
| "start_op OpWait = CWait WaitLock"
| "start_op OpShutdown = CShutdownStore"
| "start_op (OpGroupWait g) = CGroupWait g WaitLock"
| "start_op (OpGroupClose g) = CGroupCloseStore g"
| "start_op OpDestroy = CDestroyStore"

text \<open>A client whose last call has returned may make another one.\<close>

fun client_free :: "client_pc \<Rightarrow> bool" where
  "client_free CIdle = True"
| "client_free (CPush (QDone r)) = True"
| "client_free (CWait WaitDone) = True"
| "client_free (CGroupWait g WaitDone) = True"
| "client_free _ = False"

text \<open>
  One atomic action of client \<open>j\<close>.  \<open>joined\<close> tells whether every worker has
  terminated, which is what \<open>join_workers\<close> waits for.
\<close>

fun client_step :: "deque_api \<Rightarrow> sync_api \<Rightarrow> usize \<Rightarrow> nat \<Rightarrow> bool \<Rightarrow> bool \<Rightarrow> client_pc \<Rightarrow> world \<Rightarrow>
    (client_pc \<times> world) option" where
  "client_step dq sy capacity j spurious joined CIdle w = None"
| "client_step dq sy capacity j spurious joined (CPush pc) w =
     map_option (\<lambda>(pc', w'). (CPush pc', w')) (push_step dq sy capacity spurious pc w)"
| "client_step dq sy capacity j spurious joined (CWait pc) w =
     map_option (\<lambda>(pc', w'). (CWait pc', w')) (sched_wait_step sy (Client j) pc w)"
| "client_step dq sy capacity j spurious joined CShutdownStore w =
     Some (CShutdownNotify, with_shared store_shutdown w)"
| "client_step dq sy capacity j spurious joined CShutdownNotify w =
     Some (CIdle, with_shared (shared_notify_all sy) w)"
| "client_step dq sy capacity j spurious joined (CGroupWait g pc) w =
     map_option (\<lambda>(pc', tg). (CGroupWait g pc', with_group g (\<lambda>_. tg) w))
       (group_wait_step sy (Client j) pc (groups w g))"
| "client_step dq sy capacity j spurious joined (CGroupCloseStore g) w =
     Some (CGroupCloseNotify g, with_group g group_store_closed w)"
| "client_step dq sy capacity j spurious joined (CGroupCloseNotify g) w =
     Some (CIdle, with_group g (group_notify_all sy) w)"
| "client_step dq sy capacity j spurious joined CDestroyStore w =
     Some (CDestroyNotify, with_shared store_shutdown w)"
| "client_step dq sy capacity j spurious joined CDestroyNotify w =
     Some (CJoin, with_shared (shared_notify_all sy) w)"
| "client_step dq sy capacity j spurious joined CJoin w =
     (if joined then Some (CDestroyed, w) else None)"
| "client_step dq sy capacity j spurious joined CDestroyed w = None"

section \<open>The interleaved system\<close>

text \<open>
  \<open>sys_published\<close> is a ghost: the tasks made visible to the workers so far, in order.
\<close>

record sys =
  sys_world :: world
  sys_workers :: "worker list"
  sys_clients :: "client_pc list"
  sys_published :: "task list"

datatype label = LWorker nat | LClient nat bool | LStart nat client_op

fun publishes :: "client_pc \<Rightarrow> task list" where
  "publishes (CPush (QPublish t)) = [t]"
| "publishes _ = []"

text \<open>
  A client may start a call when its previous one has returned.  The contract of
  \<open>cortlet_sched_destroy\<close> is that no other operation runs concurrently: it starts
  only when every client is free, and nothing starts after it.  The contract of group
  handles is not imposed: a client may still use a group that another one is closing or
  has closed, which a program whose threads share the group can do only by breaking the
  rule that a destroyed handle is dead.  What is proved of all runs therefore holds
  with and without that rule.
\<close>

fun destroying :: "client_pc \<Rightarrow> bool" where
  "destroying CDestroyStore = True"
| "destroying CDestroyNotify = True"
| "destroying CJoin = True"
| "destroying CDestroyed = True"
| "destroying _ = False"

definition may_start :: "sys \<Rightarrow> nat \<Rightarrow> client_op \<Rightarrow> bool" where
  "may_start s j op \<longleftrightarrow>
     j < length (sys_clients s) \<and> client_free (sys_clients s ! j) \<and>
     list_all (\<lambda>c. \<not> destroying c) (sys_clients s) \<and>
     (op = OpDestroy \<longrightarrow> list_all client_free (sys_clients s))"

definition all_joined :: "sys \<Rightarrow> bool" where
  "all_joined s \<longleftrightarrow> list_all (\<lambda>wk. wk_pc wk = WDone) (sys_workers s)"

fun sys_step :: "deque_api \<Rightarrow> sync_api \<Rightarrow> usize \<Rightarrow> label \<Rightarrow> sys \<Rightarrow> sys option" where
  "sys_step dq sy capacity (LWorker i) s =
     (if i < length (sys_workers s) then
        case worker_step dq sy i (sys_workers s ! i) (sys_world s) of
          None \<Rightarrow> None
        | Some (wk, w) \<Rightarrow> Some (s\<lparr>sys_world := w, sys_workers := (sys_workers s)[i := wk]\<rparr>)
      else None)"
| "sys_step dq sy capacity (LClient j spurious) s =
     (if j < length (sys_clients s) then
        case client_step dq sy capacity j spurious (all_joined s) (sys_clients s ! j) (sys_world s) of
          None \<Rightarrow> None
        | Some (pc, w) \<Rightarrow>
            Some (s\<lparr>sys_world := w, sys_clients := (sys_clients s)[j := pc],
                    sys_published := sys_published s @ publishes (sys_clients s ! j)\<rparr>)
      else None)"
| "sys_step dq sy capacity (LStart j op) s =
     (if may_start s j op then Some (s\<lparr>sys_clients := (sys_clients s)[j := start_op op]\<rparr>) else None)"

text \<open>
  The state in which a scheduler with \<open>n\<close> workers starts, together with \<open>c\<close> clients.
\<close>

definition world_new :: "nat \<Rightarrow> world" where
  "world_new n = \<lparr>shared = worker_shared_new (queue_system_new (of_nat n)),
     groups = (\<lambda>_. group_new), calls = []\<rparr>"

definition sys_new :: "nat \<Rightarrow> nat \<Rightarrow> sys" where
  "sys_new n c = \<lparr>sys_world = world_new n,
     sys_workers = map (\<lambda>i. worker_start (of_nat i) (of_nat n)) [0..<n],
     sys_clients = replicate c CIdle, sys_published = []\<rparr>"

definition sys_init :: "sys \<Rightarrow> bool" where
  "sys_init s \<longleftrightarrow> (\<exists>n c. 0 < n \<and> n \<le> 2 ^ 63 \<and> s = sys_new n c)"

section \<open>Accounting\<close>

abbreviation sys_shared :: "sys \<Rightarrow> worker_shared" where
  "sys_shared s \<equiv> shared (sys_world s)"

abbreviation sys_queued :: "sys \<Rightarrow> task multiset" where
  "sys_queued s \<equiv> queued (ws_queues (sys_shared s))"

text \<open>A task a worker has taken from the queues but not called yet.\<close>

fun in_hand :: "worker_pc \<Rightarrow> task multiset" where
  "in_hand (WUnpublish (AExec t)) = {#t#}"
| "in_hand (WRelease (AExec t)) = {#t#}"
| "in_hand (WExec t) = {#t#}"
| "in_hand _ = {#}"

text \<open>A task that has been called and is still counted as outstanding.\<close>

fun executing :: "worker_pc \<Rightarrow> nat" where
  "executing (WRunning t) = 1"
| "executing (WRecord g) = 1"
| "executing (WDecrement g) = 1"
| "executing _ = 0"

definition busy :: "worker_pc \<Rightarrow> nat" where
  "busy pc = size (in_hand pc) + executing pc"

text \<open>A slot reserved by a submission that has neither published its task nor given up.\<close>

fun push_slot :: "push_pc \<Rightarrow> nat" where
  "push_slot (QCheckReserved t) = 1"
| "push_slot QReleaseSlot = 1"
| "push_slot (QGroupRead t g) = 1"
| "push_slot (QGroupAdd t g) = 1"
| "push_slot (QGroupReread t g) = 1"
| "push_slot (QGroupUndo g) = 1"
| "push_slot (QGroupUndoNotify g) = 1"
| "push_slot (QCheckFinal t) = 1"
| "push_slot (QRollback g) = 1"
| "push_slot (QPublish t) = 1"
| "push_slot _ = 0"

fun client_slot :: "client_pc \<Rightarrow> nat" where
  "client_slot (CPush pc) = push_slot pc"
| "client_slot _ = 0"

definition outstanding :: "sys \<Rightarrow> nat" where
  "outstanding s =
     sum_list (map client_slot (sys_clients s)) + size (sys_queued s) +
     sum_list (map (\<lambda>wk. busy (wk_pc wk)) (sys_workers s))"

text \<open>All interleavings, from any number of workers and clients.\<close>

definition reachable :: "deque_api \<Rightarrow> sync_api \<Rightarrow> usize \<Rightarrow> sys \<Rightarrow> bool" where
  "reachable dq sy capacity = reach sys_init (sys_step dq sy capacity) (\<lambda>_. True)"

text \<open>
  The interleavings of a real machine: fewer than \<open>2 ^ 64\<close> tasks and threads exist at
  any time, because each occupies memory of its own.
\<close>

definition realistic :: "sys \<Rightarrow> bool" where
  "realistic s \<longleftrightarrow> outstanding s + length (sys_workers s) + length (sys_clients s) < 2 ^ 64"

definition reachable_real :: "deque_api \<Rightarrow> sync_api \<Rightarrow> usize \<Rightarrow> sys \<Rightarrow> bool" where
  "reachable_real dq sy capacity =
     reach (\<lambda>s. sys_init s \<and> realistic s) (sys_step dq sy capacity) realistic"

lemma reachable_real_reachable: "reachable_real dq sy cap s \<Longrightarrow> reachable dq sy cap s"
  unfolding reachable_real_def reachable_def
  by (induction rule: reach.induct) (auto intro: reach.intros)

lemma reachable_real_realistic: "reachable_real dq sy cap s \<Longrightarrow> realistic s"
  unfolding reachable_real_def by (induction rule: reach.induct) auto

end
