(* ===== verification/Accounting.thy ===== *)
theory Accounting
  imports System
begin

text \<open>
  What one atomic action of a worker or a client does to the queues, to the
  counter of outstanding tasks and to the calls made, and from it the invariants
  of the interleaved system: the shape of the queues, the count of outstanding
  tasks, the capacity bound and the conservation of tasks.
\<close>

section \<open>Actions of a worker\<close>

lemma in_hand_leave [simp]: "in_hand (leave ph a) = in_hand (WRelease a)"
  by (cases ph; cases a) simp_all

lemma executing_leave [simp]: "executing (leave ph a) = 0"
  by (cases ph; cases a) simp_all

lemma in_hand_after_search [simp]: "in_hand (after_search ph r) = handed_out r"
  by (cases r) simp_all

lemma executing_after_search [simp]: "executing (after_search ph r) = 0"
  by (cases r) simp_all

lemma proceed_idle [simp]: "in_hand (proceed ph) = {#}" "executing (proceed ph) = 0"
  by (cases ph; simp)+

lemma follow_busy [simp]: "in_hand (follow a) = in_hand (WRelease a)" "executing (follow a) = 0"
  by (cases a; simp)+

lemma unpublish_busy [simp]: "in_hand (WUnpublish a) = in_hand (WRelease a)"
  by (cases a) simp_all

lemma group_or_next_idle [simp]: "in_hand (group_or_next g) = {#}" "executing (group_or_next g) = 0"
  by (cases g; simp add: group_or_next_def)+

lemma task_execute_take_group [simp]: "task_execute (snd (take_group t)) = task_execute t"
  by (simp add: task_execute_def take_group_def)

declare in_flight_fetch_add_def [shared_action_defs] in_flight_fetch_sub_def [shared_action_defs]
  sleeping_fetch_add_def [shared_action_defs] sleeping_fetch_sub_def [shared_action_defs]
  shared_notify_all_def [shared_action_defs] shared_notify_one_def [shared_action_defs]
  store_shutdown_def [shared_action_defs] release_task_slot_def [shared_action_defs]
  with_shared_def [shared_action_defs] with_group_def [shared_action_defs]

declare group_fetch_add_def [group_action_defs] group_fetch_sub_def [group_action_defs]
  group_notify_all_def [group_action_defs] group_store_closed_def [group_action_defs]

text \<open>
  An action of a search changes the queues, the statistics and the worker; what it
  takes from the queues it holds afterwards.
\<close>

lemma worker_pop_effect:
  assumes dq: "deque_ok dq" and me: "me < length (q_locals (ws_queues (shared w)))"
    and step: "worker_step dq sy me wk w = Some (wk', w')" and pc: "wk_pc wk = WPop ph pc"
  obtains r st where "pop_sound (ws_queues (shared w)) r (ws_queues (shared w'))"
    "w' = w\<lparr>shared := (shared w)\<lparr>ws_queues := ws_queues (shared w'), ws_stats := st\<rparr>\<rparr>"
    "in_hand (wk_pc wk') = handed_out r" "executing (wk_pc wk') = 0"
    "ss_worker_id (wk_steal wk') = ss_worker_id (wk_steal wk)"
    "ss_worker_count (wk_steal wk') = ss_worker_count (wk_steal wk)"
    "wk_pc wk' = after_search ph r \<or> (\<exists>pc'. wk_pc wk' = WPop ph pc')"
proof -
  obtain res qs ss st ps where search:
    "pop_step dq me pc (ws_queues (shared w), wk_steal wk, ws_stats (shared w), wk_priority wk) =
       (res, qs, ss, st, ps)" by (metis prod_cases5)
  with step pc have wk': "wk' = wk\<lparr>wk_pc := (case res of Inl pc' \<Rightarrow> WPop ph pc' | Inr r \<Rightarrow> after_search ph r),
       wk_steal := ss, wk_priority := ps\<rparr>"
    and w': "w' = w\<lparr>shared := (shared w)\<lparr>ws_queues := qs, ws_stats := st\<rparr>\<rparr>"
    by (simp_all add: worker_step_def)
  from pop_step_sound [OF dq me search] show ?thesis
    by (intro that [of "search_result res" st]) (auto simp: wk' w' split: sum.splits)
qed

text \<open>Outside a search a worker leaves the queues alone.\<close>

lemma worker_other_effect:
  assumes "worker_step dq sy me wk w = Some (wk', w')" and "\<nexists>ph pc. wk_pc wk = WPop ph pc"
  shows "ws_queues (shared w') = ws_queues (shared w) \<and> wk_steal wk' = wk_steal wk \<and>
    wk_priority wk' = wk_priority wk"
  using assms
  by (cases "wk_pc wk")
    (auto simp: worker_step_def shared_action_defs group_fetch_sub_def Let_def split: if_splits)

lemma worker_step_queues:
  assumes "deque_ok dq" and "me < length (q_locals (ws_queues (shared w)))"
    and step: "worker_step dq sy me wk w = Some (wk', w')"
  shows "length (q_locals (ws_queues (shared w'))) = length (q_locals (ws_queues (shared w))) \<and>
    (injectors_ok (ws_queues (shared w)) \<longrightarrow> injectors_ok (ws_queues (shared w'))) \<and>
    ss_worker_id (wk_steal wk') = ss_worker_id (wk_steal wk) \<and>
    ss_worker_count (wk_steal wk') = ss_worker_count (wk_steal wk)"
proof (cases "\<exists>ph pc. wk_pc wk = WPop ph pc")
  case True
  then obtain ph pc where "wk_pc wk = WPop ph pc" by blast
  with assms show ?thesis by (elim worker_pop_effect) (auto simp: pop_sound_def)
next
  case False
  with worker_other_effect [OF step] show ?thesis by simp
qed

text \<open>
  The tasks still to be called and the calls made: an action only moves tasks from
  the queues to the worker's hand and from there to the calls.
\<close>

lemma worker_step_conserves:
  assumes "deque_ok dq" and "me < length (q_locals (ws_queues (shared w)))"
    and step: "worker_step dq sy me wk w = Some (wk', w')"
  shows "mset (calls w') + image_mset task_execute (queued (ws_queues (shared w')) + in_hand (wk_pc wk')) =
    mset (calls w) + image_mset task_execute (queued (ws_queues (shared w)) + in_hand (wk_pc wk))"
proof (cases "\<exists>ph pc. wk_pc wk = WPop ph pc")
  case True
  then obtain ph pc where pc: "wk_pc wk = WPop ph pc" by blast
  from assms pc show ?thesis
  proof (rule worker_pop_effect)
    fix r st
    assume q: "pop_sound (ws_queues (shared w)) r (ws_queues (shared w'))"
      and w': "w' = w\<lparr>shared := (shared w)\<lparr>ws_queues := ws_queues (shared w'), ws_stats := st\<rparr>\<rparr>"
      and h: "in_hand (wk_pc wk') = handed_out r"
    have "calls w' = calls w" by (subst w') simp
    with q h pc show ?thesis by (simp add: pop_sound_def add.commute)
  qed
next
  case False
  with worker_other_effect [OF step] step show ?thesis
    by (cases "wk_pc wk")
      (auto simp: worker_step_def shared_action_defs group_fetch_sub_def Let_def split: if_splits)
qed

text \<open>The counter of outstanding tasks goes down exactly when a finished task stops being counted.\<close>

definition worker_load :: "worker \<Rightarrow> world \<Rightarrow> nat" where
  "worker_load wk w = size (queued (ws_queues (shared w))) + busy (wk_pc wk)"

lemma worker_step_load:
  assumes "deque_ok dq" and "me < length (q_locals (ws_queues (shared w)))"
    and step: "worker_step dq sy me wk w = Some (wk', w')"
  obtains d where "worker_load wk w = worker_load wk' w' + d"
    "ws_tasks_in_flight (shared w') = ws_tasks_in_flight (shared w) - of_nat d"
proof (cases "\<exists>ph pc. wk_pc wk = WPop ph pc")
  case True
  then obtain ph pc where pc: "wk_pc wk = WPop ph pc" by blast
  from assms pc show ?thesis
  proof (rule worker_pop_effect)
    fix r st
    assume q: "pop_sound (ws_queues (shared w)) r (ws_queues (shared w'))"
      and w': "w' = w\<lparr>shared := (shared w)\<lparr>ws_queues := ws_queues (shared w'), ws_stats := st\<rparr>\<rparr>"
      and h: "in_hand (wk_pc wk') = handed_out r" and e: "executing (wk_pc wk') = 0"
    have "ws_tasks_in_flight (shared w') = ws_tasks_in_flight (shared w)" by (subst w') simp
    with q h e pc show ?thesis by (intro that [of 0]) (simp_all add: worker_load_def busy_def pop_sound_def)
  qed
next
  case False
  define d :: nat where "d = (if \<exists>g. wk_pc wk = WDecrement g then 1 else 0)"
  from False worker_other_effect [OF step] step
  have "worker_load wk w = worker_load wk' w' + d \<and>
      ws_tasks_in_flight (shared w') = ws_tasks_in_flight (shared w) - of_nat d"
    by (cases "wk_pc wk")
      (auto simp: d_def worker_step_def worker_load_def busy_def shared_action_defs
        group_fetch_sub_def Let_def split: if_splits)
  then show ?thesis using that by blast
qed

section \<open>Actions of a client\<close>

lemma push_global_shape:
  assumes "deque_ok dq"
  shows "length (q_locals (push_global dq t qs)) = length (q_locals qs)"
    and "injectors_ok qs \<Longrightarrow> injectors_ok (push_global dq t qs)"
  using assms
  by (auto simp: push_global_def deque_ok_def injectors_ok_def split: task_priority.split)

lemma cas_weak_cases:
  obtains (Won) "in_flight_cas_weak sp cur new ws = Inr (ws\<lparr>ws_tasks_in_flight := new\<rparr>)"
      "ws_tasks_in_flight ws = cur"
  | (Lost) "in_flight_cas_weak sp cur new ws = Inl (ws_tasks_in_flight ws)"
  by (cases "sp \<or> ws_tasks_in_flight ws \<noteq> cur") (auto simp: in_flight_cas_weak_def)

text \<open>
  A client changes the queues only by publishing, and counts a slot exactly as the
  counter does.  A slot is taken only below the capacity.
\<close>

lemma push_step_queues:
  assumes "push_step dq sy cap sp pc w = Some (pc', w')"
  shows "ws_queues (shared w') =
      (case pc of QPublish t \<Rightarrow> push_global dq t (ws_queues (shared w)) | _ \<Rightarrow> ws_queues (shared w))"
    and "calls w' = calls w"
proof -
  have ex: "pc = QExchange t cur \<Longrightarrow> ws_queues (shared w') = ws_queues (shared w) \<and> calls w' = calls w" for t cur
    using assms
    by (cases rule: cas_weak_cases [of sp cur "cur + 1" "shared w"]) (auto split: if_splits)
  show "ws_queues (shared w') =
      (case pc of QPublish t \<Rightarrow> push_global dq t (ws_queues (shared w)) | _ \<Rightarrow> ws_queues (shared w))"
    using assms ex
    by (cases pc) (auto simp: shared_action_defs Let_def group_fetch_sub_def split: if_splits)
  show "calls w' = calls w"
    using assms ex
    by (cases pc) (auto simp: shared_action_defs Let_def group_fetch_sub_def split: if_splits)
qed

definition push_load :: "push_pc \<Rightarrow> world \<Rightarrow> nat" where
  "push_load pc w = push_slot pc + size (queued (ws_queues (shared w)))"

lemma push_slot_register [simp]: "push_slot (register_or_check t) = 1"
  by (simp add: register_or_check_def split: option.split)

fun quiet_push :: "push_pc \<Rightarrow> bool" where
  "quiet_push (QReserve t) = False"
| "quiet_push (QExchange t c) = False"
| "quiet_push QReleaseSlot = False"
| "quiet_push (QRollback g) = False"
| "quiet_push (QPublish t) = False"
| "quiet_push _ = True"

lemma push_step_quiet:
  assumes "push_step dq sy cap sp pc w = Some (pc', w')" and "quiet_push pc"
  shows "push_load pc' w' = push_load pc w \<and>
    ws_tasks_in_flight (shared w') = ws_tasks_in_flight (shared w)"
  using assms
  by (cases pc)
    (auto simp: push_load_def shared_action_defs group_fetch_sub_def Let_def split: if_splits)

lemma push_step_load:
  assumes dq: "deque_ok dq" and step: "push_step dq sy cap sp pc w = Some (pc', w')"
  obtains
    (Same) "push_load pc' w' = push_load pc w"
      "ws_tasks_in_flight (shared w') = ws_tasks_in_flight (shared w)"
  | (Take) "push_load pc' w' = Suc (push_load pc w)" "cap = 0 \<or> ws_tasks_in_flight (shared w) < cap"
      "ws_tasks_in_flight (shared w') = ws_tasks_in_flight (shared w) + 1"
  | (Give) "push_load pc w = Suc (push_load pc' w')"
      "ws_tasks_in_flight (shared w') = ws_tasks_in_flight (shared w) - 1"
proof (cases pc)
  case (QReserve t)
  with step show ?thesis
    by (cases "cap = 0") (auto intro: that simp: push_load_def shared_action_defs)
next
  case (QExchange t cur)
  show ?thesis
  proof (cases "cap \<le> cur")
    case True
    with step QExchange show ?thesis by (intro that(1)) (auto simp: push_load_def)
  next
    case False
    show ?thesis
    proof (cases rule: cas_weak_cases [of sp cur "cur + 1" "shared w"])
      case Won
      with False step QExchange show ?thesis by (intro that(2)) (auto simp: push_load_def)
    next
      case Lost
      with False step QExchange show ?thesis by (intro that(1)) (auto simp: push_load_def)
    qed
  qed
next
  case QReleaseSlot
  with step show ?thesis by (intro that(3)) (auto simp: push_load_def shared_action_defs)
next
  case (QRollback g)
  with step show ?thesis
    by (intro that(3)) (auto simp: push_load_def shared_action_defs split: option.splits)
next
  case (QPublish t)
  with step dq show ?thesis
    by (intro that(1)) (auto simp: push_load_def shared_action_defs queued_push_global)
qed (use push_step_quiet [OF step] that(1) in simp_all)

definition client_load :: "client_pc \<Rightarrow> world \<Rightarrow> nat" where
  "client_load pc w = client_slot pc + size (queued (ws_queues (shared w)))"

lemma client_step_other:
  assumes "client_step dq sy cap j sp joined pc w = Some (pc', w')" and "\<nexists>q. pc = CPush q"
  shows "ws_queues (shared w') = ws_queues (shared w)"
    and "ws_tasks_in_flight (shared w') = ws_tasks_in_flight (shared w)"
    and "calls w' = calls w" and "client_slot pc' = 0"
  using assms
  by (cases pc; auto simp: shared_action_defs sched_wait_step_def split: if_splits)+

lemma client_step_queues:
  assumes "client_step dq sy cap j sp joined pc w = Some (pc', w')"
  shows "ws_queues (shared w') = fold (push_global dq) (publishes pc) (ws_queues (shared w))"
    and "calls w' = calls w"
proof -
  have "ws_queues (shared w') = fold (push_global dq) (publishes pc) (ws_queues (shared w)) \<and> calls w' = calls w"
  proof (cases "\<exists>q. pc = CPush q")
    case True
    then obtain q where q: "pc = CPush q" by blast
    with assms obtain q' where "push_step dq sy cap sp q w = Some (q', w')" by auto
    with push_step_queues [OF this] q show ?thesis by (cases q) simp_all
  next
    case False
    with client_step_other [OF assms False] show ?thesis by (cases pc) simp_all
  qed
  then show "ws_queues (shared w') = fold (push_global dq) (publishes pc) (ws_queues (shared w))"
    and "calls w' = calls w" by simp_all
qed

lemma client_step_load:
  assumes dq: "deque_ok dq" and step: "client_step dq sy cap j sp joined pc w = Some (pc', w')"
  obtains
    (Same) "client_load pc' w' = client_load pc w"
      "ws_tasks_in_flight (shared w') = ws_tasks_in_flight (shared w)"
  | (Take) "client_load pc' w' = Suc (client_load pc w)" "cap = 0 \<or> ws_tasks_in_flight (shared w) < cap"
      "ws_tasks_in_flight (shared w') = ws_tasks_in_flight (shared w) + 1"
  | (Give) "client_load pc w = Suc (client_load pc' w')"
      "ws_tasks_in_flight (shared w') = ws_tasks_in_flight (shared w) - 1"
proof (cases "\<exists>q. pc = CPush q")
  case True
  then obtain q where q: "pc = CPush q" by blast
  with step obtain q' where q': "push_step dq sy cap sp q w = Some (q', w')" "pc' = CPush q'" by auto
  have load: "client_load pc w = push_load q w" "client_load pc' w' = push_load q' w'"
    by (simp_all add: q q' client_load_def push_load_def)
  from dq q'(1) show ?thesis
    by (cases rule: push_step_load) (use that load in auto)
next
  case False
  with client_step_other [OF step False] show ?thesis
    by (intro that(1)) (cases pc; simp add: client_load_def)+
qed

section \<open>Steps of the system\<close>

lemma sys_step_cases:
  assumes "sys_step dq sy cap l s = Some s'"
  obtains
    (Worker) i wk w where "l = LWorker i" "i < length (sys_workers s)"
      "worker_step dq sy i (sys_workers s ! i) (sys_world s) = Some (wk, w)"
      "s' = s\<lparr>sys_world := w, sys_workers := (sys_workers s)[i := wk]\<rparr>"
  | (Client) j sp pc w where "l = LClient j sp" "j < length (sys_clients s)"
      "client_step dq sy cap j sp (all_joined s) (sys_clients s ! j) (sys_world s) = Some (pc, w)"
      "s' = s\<lparr>sys_world := w, sys_clients := (sys_clients s)[j := pc],
         sys_published := sys_published s @ publishes (sys_clients s ! j)\<rparr>"
  | (Start) j op where "l = LStart j op" "may_start s j op"
      "s' = s\<lparr>sys_clients := (sys_clients s)[j := start_op op]\<rparr>"
  using assms by (cases l) (auto split: if_splits option.splits)

text \<open>The shape of the system: one deque and one steal state per worker.\<close>

definition sys_shape :: "sys \<Rightarrow> bool" where
  "sys_shape s \<longleftrightarrow>
     injectors_ok (ws_queues (sys_shared s)) \<and>
     length (q_locals (ws_queues (sys_shared s))) = length (sys_workers s) \<and>
     (\<forall>i < length (sys_workers s).
        worker_view_ok i (ws_queues (sys_shared s)) (wk_steal (sys_workers s ! i)))"

lemma worker_view_ok_cong:
  assumes "worker_view_ok i qs ss" and "length (q_locals qs') = length (q_locals qs)"
    and "ss_worker_id ss' = ss_worker_id ss" and "ss_worker_count ss' = ss_worker_count ss"
  shows "worker_view_ok i qs' ss'"
  using assms by (simp add: worker_view_ok_def queue_worker_count_def)

lemma fold_push_global_shape:
  assumes "deque_ok dq"
  shows "length (q_locals (fold (push_global dq) ts qs)) = length (q_locals qs) \<and>
    (injectors_ok qs \<longrightarrow> injectors_ok (fold (push_global dq) ts qs)) \<and>
    queued (fold (push_global dq) ts qs) = queued qs + mset ts"
  by (induction ts arbitrary: qs) (simp_all add: push_global_shape [OF assms] queued_push_global [OF assms])

lemma sys_new_shape:
  assumes "0 < n" and "n \<le> 2 ^ 63"
  shows "sys_shape (sys_new n c)"
proof -
  have n: "unat (of_nat n :: usize) = n" using assms(2) by (intro unat_of_nat_64) simp
  then have m: "max (of_nat n) (1 :: usize) = of_nat n"
    using assms(1) by (auto simp: max_def word_le_nat_alt le_Suc_eq)
  show ?thesis
    using assms by (simp add: sys_shape_def sys_new_def world_new_def worker_shared_new_def
        queue_system_new_def m n injectors_ok_def worker_view_ok_def queue_worker_count_def
        worker_start_def steal_state_new_def)
qed

lemma sys_shape_step:
  assumes dq: "deque_ok dq" and shape: "sys_shape s" and step: "sys_step dq sy cap l s = Some s'"
  shows "sys_shape s'"
  using step
proof (cases rule: sys_step_cases)
  case (Worker i wk w)
  let ?qs = "ws_queues (sys_shared s)" and ?qs' = "ws_queues (shared w)"
  have me: "i < length (q_locals ?qs)" using shape Worker(2) by (simp add: sys_shape_def)
  note q = worker_step_queues [OF dq me Worker(3)]
  have "worker_view_ok k ?qs' (wk_steal ((sys_workers s)[i := wk] ! k))" if "k < length (sys_workers s)" for k
    using shape that q worker_view_ok_cong [of k ?qs "wk_steal (sys_workers s ! k)" ?qs']
    by (cases "k = i") (simp_all add: sys_shape_def)
  with shape q Worker(4) show ?thesis by (simp add: sys_shape_def)
next
  case (Client j sp pc w)
  have "ws_queues (shared w) = fold (push_global dq) (publishes (sys_clients s ! j)) (ws_queues (sys_shared s))"
    by (rule client_step_queues(1) [OF Client(3)])
  with shape Client(4) fold_push_global_shape [OF dq] worker_view_ok_cong show ?thesis
    by (fastforce simp: sys_shape_def)
next
  case (Start j op)
  with shape show ?thesis by (simp add: sys_shape_def)
qed

section \<open>The count of outstanding tasks\<close>

definition accounted :: "sys \<Rightarrow> bool" where
  "accounted s \<longleftrightarrow> ws_tasks_in_flight (sys_shared s) = of_nat (outstanding s)"

lemma outstanding_worker_update:
  assumes "i < length (sys_workers s)"
  shows "outstanding (s\<lparr>sys_world := w, sys_workers := (sys_workers s)[i := wk]\<rparr>)
      + worker_load (sys_workers s ! i) (sys_world s) = outstanding s + worker_load wk w"
  using sum_list_update_add [OF assms, of "\<lambda>wk. busy (wk_pc wk)" wk]
  by (simp add: outstanding_def worker_load_def)

lemma outstanding_client_update:
  assumes "j < length (sys_clients s)"
  shows "outstanding (s\<lparr>sys_world := w, sys_clients := (sys_clients s)[j := pc], sys_published := p\<rparr>)
      + client_load (sys_clients s ! j) (sys_world s) = outstanding s + client_load pc w"
  using sum_list_update_add [OF assms, of client_slot pc]
  by (simp add: outstanding_def client_load_def)

lemma client_slot_free: "client_free pc \<Longrightarrow> client_slot pc = 0"
  by (cases pc rule: client_free.cases) simp_all

lemma client_slot_start [simp]: "client_slot (start_op op) = 0"
  by (cases op) simp_all

lemma outstanding_start:
  assumes "may_start s j op"
  shows "outstanding (s\<lparr>sys_clients := (sys_clients s)[j := start_op op]\<rparr>) = outstanding s"
  using assms sum_list_update_add [of j "sys_clients s" client_slot "start_op op"]
  by (simp add: outstanding_def may_start_def client_slot_free)

text \<open>How a step changes the number of outstanding tasks and the counter.\<close>

lemma outstanding_step:
  assumes dq: "deque_ok dq" and shape: "sys_shape s" and step: "sys_step dq sy cap l s = Some s'"
  obtains
    (Same) "outstanding s' = outstanding s"
      "ws_tasks_in_flight (sys_shared s') = ws_tasks_in_flight (sys_shared s)"
  | (Take) "outstanding s' = Suc (outstanding s)" "cap = 0 \<or> ws_tasks_in_flight (sys_shared s) < cap"
      "ws_tasks_in_flight (sys_shared s') = ws_tasks_in_flight (sys_shared s) + 1"
  | (Give) d where "outstanding s = outstanding s' + d"
      "ws_tasks_in_flight (sys_shared s') = ws_tasks_in_flight (sys_shared s) - of_nat d"
  using step
proof (cases rule: sys_step_cases)
  case (Worker i wk w)
  have me: "i < length (q_locals (ws_queues (sys_shared s)))"
    using shape Worker(2) by (simp add: sys_shape_def)
  obtain d where "worker_load (sys_workers s ! i) (sys_world s) = worker_load wk w + d"
    "ws_tasks_in_flight (shared w) = ws_tasks_in_flight (sys_shared s) - of_nat d"
    by (rule worker_step_load [OF dq me Worker(3)])
  with outstanding_worker_update [OF Worker(2), where w = w and wk = wk] Worker(4) show ?thesis
    by (intro that(3) [of d]) simp_all
next
  case (Client j sp pc w)
  note upd = outstanding_client_update [OF Client(2), where w = w and pc = pc and p = "sys_published s'"]
  from dq Client(3) show ?thesis
  proof (cases rule: client_step_load)
    case Same
    with upd Client(4) show ?thesis by (intro that(1)) simp_all
  next
    case Take
    with upd Client(4) show ?thesis by (intro that(2)) simp_all
  next
    case Give
    with upd Client(4) show ?thesis by (intro that(3) [of 1]) simp_all
  qed
next
  case (Start j op)
  with outstanding_start [OF Start(2)] show ?thesis by (intro that(1)) simp_all
qed

lemma accounted_step:
  assumes "deque_ok dq" and "sys_shape s" and "accounted s" and "sys_step dq sy cap l s = Some s'"
  shows "accounted s'"
  using assms(1,2,4)
  by (cases rule: outstanding_step) (use assms(3) in \<open>auto simp: accounted_def\<close>)

lemma sys_new_outstanding [simp]: "outstanding (sys_new n c) = 0"
  by (simp add: outstanding_def sys_new_def world_new_def worker_shared_new_def queue_system_new_def
      queued_def busy_def worker_start_def o_def sum_list_replicate)

lemma sys_new_accounted: "accounted (sys_new n c)"
  by (simp add: accounted_def) (simp add: sys_new_def world_new_def worker_shared_new_def)

section \<open>Invariants of every interleaving\<close>

interpretation shape: invariant sys_init "sys_step dq sy cap" "\<lambda>_. True" "\<lambda>_. True"
  "\<lambda>s. deque_ok dq \<longrightarrow> sys_shape s" for dq sy cap
  by unfold_locales (auto simp: sys_init_def intro: sys_new_shape sys_shape_step)

lemma reachable_shape: "deque_ok dq \<Longrightarrow> reachable dq sy cap s \<Longrightarrow> sys_shape s"
  unfolding reachable_def by (drule shape.reach_inv) simp

interpretation account: invariant sys_init "sys_step dq sy cap" "\<lambda>_. True"
  "\<lambda>s. deque_ok dq \<longrightarrow> sys_shape s" "\<lambda>s. deque_ok dq \<longrightarrow> accounted s" for dq sy cap
  by unfold_locales
    (auto simp: sys_init_def intro: sys_new_accounted accounted_step shape.reach_inv [THEN mp])

lemma reachable_accounted: "deque_ok dq \<Longrightarrow> reachable dq sy cap s \<Longrightarrow> accounted s"
  unfolding reachable_def by (drule account.reach_inv) simp

text \<open>The capacity bound.\<close>

definition within_capacity :: "usize \<Rightarrow> sys \<Rightarrow> bool" where
  "within_capacity cap s \<longleftrightarrow> (cap \<noteq> 0 \<longrightarrow> outstanding s \<le> unat cap)"

lemma within_capacity_step:
  assumes dq: "deque_ok dq" and shape: "sys_shape s" and acc: "accounted s"
    and cap: "within_capacity cap s" and step: "sys_step dq sy cap l s = Some s'"
  shows "within_capacity cap s'"
  using dq shape step
proof (cases rule: outstanding_step)
  case Take
  show ?thesis
  proof (cases "cap = 0")
    case False
    with cap have "outstanding s \<le> unat cap" by (simp add: within_capacity_def)
    then have "unat (ws_tasks_in_flight (sys_shared s)) = outstanding s"
      using acc unat_bound_64 [of cap] by (simp add: accounted_def unat_of_nat_64)
    with False Take show ?thesis by (simp add: within_capacity_def word_less_nat_alt)
  qed (simp add: within_capacity_def)
qed (use cap in \<open>auto simp: within_capacity_def\<close>)

interpretation capacity: invariant sys_init "sys_step dq sy cap" "\<lambda>_. True"
  "\<lambda>s. deque_ok dq \<longrightarrow> sys_shape s \<and> accounted s" "\<lambda>s. deque_ok dq \<longrightarrow> within_capacity cap s"
  for dq sy cap
  by unfold_locales
    (auto simp: sys_init_def within_capacity_def [of _ "sys_new _ _"] intro: within_capacity_step
      shape.reach_inv [THEN mp] account.reach_inv [THEN mp])

lemma reachable_capacity: "deque_ok dq \<Longrightarrow> reachable dq sy cap s \<Longrightarrow> within_capacity cap s"
  unfolding reachable_def by (drule capacity.reach_inv) simp

text \<open>Conservation: every published task is queued, in some worker's hand, or called.\<close>

definition pending :: "sys \<Rightarrow> task multiset" where
  "pending s = sys_queued s + sum_list (map (\<lambda>wk. in_hand (wk_pc wk)) (sys_workers s))"

definition conserved :: "sys \<Rightarrow> bool" where
  "conserved s \<longleftrightarrow>
     image_mset task_execute (mset (sys_published s)) =
     mset (calls (sys_world s)) + image_mset task_execute (pending s)"

lemma pending_worker_balance:
  assumes dq: "deque_ok dq" and shape: "sys_shape s" and i: "i < length (sys_workers s)"
    and step: "worker_step dq sy i (sys_workers s ! i) (sys_world s) = Some (wk, w)"
  shows "mset (calls w) + image_mset task_execute
      (pending (s\<lparr>sys_world := w, sys_workers := (sys_workers s)[i := wk]\<rparr>)) =
    mset (calls (sys_world s)) + image_mset task_execute (pending s)"
proof -
  have me: "i < length (q_locals (ws_queues (sys_shared s)))" using shape i by (simp add: sys_shape_def)
  let ?ex = "image_mset task_execute" and ?h = "\<lambda>wk. in_hand (wk_pc wk)"
  have "?ex (sum_list (map ?h ((sys_workers s)[i := wk]))) + ?ex (in_hand (wk_pc (sys_workers s ! i))) =
      ?ex (sum_list (map ?h (sys_workers s))) + ?ex (in_hand (wk_pc wk))"
    using sum_list_update_add [OF i, of ?h wk] by (simp flip: image_mset_union)
  moreover have "mset (calls w) + (?ex (queued (ws_queues (shared w))) + ?ex (in_hand (wk_pc wk))) =
      mset (calls (sys_world s)) + (?ex (sys_queued s) + ?ex (in_hand (wk_pc (sys_workers s ! i))))"
    using worker_step_conserves [OF dq me step] by simp
  ultimately have "mset (calls w) + (?ex (queued (ws_queues (shared w))) + ?ex (sum_list (map ?h ((sys_workers s)[i := wk])))) =
      mset (calls (sys_world s)) + (?ex (sys_queued s) + ?ex (sum_list (map ?h (sys_workers s))))"
    by (rule balanced_transfer)
  then show ?thesis by (simp add: pending_def)
qed

lemma conserved_step:
  assumes dq: "deque_ok dq" and shape: "sys_shape s" and con: "conserved s"
    and step: "sys_step dq sy cap l s = Some s'"
  shows "conserved s'"
  using step
proof (cases rule: sys_step_cases)
  case (Worker i wk w)
  from con Worker(4) pending_worker_balance [OF dq shape Worker(2,3)] show ?thesis
    by (simp add: conserved_def)
next
  case (Client j sp pc w)
  note q = client_step_queues [OF Client(3)]
  from con Client(4) q fold_push_global_shape [OF dq] show ?thesis
    by (simp add: conserved_def pending_def)
next
  case (Start j op)
  with con show ?thesis by (simp add: conserved_def pending_def)
qed

interpretation conserve: invariant sys_init "sys_step dq sy cap" "\<lambda>_. True"
  "\<lambda>s. deque_ok dq \<longrightarrow> sys_shape s" "\<lambda>s. deque_ok dq \<longrightarrow> conserved s" for dq sy cap
proof unfold_locales
  show "deque_ok dq \<longrightarrow> conserved s" if "sys_init s" for s
    using that by (auto simp: sys_init_def conserved_def pending_def sys_new_def world_new_def o_def
        worker_start_def worker_shared_new_def queue_system_new_def queued_def sum_list_replicate)
qed (auto intro: conserved_step shape.reach_inv [THEN mp])

lemma reachable_conserved: "deque_ok dq \<Longrightarrow> reachable dq sy cap s \<Longrightarrow> conserved s"
  unfolding reachable_def by (drule conserve.reach_inv) simp

section \<open>Concrete runs\<close>

text \<open>A scheduler with \<open>n\<close> workers and \<open>c\<close> clients that performs the given actions.\<close>

definition sample_run :: "nat \<Rightarrow> nat \<Rightarrow> usize \<Rightarrow> label list \<Rightarrow> sys option" where
  "sample_run n c cap ls = run (sys_step half_deque fifo_sync cap) ls (sys_new n c)"

lemma sample_run_reachable:
  assumes "sample_run n c cap ls = Some s" and "0 < n" and "n \<le> 2 ^ 63"
  shows "reachable half_deque fifo_sync cap s"
proof -
  have "reachable half_deque fifo_sync cap (sys_new n c)"
    unfolding reachable_def using assms(2,3) by (intro reach_init) (auto simp: sys_init_def)
  then show ?thesis
    using assms(1) unfolding reachable_def sample_run_def by (rule reach_run)
qed

abbreviation worker_acts :: "nat \<Rightarrow> nat \<Rightarrow> label list" where
  "worker_acts i k \<equiv> replicate k (LWorker i)"

abbreviation client_acts :: "nat \<Rightarrow> nat \<Rightarrow> label list" where
  "client_acts j k \<equiv> replicate k (LClient j False)"

text \<open>
  With capacity one, client 0 submits a task and client 1 finds the scheduler full;
  nothing has run yet.
\<close>

definition full_trace :: "label list" where
  "full_trace = LStart 0 (OpPush (sample_task High 7)) # client_acts 0 8 @
     LStart 1 (OpPush (sample_task Low 9)) # client_acts 1 4"

definition full_state :: sys where
  "full_state = the (sample_run 1 2 1 full_trace)"

lemma full_run: "sample_run 1 2 1 full_trace = Some full_state"
proof -
  have "sample_run 1 2 1 full_trace \<noteq> None" by code_simp
  then show ?thesis by (auto simp: full_state_def)
qed

lemma full_state_reachable: "reachable half_deque fifo_sync 1 full_state"
  by (rule sample_run_reachable [OF full_run]) simp_all

section \<open>Properties\<close>

text \<open>
  Property C3. Bounded capacity: however submissions, workers and shutdowns
  interleave, the number of outstanding tasks of a scheduler with capacity
  \<open>capacity \<noteq> 0\<close> (slots reserved, tasks queued and tasks executing) never exceeds
  that capacity, and neither does the counter that clients read.
\<close>

theorem capacity_never_exceeded:
  assumes "deque_ok dq" and "reachable dq sy capacity s" and "capacity \<noteq> 0"
  shows "outstanding s \<le> unat capacity \<and> ws_tasks_in_flight (sys_shared s) \<le> capacity"
proof -
  have le: "outstanding s \<le> unat capacity"
    using reachable_capacity [OF assms(1,2)] assms(3) by (simp add: within_capacity_def)
  then have "unat (of_nat (outstanding s) :: usize) = outstanding s"
    using unat_bound_64 [of capacity] by (intro unat_of_nat_64) linarith
  with le reachable_accounted [OF assms(1,2)] show ?thesis
    by (simp add: accounted_def word_le_nat_alt)
qed

theorem capacity_never_exceeded_witness:
  "sys_clients full_state = [CPush (QDone (Inr ())), CPush (QDone (Inl QueueFull))] \<and>
   outstanding full_state \<le> 1 \<and> ws_tasks_in_flight (sys_shared full_state) \<le> 1"
proof -
  have "sys_clients full_state = [CPush (QDone (Inr ())), CPush (QDone (Inl QueueFull))]" by code_simp
  with capacity_never_exceeded [OF half_deque_ok full_state_reachable] show ?thesis by simp
qed

text \<open>
  Property C23. The counter of outstanding tasks is exact in every interleaving: it is
  the number of slots reserved by submissions in progress, plus the tasks in the
  injectors and deques, plus the tasks a worker holds or executes, modulo \<open>2 ^ 64\<close>.
\<close>

theorem outstanding_counter_exact:
  assumes "deque_ok dq" and "reachable dq sy capacity s"
  shows "ws_tasks_in_flight (sys_shared s) = of_nat (outstanding s)"
  using reachable_accounted [OF assms] by (simp add: accounted_def)

theorem outstanding_counter_exact_witness:
  "ws_tasks_in_flight (sys_shared full_state) = of_nat (outstanding full_state) \<and> outstanding full_state = 1"
proof -
  have "outstanding full_state = 1" by code_simp
  with outstanding_counter_exact [OF half_deque_ok full_state_reachable] show ?thesis by simp
qed

text \<open>
  Property C1. No task is lost or run twice: in every interleaving the calls of task
  functions made so far, together with the tasks still queued or in a worker's
  hand, are exactly the tasks published by successful submissions, counted with
  multiplicity.
\<close>

theorem tasks_neither_lost_nor_duplicated:
  assumes "deque_ok dq" and "reachable dq sy capacity s"
  shows "image_mset task_execute (mset (sys_published s)) =
    mset (calls (sys_world s)) + image_mset task_execute (pending s)"
  using reachable_conserved [OF assms] by (simp add: conserved_def)

theorem tasks_neither_lost_nor_duplicated_witness:
  "sys_published full_state = [sample_task High 7] \<and>
   {#(7, 0)#} = mset (calls (sys_world full_state)) + image_mset task_execute (pending full_state)"
proof -
  have "sys_published full_state = [sample_task High 7]" by code_simp
  moreover have "task_execute (sample_task High 7) = (7, 0)" by code_simp
  ultimately show ?thesis
    using tasks_neither_lost_nor_duplicated [OF half_deque_ok full_state_reachable] by simp
qed

end
