(* ===== verification/Shutdown.thy ===== *)
theory Shutdown
  imports Accounting
begin

text \<open>
  Waiting, graceful shutdown and destruction in the interleaved system: a worker
  leaves its loop only when every accepted task has been executed and none can be
  accepted any more, so destroying the scheduler drains it, and \<open>Scheduler::wait\<close>
  returns only at a moment when nothing is outstanding.
\<close>

section \<open>Tasks that are or will be executed\<close>

text \<open>
  A submission is committed once it has passed its last check of the shutdown flag;
  committed submissions, queued tasks and tasks in the hands of workers are the work
  a shutdown has to drain.
\<close>

definition committed :: "sys \<Rightarrow> nat" where
  "committed s =
     sum_list (map (\<lambda>c. length (publishes c)) (sys_clients s)) + size (sys_queued s) +
     sum_list (map (\<lambda>wk. busy (wk_pc wk)) (sys_workers s))"

lemma publishes_le_slot: "length (publishes c) \<le> client_slot c"
  by (cases c rule: publishes.cases) simp_all

lemma committed_le_outstanding: "committed s \<le> outstanding s"
  unfolding committed_def outstanding_def
  by (intro add_mono le_refl sum_list_mono) (rule publishes_le_slot)

lemma committed_0_iff:
  "committed s = 0 \<longleftrightarrow> (\<forall>c \<in> set (sys_clients s). publishes c = []) \<and> sys_queued s = {#} \<and>
     (\<forall>wk \<in> set (sys_workers s). busy (wk_pc wk) = 0)"
  by (auto simp: committed_def)

lemma realistic_idle:
  assumes "realistic s" and "accounted s" and "ws_tasks_in_flight (sys_shared s) = 0"
  shows "outstanding s = 0"
  using assms of_nat_eq_0_64 [of "outstanding s"] by (simp add: realistic_def accounted_def)

lemma committed_0_pending:
  assumes "committed s = 0"
  shows "pending s = {#}"
proof -
  have "in_hand (wk_pc wk) = {#}" if "wk \<in> set (sys_workers s)" for wk
    using assms that by (auto simp: committed_0_iff busy_def)
  then have "sum_list (map (\<lambda>wk. in_hand (wk_pc wk)) (sys_workers s)) = sum_list (map (\<lambda>_. {#}) (sys_workers s))"
    by (intro arg_cong [of _ _ sum_list] map_cong) auto
  with assms show ?thesis by (simp add: pending_def committed_0_iff)
qed

section \<open>The drain invariant\<close>

text \<open>The points of a worker that has decided to leave its loop, and the read that decides it.\<close>

fun leaving :: "worker_pc \<Rightarrow> bool" where
  "leaving (WUnpublish ABreak) = True"
| "leaving (WRelease ABreak) = True"
| "leaving WDone = True"
| "leaving _ = False"

fun saw_shutdown :: "worker_pc \<Rightarrow> bool" where
  "saw_shutdown (WReadInFlight ph) = True"
| "saw_shutdown _ = False"

definition drained :: "sys \<Rightarrow> bool" where
  "drained s \<longleftrightarrow>
     (\<forall>wk \<in> set (sys_workers s). saw_shutdown (wk_pc wk) \<longrightarrow> ws_shutdown (sys_shared s)) \<and>
     ((\<exists>wk \<in> set (sys_workers s). leaving (wk_pc wk)) \<longrightarrow> ws_shutdown (sys_shared s) \<and> committed s = 0)"

lemma worker_step_shutdown:
  assumes "worker_step dq sy me wk w = Some (wk', w')"
  shows "ws_shutdown (shared w') = ws_shutdown (shared w)"
  using assms
  by (cases "wk_pc wk")
    (auto simp: worker_step_def shared_action_defs group_fetch_sub_def Let_def
      split: if_splits prod.splits)

lemma client_step_shutdown:
  assumes "client_step dq sy cap j sp joined pc w = Some (pc', w')" and "ws_shutdown (shared w)"
  shows "ws_shutdown (shared w')"
proof -
  have push: "ws_shutdown (shared w')" if "push_step dq sy cap sp q w = Some (q', w')" for q q'
    using that assms(2)
    by (cases q)
      (auto simp: shared_action_defs group_fetch_sub_def Let_def in_flight_cas_weak_def
        split: if_splits sum.splits)
  show ?thesis
    using assms push by (cases pc) (auto simp: shared_action_defs sched_wait_step_def split: if_splits)
qed

lemma client_step_no_commit:
  assumes "client_step dq sy cap j sp joined pc w = Some (pc', w')"
    and "ws_shutdown (shared w)" and "publishes pc = []"
  shows "publishes pc' = []"
proof -
  have push: "publishes (CPush q') = []"
    if "push_step dq sy cap sp q w = Some (q', w')" for q q'
    using that assms(2)
    by (cases q)
      (auto simp: register_or_check_def Let_def group_fetch_sub_def split: if_splits sum.splits option.splits)
  show ?thesis using assms push by (cases pc) (auto split: if_splits)
qed

text \<open>
  Once some worker is leaving there is nothing left to do and no step creates work;
  the first worker to leave has just read a zero count of outstanding tasks.
\<close>

lemma committed_worker_update:
  assumes "i < length (sys_workers s)"
  shows "committed (s\<lparr>sys_world := w, sys_workers := (sys_workers s)[i := wk]\<rparr>)
      + worker_load (sys_workers s ! i) (sys_world s) = committed s + worker_load wk w"
  using sum_list_update_add [OF assms, of "\<lambda>wk. busy (wk_pc wk)" wk]
  by (simp add: committed_def worker_load_def)

lemma committed_worker_mono:
  assumes dq: "deque_ok dq" and shape: "sys_shape s" and i: "i < length (sys_workers s)"
    and step: "worker_step dq sy i (sys_workers s ! i) (sys_world s) = Some (wk, w)"
  shows "committed (s\<lparr>sys_world := w, sys_workers := (sys_workers s)[i := wk]\<rparr>) \<le> committed s"
proof -
  have me: "i < length (q_locals (ws_queues (sys_shared s)))" using shape i by (simp add: sys_shape_def)
  obtain d where "worker_load (sys_workers s ! i) (sys_world s) = worker_load wk w + d"
    by (rule worker_step_load [OF dq me step])
  with committed_worker_update [OF i, where w = w and wk = wk] show ?thesis by simp
qed

lemma leaving_simps [simp]:
  "\<not> leaving (proceed ph)" "\<not> leaving (group_or_next g)"
  "leaving (follow a) \<longleftrightarrow> a = ABreak" "leaving (WRelease a) \<longleftrightarrow> a = ABreak"
  "leaving (WUnpublish a) \<longleftrightarrow> a = ABreak" "leaving (leave ph a) \<longleftrightarrow> a = ABreak"
  "\<not> leaving (after_search ph r)"
proof -
  show f: "leaving (follow a) \<longleftrightarrow> a = ABreak" and r: "leaving (WRelease a) \<longleftrightarrow> a = ABreak"
    and u: "leaving (WUnpublish a) \<longleftrightarrow> a = ABreak" for a
    by (cases a; simp)+
  show l: "leaving (leave ph a) \<longleftrightarrow> a = ABreak" for a by (cases ph) (simp_all add: f r u)
  show "\<not> leaving (proceed ph)" by (cases ph) simp_all
  show "\<not> leaving (group_or_next g)" by (cases g) (simp_all add: group_or_next_def)
  show "\<not> leaving (after_search ph r)" by (cases r) (simp_all add: l)
qed

lemma saw_shutdown_simps [simp]:
  "\<not> saw_shutdown (proceed ph)" "\<not> saw_shutdown (group_or_next g)" "\<not> saw_shutdown (follow a)"
  "\<not> saw_shutdown (leave ph a)" "\<not> saw_shutdown (after_search ph r)"
proof -
  show f: "\<not> saw_shutdown (follow a)" for a by (cases a) simp_all
  show l: "\<not> saw_shutdown (leave ph a)" for a by (cases ph) (simp_all add: f)
  show "\<not> saw_shutdown (proceed ph)" by (cases ph) simp_all
  show "\<not> saw_shutdown (group_or_next g)" by (cases g) (simp_all add: group_or_next_def)
  show "\<not> saw_shutdown (after_search ph r)" by (cases r) (simp_all add: l)
qed

lemma worker_starts_leaving:
  assumes "worker_step dq sy me wk w = Some (wk', w')" and "leaving (wk_pc wk')" and "\<not> leaving (wk_pc wk)"
  shows "saw_shutdown (wk_pc wk) \<and> ws_tasks_in_flight (shared w) = 0"
  using assms
  by (cases "wk_pc wk") (auto simp: worker_step_def Let_def split: if_splits prod.splits sum.splits)

lemma worker_sees_shutdown:
  assumes "worker_step dq sy me wk w = Some (wk', w')" and "saw_shutdown (wk_pc wk')"
  shows "ws_shutdown (shared w)"
  using assms
  by (cases "wk_pc wk") (auto simp: worker_step_def Let_def split: if_splits prod.splits sum.splits)

lemma worker_keeps_leaving:
  assumes "worker_step dq sy me wk w = Some (wk', w')" and "leaving (wk_pc wk)"
  shows "leaving (wk_pc wk')"
  using assms
  by (cases "wk_pc wk" rule: leaving.cases) (auto simp: worker_step_def)

lemma drained_worker:
  assumes dq: "deque_ok dq" and shape: "sys_shape s" and acc: "accounted s" and real: "realistic s"
    and inv: "drained s" and i: "i < length (sys_workers s)"
    and step: "worker_step dq sy i (sys_workers s ! i) (sys_world s) = Some (wk, w)"
  shows "drained (s\<lparr>sys_world := w, sys_workers := (sys_workers s)[i := wk]\<rparr>)" (is "drained ?s'")
proof -
  have sd: "ws_shutdown (shared w) = ws_shutdown (sys_shared s)" by (rule worker_step_shutdown [OF step])
  have mem: "sys_workers s ! i \<in> set (sys_workers s)" using i by simp
  have new: "v = wk \<or> v \<in> set (sys_workers s)" if "v \<in> set ((sys_workers s)[i := wk])" for v
    using that set_update_subset_insert [of "sys_workers s" i wk] by auto
  have stop: "ws_shutdown (sys_shared s) \<and> committed s = 0" if "v \<in> set ((sys_workers s)[i := wk])" "leaving (wk_pc v)" for v
  proof (cases "v \<in> set (sys_workers s) \<or> leaving (wk_pc (sys_workers s ! i))")
    case True
    with inv that(2) mem show ?thesis by (auto simp: drained_def)
  next
    case False
    with new [OF that(1)] that(2) have "v = wk" by blast
    with worker_starts_leaving [OF step] that(2) False
    have "saw_shutdown (wk_pc (sys_workers s ! i))" "ws_tasks_in_flight (sys_shared s) = 0" by auto
    with realistic_idle [OF real acc] committed_le_outstanding [of s] inv mem show ?thesis
      by (auto simp: drained_def)
  qed
  show ?thesis
    using committed_worker_mono [OF dq shape i step] stop new inv worker_sees_shutdown [OF step]
    unfolding drained_def by (auto simp: sd)
qed

lemma committed_client_update:
  assumes "j < length (sys_clients s)"
  shows "committed (s\<lparr>sys_world := w, sys_clients := (sys_clients s)[j := pc], sys_published := p\<rparr>)
      + (length (publishes (sys_clients s ! j)) + size (sys_queued s)) =
    committed s + (length (publishes pc) + size (queued (ws_queues (shared w))))"
  using sum_list_update_add [OF assms, of "\<lambda>c. length (publishes c)" pc]
  by (simp add: committed_def)

lemma drained_client:
  assumes inv: "drained s" and j: "j < length (sys_clients s)"
    and step: "client_step dq sy cap j sp joined (sys_clients s ! j) (sys_world s) = Some (pc, w)"
  shows "drained (s\<lparr>sys_world := w, sys_clients := (sys_clients s)[j := pc], sys_published := p\<rparr>)"
    (is "drained ?s'")
proof -
  have "committed ?s' = 0" if "committed s = 0" "ws_shutdown (sys_shared s)"
  proof -
    have none: "publishes (sys_clients s ! j) = []" using that(1) j by (simp add: committed_0_iff)
    moreover have "ws_queues (shared w) = ws_queues (sys_shared s)"
      using client_step_queues(1) [OF step] none by simp
    ultimately show ?thesis
      using committed_client_update [OF j, where w = w and pc = pc and p = p] that(1)
        client_step_no_commit [OF step that(2) none] by simp
  qed
  with inv client_step_shutdown [OF step] show ?thesis by (auto simp: drained_def)
qed

lemma drained_start:
  assumes "drained s" and "may_start s j op"
  shows "drained (s\<lparr>sys_clients := (sys_clients s)[j := start_op op]\<rparr>)" (is "drained ?s'")
proof -
  have j: "j < length (sys_clients s)" using assms(2) by (simp add: may_start_def)
  have "publishes (start_op op) = []" by (cases op) simp_all
  then have "committed ?s' \<le> committed s"
    using sum_list_update_add [OF j, of "\<lambda>c. length (publishes c)" "start_op op"]
    by (simp add: committed_def)
  with assms(1) show ?thesis by (auto simp: drained_def)
qed

lemma drained_step:
  assumes "deque_ok dq" and "sys_shape s" and "accounted s" and "realistic s" and "drained s"
    and "sys_step dq sy cap l s = Some s'"
  shows "drained s'"
  using assms(6)
  by (cases rule: sys_step_cases)
    (use assms in \<open>auto intro: drained_worker drained_client drained_start\<close>)

interpretation drain: invariant "\<lambda>s. sys_init s \<and> realistic s" "sys_step dq sy cap" realistic
  "\<lambda>s. realistic s \<and> (deque_ok dq \<longrightarrow> sys_shape s \<and> accounted s)" "\<lambda>s. deque_ok dq \<longrightarrow> drained s"
  for dq sy cap
proof unfold_locales
  show "deque_ok dq \<longrightarrow> drained s" if "sys_init s \<and> realistic s" for s
    using that by (auto simp: sys_init_def drained_def sys_new_def worker_start_def)
  show "realistic s \<and> (deque_ok dq \<longrightarrow> sys_shape s \<and> accounted s)"
    if "reach (\<lambda>s. sys_init s \<and> realistic s) (sys_step dq sy cap) realistic s" for s
    using that reachable_real_realistic [of dq sy cap s] reachable_real_reachable [of dq sy cap s]
      reachable_shape [of dq sy cap s] reachable_accounted [of dq sy cap s]
    by (simp add: reachable_real_def)
qed (auto intro: drained_step)

lemma reachable_drained: "deque_ok dq \<Longrightarrow> reachable_real dq sy cap s \<Longrightarrow> drained s"
  unfolding reachable_real_def by (drule drain.reach_inv) simp

section \<open>Joined workers\<close>

text \<open>Joining waits for every worker, and a terminated worker stays terminated.\<close>

definition join_complete :: "sys \<Rightarrow> bool" where
  "join_complete s \<longleftrightarrow>
     sys_workers s \<noteq> [] \<and> (CDestroyed \<in> set (sys_clients s) \<longrightarrow> all_joined s)"

lemma join_complete_step:
  assumes inv: "join_complete s" and step: "sys_step dq sy cap l s = Some s'"
  shows "join_complete s'"
  using step
proof (cases rule: sys_step_cases)
  case (Worker i wk w)
  then have "wk_pc (sys_workers s ! i) \<noteq> WDone" by (auto simp: worker_step_def)
  with Worker(2) have "\<not> all_joined s" by (auto simp: all_joined_def list_all_length)
  with inv Worker(4) show ?thesis by (simp add: join_complete_def)
next
  case (Client j sp pc w)
  have "all_joined s" if "pc = CDestroyed"
    using that Client(3)
    by (cases "sys_clients s ! j") (auto simp: shared_action_defs split: if_splits)
  with inv Client(4) set_update_subset_insert [of "sys_clients s" j pc] show ?thesis
    by (auto simp: join_complete_def all_joined_def)
next
  case (Start j op)
  have "start_op op \<noteq> CDestroyed" by (cases op) simp_all
  with inv Start(3) set_update_subset_insert [of "sys_clients s" j "start_op op"] show ?thesis
    by (auto simp: join_complete_def all_joined_def)
qed

interpretation joined: invariant sys_init "sys_step dq sy cap" "\<lambda>_. True" "\<lambda>_. True" join_complete
  for dq sy cap
proof unfold_locales
  show "join_complete s" if "sys_init s" for s
    using that by (auto simp: sys_init_def sys_new_def join_complete_def)
qed (auto intro: join_complete_step)

lemma reachable_join_complete: "reachable dq sy cap s \<Longrightarrow> join_complete s"
  unfolding reachable_def by (rule joined.reach_inv)

section \<open>Bounded schedulers stay within the machine\<close>

lemma sys_step_threads:
  assumes "sys_step dq sy cap l s = Some s'"
  shows "length (sys_workers s') = length (sys_workers s)" "length (sys_clients s') = length (sys_clients s)"
  using assms by (cases rule: sys_step_cases; simp)+

lemma bounded_realistic:
  assumes "deque_ok dq" and "reachable dq sy cap s" and "cap \<noteq> 0"
    and "unat cap + length (sys_workers s) + length (sys_clients s) < 2 ^ 64"
  shows "realistic s"
  using reachable_capacity [OF assms(1,2)] assms(3,4) by (simp add: within_capacity_def realistic_def)

lemma bounded_run_real:
  assumes dq: "deque_ok dq" and cap: "cap \<noteq> 0" and fit: "unat cap + length (sys_workers s) + length (sys_clients s) < 2 ^ 64"
    and "reachable_real dq sy cap s" and "run (sys_step dq sy cap) ls s = Some s'"
  shows "reachable_real dq sy cap s'"
  using assms(4,5) fit
proof (induction ls arbitrary: s)
  case Nil
  then show ?case by simp
next
  case (Cons l ls)
  then obtain t where t: "sys_step dq sy cap l s = Some t" "run (sys_step dq sy cap) ls t = Some s'"
    by (auto split: option.splits)
  have "reachable dq sy cap t"
    using reachable_real_reachable [OF Cons.prems(1)] t(1) unfolding reachable_def by (blast intro: reach_step)
  with dq cap Cons.prems(3) sys_step_threads [OF t(1)] have "realistic t" by (intro bounded_realistic) auto
  with Cons.prems(1) t(1) have "reachable_real dq sy cap t"
    unfolding reachable_real_def by (blast intro: reach_step)
  with Cons.IH [OF _ t(2)] Cons.prems(3) sys_step_threads [OF t(1)] show ?case by simp
qed

lemma sys_new_threads [simp]:
  "length (sys_workers (sys_new n c)) = n" "length (sys_clients (sys_new n c)) = c"
  by (simp_all add: sys_new_def)

lemma sys_new_real:
  assumes "0 < n" and "n \<le> 2 ^ 63" and "n + c < 2 ^ 64"
  shows "reachable_real dq sy cap (sys_new n c)"
  unfolding reachable_real_def
  by (rule reach_init) (use assms in \<open>auto simp: sys_init_def realistic_def\<close>)

lemma sample_run_real:
  assumes "sample_run n c cap ls = Some s" and "0 < n" and "n \<le> 2 ^ 63" and "cap \<noteq> 0"
    and "unat cap + n + c < 2 ^ 64"
  shows "reachable_real half_deque fifo_sync cap s"
proof (rule bounded_run_real [OF half_deque_ok assms(4)])
  show "run (sys_step half_deque fifo_sync cap) ls (sys_new n c) = Some s"
    using assms(1) by (simp only: sample_run_def)
  show "unat cap + length (sys_workers (sys_new n c)) + length (sys_clients (sys_new n c)) < 2 ^ 64"
    using assms(5) by (simp only: sys_new_threads)
  show "reachable_real half_deque fifo_sync cap (sys_new n c)"
    using assms(2,3,5) by (intro sys_new_real) linarith+
qed

section \<open>Properties\<close>

text \<open>
  A complete life of a scheduler with one worker, one client and capacity one: a
  task is submitted and executed, the client waits (\<open>idle_state\<close> is the moment it
  looks at the counter), then destroys the scheduler.
\<close>

definition idle_trace :: "label list" where
  "idle_trace = LStart 0 (OpPush (sample_task High 7)) # client_acts 0 8 @ worker_acts 0 8 @
     LStart 0 OpWait # client_acts 0 1"

definition destroy_trace :: "label list" where
  "destroy_trace = idle_trace @ client_acts 0 2 @
     LStart 0 OpDestroy # client_acts 0 2 @ worker_acts 0 9 @ client_acts 0 1"

definition idle_state :: sys where
  "idle_state = the (sample_run 1 1 1 idle_trace)"

definition destroyed_state :: sys where
  "destroyed_state = the (sample_run 1 1 1 destroy_trace)"

lemma idle_run: "sample_run 1 1 1 idle_trace = Some idle_state"
proof -
  have "sample_run 1 1 1 idle_trace \<noteq> None" by code_simp
  then show ?thesis by (auto simp: idle_state_def)
qed

lemma destroy_run: "sample_run 1 1 1 destroy_trace = Some destroyed_state"
proof -
  have "sample_run 1 1 1 destroy_trace \<noteq> None" by code_simp
  then show ?thesis by (auto simp: destroyed_state_def)
qed

lemma idle_state_real: "reachable_real half_deque fifo_sync 1 idle_state"
  by (rule sample_run_real [OF idle_run]) simp_all

lemma destroyed_state_real: "reachable_real half_deque fifo_sync 1 destroyed_state"
  by (rule sample_run_real [OF destroy_run]) simp_all

text \<open>All tasks published so far have been called once the pending ones are gone.\<close>

lemma drained_all_called:
  assumes "deque_ok dq" and "reachable_real dq sy capacity s" and "committed s = 0"
  shows "mset (calls (sys_world s)) = image_mset task_execute (mset (sys_published s))"
  using reachable_conserved [OF assms(1) reachable_real_reachable [OF assms(2)]]
    committed_0_pending [OF assms(3)]
  by (simp add: conserved_def)

lemma worker_done_drained:
  assumes "deque_ok dq" and "reachable_real dq sy capacity s"
    and "wk \<in> set (sys_workers s)" and "wk_pc wk = WDone"
  shows "ws_shutdown (sys_shared s) \<and> committed s = 0"
  using reachable_drained [OF assms(1,2)] assms(3,4) unfolding drained_def by force

text \<open>
  Property C5. Graceful shutdown drains: in every interleaving, when some worker
  has left its loop, shutdown has been requested, no task is queued or held by any
  worker, and the calls made are exactly the tasks that were accepted.
\<close>

theorem worker_exits_only_after_draining:
  assumes "deque_ok dq" and "reachable_real dq sy capacity s"
    and "wk \<in> set (sys_workers s)" and "wk_pc wk = WDone"
  shows "ws_shutdown (sys_shared s) \<and> pending s = {#} \<and>
    mset (calls (sys_world s)) = image_mset task_execute (mset (sys_published s))"
  using worker_done_drained [OF assms] drained_all_called [OF assms(1,2)] committed_0_pending by blast

theorem worker_exits_only_after_draining_witness:
  "map wk_pc (sys_workers destroyed_state) = [WDone] \<and> pending destroyed_state = {#} \<and>
   mset (calls (sys_world destroyed_state)) = {#(7, 0)#}"
proof -
  have pcs: "map wk_pc (sys_workers destroyed_state) = [WDone]" by code_simp
  then obtain wk where "wk \<in> set (sys_workers destroyed_state)" "wk_pc wk = WDone" by auto
  moreover have "map task_execute (sys_published destroyed_state) = [(7, 0)]" by code_simp
  ultimately show ?thesis
    using worker_exits_only_after_draining [OF half_deque_ok destroyed_state_real] pcs
    by (auto simp flip: mset_map)
qed

text \<open>
  Once some worker has left its loop no submission can be accepted any
  more: no action of any thread publishes a further task.
\<close>

lemma no_task_accepted_after_worker_exit:
  assumes "deque_ok dq" and "reachable_real dq sy capacity s"
    and "wk \<in> set (sys_workers s)" and "wk_pc wk = WDone"
    and "sys_step dq sy capacity l s = Some s'"
  shows "sys_published s' = sys_published s"
  using assms(5)
proof (cases rule: sys_step_cases)
  case (Client j sp pc w)
  have "publishes (sys_clients s ! j) = []"
    using worker_done_drained [OF assms(1-4)] Client(2) by (simp add: committed_0_iff)
  with Client(4) show ?thesis by simp
qed simp_all

text \<open>
  Property C4. \<open>Drop\<close> for the scheduler returns only when every worker thread has
  terminated and every accepted task has been executed exactly once.
\<close>

theorem destroy_executes_every_task:
  assumes "deque_ok dq" and "reachable_real dq sy capacity s" and "CDestroyed \<in> set (sys_clients s)"
  shows "all_joined s \<and> mset (calls (sys_world s)) = image_mset task_execute (mset (sys_published s))"
proof -
  have joined: "all_joined s" "sys_workers s \<noteq> []"
    using reachable_join_complete [OF reachable_real_reachable [OF assms(2)]] assms(3)
    by (simp_all add: join_complete_def)
  then have "hd (sys_workers s) \<in> set (sys_workers s)" "wk_pc (hd (sys_workers s)) = WDone"
    by (auto simp: all_joined_def list_all_iff)
  from joined drained_all_called [OF assms(1,2)] worker_done_drained [OF assms(1,2) this] show ?thesis by simp
qed

theorem destroy_executes_every_task_witness:
  "sys_clients destroyed_state = [CDestroyed] \<and> all_joined destroyed_state \<and>
   mset (calls (sys_world destroyed_state)) = {#(7, 0)#}"
proof -
  have "sys_clients destroyed_state = [CDestroyed]" by code_simp
  moreover have "map task_execute (sys_published destroyed_state) = [(7, 0)]" by code_simp
  ultimately show ?thesis
    using destroy_executes_every_task [OF half_deque_ok destroyed_state_real] by (auto simp flip: mset_map)
qed

text \<open>
  Property C6. \<open>Scheduler::wait\<close> leaves its loop only at a moment at which no task is
  outstanding: no submission holds a slot, the queues are empty, no worker holds or
  executes a task, and every accepted task has been called.
\<close>

theorem wait_returns_only_when_idle:
  assumes "deque_ok dq" and "reachable_real dq sy capacity s"
    and "sys_step dq sy capacity (LClient j spurious) s = Some s'"
    and "sys_clients s ! j = CWait WaitCheck" and "sys_clients s' ! j = CWait WaitUnlock"
  shows "outstanding s = 0 \<and>
    mset (calls (sys_world s)) = image_mset task_execute (mset (sys_published s))"
proof -
  have "ws_tasks_in_flight (sys_shared s) = 0"
    using assms(3-5) by (auto simp: sched_wait_step_def split: if_splits)
  with realistic_idle [OF reachable_real_realistic [OF assms(2)]
      reachable_accounted [OF assms(1) reachable_real_reachable [OF assms(2)]]]
  have "outstanding s = 0" by simp
  with drained_all_called [OF assms(1,2)] committed_le_outstanding [of s] show ?thesis by simp
qed

theorem wait_returns_only_when_idle_witness:
  "sys_clients idle_state = [CWait WaitCheck] \<and> outstanding idle_state = 0 \<and>
   mset (calls (sys_world idle_state)) = {#(7, 0)#}"
proof -
  have pc: "sys_clients idle_state = [CWait WaitCheck]" by code_simp
  have "map_option sys_clients (sys_step half_deque fifo_sync 1 (LClient 0 False) idle_state) =
      Some [CWait WaitUnlock]" by code_simp
  then obtain s' where "sys_step half_deque fifo_sync 1 (LClient 0 False) idle_state = Some s'"
    "sys_clients s' = [CWait WaitUnlock]" by blast
  moreover have "map task_execute (sys_published idle_state) = [(7, 0)]" by code_simp
  ultimately show ?thesis
    using wait_returns_only_when_idle [OF half_deque_ok idle_state_real, of 0 False s'] pc
    by (auto simp flip: mset_map)
qed

text \<open>
  Property C24. With a capacity the counters cannot wrap: every execution of a
  scheduler whose capacity, workers and clients together number fewer than
  \<open>2 ^ 64\<close> stays within the machine, so the properties above need no assumption on
  its runs.
\<close>

theorem bounded_scheduler_never_overflows:
  assumes "deque_ok dq" and "capacity \<noteq> 0" and "0 < n" and "n \<le> 2 ^ 63"
    and "unat capacity + n + c < 2 ^ 64" and "run (sys_step dq sy capacity) ls (sys_new n c) = Some s"
  shows "reachable_real dq sy capacity s \<and> unat (ws_tasks_in_flight (sys_shared s)) = outstanding s"
proof -
  have real: "reachable_real dq sy capacity s"
    by (rule bounded_run_real [OF assms(1,2) _ sys_new_real assms(6)]) (use assms(3-5) in simp_all)
  then have "outstanding s < 2 ^ 64"
    using reachable_real_realistic [of dq sy capacity s] by (simp add: realistic_def)
  with real reachable_accounted [OF assms(1) reachable_real_reachable [OF real]] show ?thesis
    by (simp add: accounted_def unat_of_nat_64)
qed

theorem bounded_scheduler_never_overflows_witness:
  "reachable_real half_deque fifo_sync 1 idle_state \<and>
   unat (ws_tasks_in_flight (sys_shared idle_state)) = outstanding idle_state"
  by (rule bounded_scheduler_never_overflows [OF half_deque_ok _ _ _ _ idle_run [unfolded sample_run_def]])
    simp_all

end
