(* ===== verification/Construction.thy ===== *)
theory Construction
  imports Shutdown
begin

text \<open>
  Construction of a scheduler, \<open>Scheduler::create\<close>.  Every state of the construction
  machine is read as a state of the interleaved system: threads not spawned yet have
  not moved, and the creating thread is a client that, after a failed spawn, does what
  destruction does.  Hence the invariants of the system hold during construction, and
  what a successful construction leaves behind is a reachable state of the system.
\<close>

section \<open>Construction as a run of the system\<close>

fun creator_client :: "create_pc \<Rightarrow> client_pc" where
  "creator_client (CrSpawn i) = CIdle"
| "creator_client CrStore = CDestroyStore"
| "creator_client CrNotify = CDestroyNotify"
| "creator_client (CrJoin k) = CJoin"
| "creator_client (CrReturn (Inl e)) = CJoin"
| "creator_client (CrReturn (Inr u)) = CIdle"

definition sys_of :: "nat \<Rightarrow> nat \<Rightarrow> creation \<Rightarrow> sys" where
  "sys_of n c x =
     \<lparr>sys_world = cr_world x,
      sys_workers = map sp_worker (cr_workers x) @
        map (\<lambda>i. worker_start (of_nat i) (of_nat n)) [length (cr_workers x)..<n],
      sys_clients = creator_client (cr_pc x) # replicate c CIdle, sys_published = []\<rparr>"

lemma sys_of_sel [simp]:
  "sys_world (sys_of n c x) = cr_world x"
  "sys_clients (sys_of n c x) = creator_client (cr_pc x) # replicate c CIdle"
  "sys_published (sys_of n c x) = []"
  "length (cr_workers x) \<le> n \<Longrightarrow> length (sys_workers (sys_of n c x)) = n"
  by (simp_all add: sys_of_def)

lemma sys_of_pc:
  "creator_client pc = creator_client (cr_pc x) \<Longrightarrow> sys_of n c (x\<lparr>cr_pc := pc\<rparr>) = sys_of n c x"
  by (simp add: sys_of_def)

lemma sys_of_new:
  assumes "0 < n" and "n < 2 ^ 64"
  shows "sys_of n c (creation_new (of_nat n)) = sys_new n (Suc c)"
  by (simp add: sys_of_def creation_new_def sys_new_def world_new_def)

lemma sys_of_spawn:
  assumes "length (cr_workers x) < n" and "cr_pc x = CrSpawn k"
  shows "sys_of n c (x\<lparr>cr_pc := CrSpawn k',
      cr_workers := cr_workers x @ [spawn_worker tp pin (of_nat n) (length (cr_workers x))]\<rparr>) = sys_of n c x"
  using assms by (simp add: sys_of_def spawn_worker_def Let_def upt_conv_Cons)

lemma sys_of_thread:
  assumes "threads_step dq sy i (cr_workers x, cr_world x) = Some (ts, w)"
  shows "sys_step dq sy cap (LWorker i) (sys_of n c x) = Some (sys_of n c (x\<lparr>cr_workers := ts, cr_world := w\<rparr>))"
  using assms
  by (auto simp: threads_step_def sys_of_def nth_append list_update_append map_update split: if_splits)

text \<open>
  What holds at every point of a construction with \<open>n\<close> workers: how far the spawn loop
  got and why it ended, when the shutdown flag is set, and which threads are joined.
\<close>

fun create_pc_ok :: "(nat \<Rightarrow> bool) \<Rightarrow> nat \<Rightarrow> spawned list \<Rightarrow> bool \<Rightarrow> create_pc \<Rightarrow> bool" where
  "create_pc_ok spawn_ok n ts stop (CrSpawn k) = (k = length ts \<and> \<not> stop)"
| "create_pc_ok spawn_ok n ts stop CrStore = (length ts < n \<and> \<not> spawn_ok (length ts) \<and> \<not> stop)"
| "create_pc_ok spawn_ok n ts stop CrNotify = (length ts < n \<and> \<not> spawn_ok (length ts) \<and> stop)"
| "create_pc_ok spawn_ok n ts stop (CrJoin k) =
     (length ts < n \<and> \<not> spawn_ok (length ts) \<and> stop \<and> list_all terminated (take k ts))"
| "create_pc_ok spawn_ok n ts stop (CrReturn (Inl e)) =
     (length ts < n \<and> \<not> spawn_ok (length ts) \<and> stop \<and> list_all terminated ts \<and> e = WorkerCreationFailed)"
| "create_pc_ok spawn_ok n ts stop (CrReturn (Inr u)) = (length ts = n \<and> \<not> stop)"

definition creation_ok :: "deque_api \<Rightarrow> sync_api \<Rightarrow> usize \<Rightarrow> (nat \<Rightarrow> bool) \<Rightarrow> nat \<Rightarrow> nat \<Rightarrow> creation \<Rightarrow> bool" where
  "creation_ok dq sy cap spawn_ok n c x \<longleftrightarrow>
     reachable dq sy cap (sys_of n c x) \<and> outstanding (sys_of n c x) = 0 \<and>
     length (cr_workers x) \<le> n \<and> list_all spawn_ok [0..<length (cr_workers x)] \<and>
     create_pc_ok spawn_ok n (cr_workers x) (ws_shutdown (shared (cr_world x))) (cr_pc x)"

lemma sys_step_reachable:
  "reachable dq sy cap s \<Longrightarrow> sys_step dq sy cap l s = Some s' \<Longrightarrow> reachable dq sy cap s'"
  unfolding reachable_def by (rule reach_step) simp_all

lemma creation_new_ok:
  assumes "0 < n" and "n \<le> 2 ^ 63"
  shows "creation_ok dq sy cap spawn_ok n c (creation_new (of_nat n))"
proof -
  have "reachable dq sy cap (sys_new n (Suc c))"
    unfolding reachable_def using assms by (intro reach_init) (auto simp: sys_init_def)
  moreover have "sys_of n c (creation_new (of_nat n)) = sys_new n (Suc c)"
    using assms by (intro sys_of_new) simp_all
  ultimately show ?thesis
    by (simp add: creation_ok_def) (simp add: creation_new_def worker_shared_new_def)
qed

lemma outstanding_worker_step:
  assumes "deque_ok dq" and "sys_shape s" and "sys_step dq sy cap (LWorker i) s = Some s'"
  shows "outstanding s' \<le> outstanding s"
  using assms(3)
proof (cases rule: sys_step_cases)
  case (Worker j wk w)
  have me: "j < length (q_locals (ws_queues (sys_shared s)))"
    using assms(2) Worker(2) by (simp add: sys_shape_def)
  obtain d where "worker_load (sys_workers s ! j) (sys_world s) = worker_load wk w + d"
    by (rule worker_step_load [OF assms(1) me Worker(3)])
  with outstanding_worker_update [OF Worker(2), where w = w and wk = wk] Worker(4) show ?thesis by simp
qed simp_all

lemma threads_step_frame:
  assumes "threads_step dq sy i (ts, w) = Some (ts', w')"
  shows "length ts' = length ts" and "ws_shutdown (shared w') = ws_shutdown (shared w)"
    and "list_all terminated (take k ts) \<Longrightarrow> list_all terminated (take k ts')"
proof -
  obtain wk where i: "i < length ts" and step: "worker_step dq sy i (sp_worker (ts ! i)) w = Some (wk, w')"
    and ts': "ts' = ts[i := (ts ! i)\<lparr>sp_worker := wk\<rparr>]"
    using assms by (auto simp: threads_step_def split: if_splits)
  show "length ts' = length ts" by (simp add: ts')
  show "ws_shutdown (shared w') = ws_shutdown (shared w)" by (rule worker_step_shutdown [OF step])
  have live: "\<not> terminated (ts ! i)" using step by (auto simp: terminated_def worker_step_def)
  show "list_all terminated (take k ts')" if "list_all terminated (take k ts)"
  proof -
    have "k \<le> i"
      using that live i by (auto simp: list_all_length not_le)
    with that show ?thesis by (simp add: ts')
  qed
qed

lemma creation_thread_step:
  assumes dq: "deque_ok dq" and ok: "creation_ok dq sy cap spawn_ok n c x"
    and step: "threads_step dq sy i (cr_workers x, cr_world x) = Some (ts, w)"
  shows "creation_ok dq sy cap spawn_ok n c (x\<lparr>cr_workers := ts, cr_world := w\<rparr>)"
proof -
  let ?y = "x\<lparr>cr_workers := ts, cr_world := w\<rparr>"
  note sys = sys_of_thread [OF step, of cap n c]
  have r: "reachable dq sy cap (sys_of n c x)" using ok by (simp add: creation_ok_def)
  then have r': "reachable dq sy cap (sys_of n c ?y)" using sys by (rule sys_step_reachable)
  have out: "outstanding (sys_of n c ?y) = 0"
    using outstanding_worker_step [OF dq reachable_shape [OF dq r] sys] ok by (simp add: creation_ok_def)
  note frame = threads_step_frame [OF step]
  have "create_pc_ok spawn_ok n ts (ws_shutdown (shared w)) pc"
    if "create_pc_ok spawn_ok n (cr_workers x) (ws_shutdown (shared (cr_world x))) pc" for pc
    using that frame(1,2) frame(3) frame(3) [of "length ts"] by (cases pc rule: creator_client.cases) auto
  with ok frame(1) r' out show ?thesis by (simp add: creation_ok_def)
qed

lemma creation_client_step:
  assumes "reachable dq sy cap (sys_of n c x)" and "outstanding (sys_of n c x) = 0"
    and "client_step dq sy cap 0 False j (creator_client (cr_pc x)) (cr_world x) =
      Some (creator_client pc, w)" and "j = all_joined (sys_of n c x)"
    and "ws_queues (shared w) = ws_queues (shared (cr_world x))"
    and "publishes (creator_client (cr_pc x)) = []"
    and "client_slot (creator_client pc) = 0"
  shows "reachable dq sy cap (sys_of n c (x\<lparr>cr_pc := pc, cr_world := w\<rparr>)) \<and>
    outstanding (sys_of n c (x\<lparr>cr_pc := pc, cr_world := w\<rparr>)) = 0"
proof
  let ?y = "x\<lparr>cr_pc := pc, cr_world := w\<rparr>"
  have "sys_step dq sy cap (LClient 0 False) (sys_of n c x) = Some (sys_of n c ?y)"
    using assms(3,4,6) by (simp add: sys_of_def)
  with assms(1) show "reachable dq sy cap (sys_of n c ?y)" by (rule sys_step_reachable)
  show "outstanding (sys_of n c ?y) = 0"
    using assms(2,5,7) by (simp add: outstanding_def) (simp add: sys_of_def)
qed

lemma creation_start_destroy:
  assumes "reachable dq sy cap (sys_of n c x)" and "outstanding (sys_of n c x) = 0"
    and "cr_pc x = CrSpawn k"
  shows "reachable dq sy cap (sys_of n c (x\<lparr>cr_pc := CrStore\<rparr>)) \<and>
    outstanding (sys_of n c (x\<lparr>cr_pc := CrStore\<rparr>)) = 0"
proof
  let ?y = "x\<lparr>cr_pc := CrStore\<rparr>"
  have "may_start (sys_of n c x) 0 OpDestroy"
    using assms(3) by (simp add: may_start_def list_all_iff)
  then have "sys_step dq sy cap (LStart 0 OpDestroy) (sys_of n c x) = Some (sys_of n c ?y)"
    using assms(3) by (simp add: sys_of_def)
  with assms(1) show "reachable dq sy cap (sys_of n c ?y)" by (rule sys_step_reachable)
  show "outstanding (sys_of n c ?y) = 0"
    using assms(2,3) by (simp add: outstanding_def) (simp add: sys_of_def)
qed

lemma creation_creator_step:
  assumes dq: "deque_ok dq" and ok: "creation_ok dq sy cap spawn_ok n c x"
    and step: "creator_step sy spawn_ok tp pin (cr_pc x) x = Some y"
  shows "creation_ok dq sy cap spawn_ok n c y"
proof -
  have r: "reachable dq sy cap (sys_of n c x)" and out: "outstanding (sys_of n c x) = 0"
    using ok by (simp_all add: creation_ok_def)
  have len: "length (q_locals (ws_queues (shared (cr_world x)))) = n"
    using reachable_shape [OF dq r] ok by (simp add: sys_shape_def creation_ok_def)
  show ?thesis
  proof (cases "cr_pc x")
    case (CrSpawn k)
    show ?thesis
    proof (cases "k < n \<and> spawn_ok k")
      case True
      have k: "k = length (cr_workers x)" using ok CrSpawn by (simp add: creation_ok_def)
      have y: "y = x\<lparr>cr_pc := CrSpawn (Suc k),
          cr_workers := cr_workers x @ [spawn_worker tp pin (of_nat n) (length (cr_workers x))]\<rparr>"
        using step CrSpawn len k True by (simp add: queue_worker_count_def)
      have "sys_of n c y = sys_of n c x"
        unfolding y by (rule sys_of_spawn [OF _ CrSpawn]) (use True k in simp)
      with ok CrSpawn True k show ?thesis by (simp add: creation_ok_def y)
    next
      case False
      show ?thesis
      proof (cases "k < n")
        case True
        with False step CrSpawn len have "y = x\<lparr>cr_pc := CrStore\<rparr>" by simp
        with True False ok CrSpawn creation_start_destroy [OF r out CrSpawn] show ?thesis
          by (simp add: creation_ok_def)
      next
        case full: False
        with step CrSpawn len have "y = x\<lparr>cr_pc := CrReturn (Inr ())\<rparr>" by simp
        with full ok CrSpawn show ?thesis by (auto simp: creation_ok_def sys_of_pc)
      qed
    qed
  next
    case CrStore
    with step ok creation_client_step [OF r out, where pc = CrNotify and
        w = "(cr_world x)\<lparr>shared := store_shutdown (shared (cr_world x))\<rparr>"]
    show ?thesis by (auto simp: creation_ok_def with_shared_def store_shutdown_def)
  next
    case CrNotify
    with step ok creation_client_step [OF r out, where pc = "CrJoin 0" and
        w = "(cr_world x)\<lparr>shared := shared_notify_all sy (shared (cr_world x))\<rparr>"]
    show ?thesis by (auto simp: creation_ok_def with_shared_def shared_notify_all_def)
  next
    case (CrJoin k)
    with step ok show ?thesis
      by (auto simp: creation_ok_def sys_of_pc take_Suc_conv_app_nth split: if_splits)
  next
    case (CrReturn r)
    with step show ?thesis by simp
  qed
qed

lemma creation_step_ok:
  assumes "deque_ok dq" and "creation_ok dq sy cap spawn_ok n c x"
    and "create_step dq sy spawn_ok tp pin l x = Some y"
  shows "creation_ok dq sy cap spawn_ok n c y"
  using assms by (cases l) (auto intro: creation_creator_step creation_thread_step)

lemma creation_run_ok:
  assumes "deque_ok dq" and "creation_ok dq sy cap spawn_ok n c x"
  shows "creation_ok dq sy cap spawn_ok n c (create_run (create_step dq sy spawn_ok tp pin) ls x)"
  using assms(2)
  by (induction ls arbitrary: x)
    (auto intro: creation_step_ok [OF assms(1)] split: create_pc.splits option.splits)

section \<open>Returning and hanging\<close>

lemma create_run_returned [simp]: "cr_pc x = CrReturn r \<Longrightarrow> create_run step ls x = x"
  by (cases ls) simp_all



text \<open>
  When every thread can be created the constructor does not wait for anything: it
  returns after one action per worker and one more, whatever the workers do meanwhile.
\<close>

lemma create_run_returns:
  assumes dq: "deque_ok dq" and ok: "creation_ok dq sy cap spawn_ok n c x" and "cr_pc x = CrSpawn k"
    and all: "list_all spawn_ok [0..<n]" and "n < k + count_list ls Creator"
  shows "cr_pc (create_run (create_step dq sy spawn_ok tp pin) ls x) = CrReturn (Inr ())"
  using assms(2,3,5)
proof (induction ls arbitrary: x k)
  case Nil
  then show ?case by (simp add: creation_ok_def)
next
  case (Cons l ls)
  let ?step = "create_step dq sy spawn_ok tp pin"
  note ok' = creation_step_ok [OF dq Cons.prems(1), of tp pin l]
  show ?case
  proof (cases l)
    case Creator
    have len: "length (q_locals (ws_queues (shared (cr_world x)))) = n"
      using reachable_shape [OF dq, of sy cap "sys_of n c x"] Cons.prems(1)
      by (simp add: sys_shape_def creation_ok_def)
    show ?thesis
    proof (cases "k < n")
      case True
      with all have "spawn_ok k" by (simp add: list_all_iff)
      with True len Cons.prems(2) obtain y where y: "?step l x = Some y" "cr_pc y = CrSpawn (Suc k)"
        by (simp add: Creator)
      from Cons.IH [OF ok' [OF y(1)] y(2)] Cons.prems(2,3) y(1) Creator show ?thesis by simp
    qed (use len Cons.prems(2) Creator in simp)
  next
    case (Started i)
    show ?thesis
    proof (cases "?step l x")
      case None
      with Cons Started show ?thesis by simp
    next
      case (Some y)
      then have "cr_pc y = CrSpawn k" using Started Cons.prems(2) by auto
      moreover have "n < k + count_list ls Creator" using Cons.prems(3) Started by simp
      ultimately show ?thesis using Cons.IH [OF ok' [OF Some]] Cons.prems(2) by (simp add: Some)
    qed
  qed
qed

lemma creation_ok_calls:
  assumes "deque_ok dq" and "creation_ok dq sy cap spawn_ok n c x"
  shows "calls (cr_world x) = []" and "ws_tasks_in_flight (shared (cr_world x)) = 0"
proof -
  have r: "reachable dq sy cap (sys_of n c x)" and out: "outstanding (sys_of n c x) = 0"
    using assms(2) by (simp_all add: creation_ok_def)
  from reachable_conserved [OF assms(1) r] show "calls (cr_world x) = []" by (simp add: conserved_def)
  from reachable_accounted [OF assms(1) r] out show "ws_tasks_in_flight (shared (cr_world x)) = 0"
    by (simp add: accounted_def)
qed

section \<open>The outcomes of a construction\<close>

text \<open>
  The system a successful construction leaves behind, seen by \<open>c\<close> clients: the threads
  where they are, the shared state, and nothing submitted or called.
\<close>

definition constructed_sys :: "scheduler \<Rightarrow> world \<Rightarrow> nat \<Rightarrow> sys" where
  "constructed_sys sc w c = \<lparr>sys_world = w, sys_workers = map sp_worker (sc_workers sc),
     sys_clients = replicate c CIdle, sys_published = []\<rparr>"

lemma create_outcome:
  assumes "deque_ok dq"
  shows "case create dq sy os worker_count tp pin capacity of
      Undefined \<Rightarrow> False
    | Aborts \<Rightarrow> \<not> with_capacity_ok os (max worker_count 1)
    | Blocks \<Rightarrow> with_capacity_ok os (max worker_count 1) \<and>
        (\<not> list_all (os_spawn os) [0..<unat (max worker_count 1)] \<or>
         count_list (os_schedule os) Creator \<le> unat (max worker_count 1))
    | Returns (Inl e, ws) \<Rightarrow> e = WorkerCreationFailed \<and>
        \<not> list_all (os_spawn os) [0..<unat (max worker_count 1)] \<and>
        ws_shutdown ws \<and> ws_tasks_in_flight ws = 0
    | Returns (Inr sc, ws) \<Rightarrow> list_all (os_spawn os) [0..<unat (max worker_count 1)] \<and>
        \<not> ws_shutdown ws \<and> ws_tasks_in_flight ws = 0 \<and>
        length (sc_workers sc) = unat (max worker_count 1) \<and> sc_worker_count sc = max worker_count 1 \<and>
        sc_topology sc = tp \<and> sc_pin_workers sc = pin \<and> sc_queue_capacity sc = capacity \<and>
        (\<exists>w. shared w = ws \<and> calls w = [] \<and>
           reachable dq sy capacity (constructed_sys sc w (Suc c)))"
proof (cases "with_capacity_ok os (max worker_count 1)")
  case False
  then show ?thesis by (simp add: create_def)
next
  case True
  define n where "n = unat (max worker_count 1)"
  define x where "x = create_run (create_step dq sy (os_spawn os) tp pin) (os_schedule os)
    (creation_new (max worker_count 1))"
  have n: "0 < n" "n \<le> 2 ^ 63" and w: "max worker_count 1 = of_nat n"
    using True by (auto simp: with_capacity_ok_def n_def max_def word_le_nat_alt unat_gt_0)
  have init: "creation_ok dq sy capacity (os_spawn os) n c (creation_new (max worker_count 1))"
    unfolding w by (rule creation_new_ok [OF n])
  have ok: "creation_ok dq sy capacity (os_spawn os) n c x"
    unfolding x_def by (rule creation_run_ok [OF assms init])
  have returns: "cr_pc x = CrReturn (Inr ())"
    if "list_all (os_spawn os) [0..<n]" "n < count_list (os_schedule os) Creator"
    unfolding x_def
    by (rule create_run_returns [OF assms init _ that(1)]) (use that(2) in \<open>simp_all add: creation_new_def\<close>)
  note facts = ok creation_ok_calls [OF assms ok]
  have cr: "create dq sy os worker_count tp pin capacity = (case cr_pc x of
      CrReturn (Inl e) \<Rightarrow> Returns (Inl e, shared (cr_world x))
    | CrReturn (Inr u) \<Rightarrow>
        Returns (Inr \<lparr>sc_workers = cr_workers x, sc_worker_count = max worker_count 1, sc_topology = tp,
          sc_pin_workers = pin, sc_queue_capacity = capacity\<rparr>, shared (cr_world x))
    | _ \<Rightarrow> Blocks)"
    using True by (simp add: create_def Let_def flip: x_def)
  show ?thesis
  proof (cases "cr_pc x" rule: creator_client.cases)
    case (5 e)
    with facts cr show ?thesis
      by (auto simp: creation_ok_def list_all_iff simp flip: n_def)
  next
    case (6 u)
    with facts have "sys_of n c x = constructed_sys
        \<lparr>sc_workers = cr_workers x, sc_worker_count = max worker_count 1, sc_topology = tp,
          sc_pin_workers = pin, sc_queue_capacity = capacity\<rparr> (cr_world x) (Suc c)"
      by (simp add: creation_ok_def sys_of_def constructed_sys_def)
    with 6 facts cr show ?thesis
      by (auto simp: creation_ok_def simp flip: n_def intro!: exI [of _ "cr_world x"])
  qed (use returns cr True in \<open>auto simp flip: n_def not_less\<close>)
qed

lemma create_succeeds:
  assumes "deque_ok dq" and "with_capacity_ok os (max worker_count 1)"
    and "list_all (os_spawn os) [0..<unat (max worker_count 1)]"
    and "unat (max worker_count 1) < count_list (os_schedule os) Creator"
  obtains sc ws where "create dq sy os worker_count tp pin capacity = Returns (Inr sc, ws)"
proof (cases "create dq sy os worker_count tp pin capacity")
  case (Returns p)
  obtain r ws where "p = (r, ws)" by fastforce
  with Returns create_outcome [OF assms(1), where os = os and sy = sy and worker_count = worker_count and
      tp = tp and pin = pin and capacity = capacity] assms(3) that show thesis
    by (cases r) auto
qed (use create_outcome [OF assms(1), where os = os and sy = sy and worker_count = worker_count and
      tp = tp and pin = pin and capacity = capacity] assms in auto)

section \<open>Destruction\<close>

text \<open>
  Joining the workers of a running system after a shutdown: if the join completes under
  some schedule, every task accepted by the system has been executed.
\<close>

lemma real_step:
  "reachable_real dq sy cap s \<Longrightarrow> sys_step dq sy cap l s = Some s' \<Longrightarrow> realistic s' \<Longrightarrow>
     reachable_real dq sy cap s'"
  unfolding reachable_real_def by (rule reach_step)

lemma threads_step_real:
  assumes "deque_ok dq" and "reachable_real dq sy cap s" and "sys_workers s = map sp_worker ts"
    and "threads_step dq sy i (ts, sys_world s) = Some (ts', w)"
  shows "reachable_real dq sy cap (s\<lparr>sys_world := w, sys_workers := map sp_worker ts'\<rparr>)"
proof -
  let ?s = "s\<lparr>sys_world := w, sys_workers := map sp_worker ts'\<rparr>"
  have step: "sys_step dq sy cap (LWorker i) s = Some ?s"
    using assms(3,4) by (auto simp: threads_step_def map_update split: if_splits)
  have "outstanding ?s \<le> outstanding s"
    by (rule outstanding_worker_step [OF assms(1) _ step])
      (rule reachable_shape [OF assms(1) reachable_real_reachable [OF assms(2)]])
  moreover have "length ts' = length ts" by (rule threads_step_frame(1) [OF assms(4)])
  ultimately have "realistic ?s"
    using reachable_real_realistic [OF assms(2)] assms(3) by (simp add: realistic_def)
  with assms(2) step show ?thesis by (rule real_step)
qed

lemma threads_run_real:
  assumes "deque_ok dq" and "reachable_real dq sy cap s" and "sys_workers s = map sp_worker ts"
    and "threads_run dq sy schedule (ts, sys_world s) = (ts', w)"
  shows "reachable_real dq sy cap (s\<lparr>sys_world := w, sys_workers := map sp_worker ts'\<rparr>)"
  using assms(2-4)
proof (induction schedule arbitrary: s ts)
  case Nil
  then have eq: "ts' = ts" "w = sys_world s" by simp_all
  have "s\<lparr>sys_world := w, sys_workers := map sp_worker ts'\<rparr> = s"
    unfolding eq Nil(2) [symmetric] by simp
  with Nil(1) show ?case by simp
next
  case (Cons i schedule)
  show ?case
  proof (cases "threads_step dq sy i (ts, sys_world s)")
    case None
    with Cons show ?thesis by simp
  next
    case (Some p)
    obtain ts1 w1 where p: "p = (ts1, w1)" by fastforce
    from Cons.IH [OF threads_step_real [OF assms(1) Cons.prems(1,2)], of i ts1 w1 ts1] Some p Cons.prems(3)
    show ?thesis by simp
  qed
qed

lemma threads_run_length: "length (fst (threads_run dq sy schedule s)) = length (fst s)"
proof (induction schedule arbitrary: s)
  case (Cons i schedule)
  obtain ts w where s: "s = (ts, w)" by fastforce
  show ?case
  proof (cases "threads_step dq sy i s")
    case (Some p)
    then obtain ts' w' where p: "p = (ts', w')" "threads_step dq sy i (ts, w) = Some (ts', w')"
      using s by (cases p) simp
    from Cons.IH [of p] threads_step_frame(1) [OF p(2)] Some p(1) s show ?thesis by simp
  qed (simp add: Cons.IH)
qed simp

lemma free_not_destroying: "client_free c \<Longrightarrow> \<not> destroying c"
  by (cases c rule: destroying.cases) simp_all

lemma shutdown_real:
  assumes "reachable_real dq sy cap s" and "j < length (sys_clients s)" and "sys_clients s ! j = CIdle"
    and "list_all client_free (sys_clients s)"
  shows "reachable_real dq sy cap
    (s\<lparr>sys_world := sched_shutdown sy (sys_world s), sys_clients := (sys_clients s)[j := CJoin]\<rparr>)"
proof -
  let ?s = "\<lambda>w pc. s\<lparr>sys_world := w, sys_clients := (sys_clients s)[j := pc]\<rparr>"
  let ?w = "with_shared store_shutdown (sys_world s)"
  have free: "list_all (\<lambda>c. \<not> destroying c) (sys_clients s)"
    using assms(4) by (auto simp: list_all_iff dest: free_not_destroying)
  have real: "realistic (?s w pc)" if "queued (ws_queues (shared w)) = sys_queued s" "client_slot pc = 0" for w pc
    using reachable_real_realistic [OF assms(1)] that assms(2,3)
      sum_list_update_add [OF assms(2), of client_slot pc]
    by (simp add: realistic_def outstanding_def)
  have "sys_step dq sy cap (LStart j OpDestroy) s = Some (?s (sys_world s) CDestroyStore)"
    using assms free by (simp add: may_start_def)
  with assms(1) have 1: "reachable_real dq sy cap (?s (sys_world s) CDestroyStore)"
    by (rule real_step) (rule real, simp_all)
  have "sys_step dq sy cap (LClient j False) (?s (sys_world s) CDestroyStore) = Some (?s ?w CDestroyNotify)"
    using assms(2) by simp
  with 1 have 2: "reachable_real dq sy cap (?s ?w CDestroyNotify)"
    by (rule real_step) (rule real, simp_all add: with_shared_def store_shutdown_def)
  have "sys_step dq sy cap (LClient j False) (?s ?w CDestroyNotify) =
      Some (?s (sched_shutdown sy (sys_world s)) CJoin)"
    using assms(2) by (simp add: sched_shutdown_def begin_shutdown_def with_shared_def)
  with 2 show ?thesis
    by (rule real_step) (rule real, simp_all add: sched_shutdown_def begin_shutdown_def with_shared_def
        store_shutdown_def shared_notify_all_def)
qed

lemma join_workers_drains:
  assumes dq: "deque_ok dq" and s: "reachable_real dq sy cap s" and j: "j < length (sys_clients s)"
    and idle: "sys_clients s ! j = CIdle" "list_all client_free (sys_clients s)"
    and ts: "sys_workers s = map sp_worker ts" "ts \<noteq> []"
    and join: "join_workers dq sy schedule ts (sched_shutdown sy (sys_world s)) = Some w"
  shows "mset (calls w) = image_mset task_execute (mset (sys_published s))"
proof -
  obtain ts' where run: "threads_run dq sy schedule (ts, sched_shutdown sy (sys_world s)) = (ts', w)"
    and all: "list_all terminated ts'"
    using join by (auto simp: join_workers_def split: prod.splits if_splits)
  let ?s = "s\<lparr>sys_world := sched_shutdown sy (sys_world s), sys_clients := (sys_clients s)[j := CJoin]\<rparr>"
  let ?t = "?s\<lparr>sys_world := w, sys_workers := map sp_worker ts'\<rparr>"
  have t: "reachable_real dq sy cap ?t"
    by (rule threads_run_real [OF dq shutdown_real [OF s j idle], where ts = ts]) (use ts run in simp_all)
  have "ts' \<noteq> []" using threads_run_length [of dq sy schedule "(ts, sched_shutdown sy (sys_world s))"] run ts(2) by auto
  with all have "sp_worker (hd ts') \<in> set (sys_workers ?t)" "wk_pc (sp_worker (hd ts')) = WDone"
    by (auto simp: list_all_iff terminated_def)
  from drained_all_called [OF dq t] worker_done_drained [OF dq t this] show ?thesis by simp
qed

section \<open>Properties\<close>

text \<open>
  Property C34. Constructing a scheduler, in every order in which the creating thread
  and the threads already spawned may run.  It aborts exactly when the tables for the
  workers cannot be allocated.  It succeeds only if every thread could be created, and
  then the scheduler is running, idle, configured as asked, and in a reachable state of
  the interleaved system.  It fails only if some thread could not be created, and then
  shutdown has been requested and nothing is outstanding.  It has not returned by the
  end of the schedule only if some thread could not be created, so that it is joining
  the others, or if the creating thread itself had fewer than \<open>n + 1\<close> actions.
\<close>

theorem construction_outcome:
  assumes "deque_ok dq"
  shows "case create dq sy os worker_count tp pin capacity of
      Undefined \<Rightarrow> False
    | Aborts \<Rightarrow> \<not> with_capacity_ok os (max worker_count 1)
    | Blocks \<Rightarrow> with_capacity_ok os (max worker_count 1) \<and>
        (\<not> list_all (os_spawn os) [0..<unat (max worker_count 1)] \<or>
         count_list (os_schedule os) Creator \<le> unat (max worker_count 1))
    | Returns (Inl e, ws) \<Rightarrow> e = WorkerCreationFailed \<and>
        \<not> list_all (os_spawn os) [0..<unat (max worker_count 1)] \<and>
        ws_shutdown ws \<and> ws_tasks_in_flight ws = 0
    | Returns (Inr sc, ws) \<Rightarrow> list_all (os_spawn os) [0..<unat (max worker_count 1)] \<and>
        \<not> ws_shutdown ws \<and> ws_tasks_in_flight ws = 0 \<and>
        length (sc_workers sc) = unat (max worker_count 1) \<and> sc_worker_count sc = max worker_count 1 \<and>
        sc_topology sc = tp \<and> sc_pin_workers sc = pin \<and> sc_queue_capacity sc = capacity \<and>
        (\<exists>w. shared w = ws \<and> calls w = [] \<and>
           reachable dq sy capacity (constructed_sys sc w (Suc c)))"
  using assms by (rule create_outcome)

text \<open>
  Two workers, the first of which runs between the two spawns.
\<close>

definition working_os :: os_env where
  "working_os = \<lparr>os_parallelism = None, os_alloc = (\<lambda>_. True), os_spawn = (\<lambda>_. True),
     os_schedule = [Creator, Started 0, Started 0, Creator, Started 1, Creator]\<rparr>"

theorem construction_outcome_witness:
  "\<exists>sc ws w. create half_deque fifo_sync working_os 2 (detect None) True 5 = Returns (Inr sc, ws) \<and>
     length (sc_workers sc) = 2 \<and> shared w = ws \<and>
     reachable half_deque fifo_sync 5 (constructed_sys sc w 1)"
proof -
  have two: "max 2 1 = (2 :: usize)" by code_simp
  obtain sc ws where "create half_deque fifo_sync working_os 2 (detect None) True 5 = Returns (Inr sc, ws)"
    by (rule create_succeeds [OF half_deque_ok])
      (auto simp: two with_capacity_ok_def working_os_def list_all_iff)
  with construction_outcome [OF half_deque_ok, where sy = fifo_sync and os = working_os and worker_count = 2 and
      tp = "detect None" and pin = True and capacity = 5 and c = 0]
  show ?thesis by (auto simp: two)
qed





end
