(* ===== verification/Sequential.thy ===== *)
theory Sequential
  imports System
begin

text \<open>
  The machines that perform one atomic action per step implement the functions that
  run without interference: driven alone, a submission, a search, the execution of
  a task, a shutdown and the closing of a group have exactly the result and the
  effect of \<open>push_internal\<close>, \<open>pop_for_worker\<close>, \<open>execute_task\<close>, \<open>begin_shutdown\<close> and
  \<open>group_close\<close>.  The functions in turn have closed-form specifications.
\<close>

section \<open>Reserving a slot\<close>

lemma reserve_loop_current:
  "reserve_loop capacity sp (ws_tasks_in_flight ws) ws =
     (if capacity \<le> ws_tasks_in_flight ws
      then (Inl QueueFull, ws\<lparr>ws_stats := record_queue_full (ws_stats ws)\<rparr>)
      else (Inr (), in_flight_fetch_add ws))"
  by (induction sp; subst reserve_loop.simps)
    (auto simp: in_flight_cas_weak_def in_flight_fetch_add_def)

definition has_room :: "usize \<Rightarrow> worker_shared \<Rightarrow> bool" where
  "has_room capacity ws \<longleftrightarrow> capacity = 0 \<or> ws_tasks_in_flight ws < capacity"

lemma reserve_task_slot_eq:
  "reserve_task_slot capacity sp ws =
     (if has_room capacity ws then (Inr (), in_flight_fetch_add ws)
      else (Inl QueueFull, ws\<lparr>ws_stats := record_queue_full (ws_stats ws)\<rparr>))"
  by (auto simp: reserve_task_slot_def reserve_loop_current has_room_def)

section \<open>Submission\<close>

definition group_open :: "gid option \<Rightarrow> world \<Rightarrow> bool" where
  "group_open grp w \<longleftrightarrow> (\<forall>g. grp = Some g \<longrightarrow> \<not> grp_closed (groups w g))"

text \<open>The state after an accepted submission.\<close>

definition accepted :: "deque_api \<Rightarrow> sync_api \<Rightarrow> task \<Rightarrow> world \<Rightarrow> world" where
  "accepted dq sy t w =
     w\<lparr>shared := wake_one sy ((shared w)
         \<lparr>ws_tasks_in_flight := ws_tasks_in_flight (shared w) + 1,
          ws_queues := push_global dq t (ws_queues (shared w)),
          ws_stats := record_submission (ws_stats (shared w))\<rparr>),
       groups := (case tk_group t of None \<Rightarrow> groups w
         | Some g \<Rightarrow> (groups w)(g := group_fetch_add (groups w g)))\<rparr>"

lemma push_internal_eq:
  "push_internal dq sy sp sc f a p grp w =
     (if ws_shutdown (shared w) then (Inl SchedulerStopped, w)
      else if \<not> has_room (sc_queue_capacity sc) (shared w) then
        (Inl QueueFull, with_shared (\<lambda>ws. ws\<lparr>ws_stats := record_queue_full (ws_stats ws)\<rparr>) w)
      else if \<not> group_open grp w then (Inl SchedulerStopped, w)
      else (Inr (), accepted dq sy (task_new f a p grp) w))"
proof -
  have id: "w\<lparr>shared := (shared w)\<lparr>ws_tasks_in_flight := ws_tasks_in_flight (shared w)\<rparr>\<rparr> = w"
    "w\<lparr>shared := (shared w)\<lparr>ws_tasks_in_flight := ws_tasks_in_flight (shared w)\<rparr>, groups := groups w\<rparr> = w"
    by simp_all
  show ?thesis
    by (cases grp)
      (auto simp: push_internal_def reserve_task_slot_eq Let_def register_group_def add_task_def
        group_open_def accepted_def with_shared_def with_group_def in_flight_fetch_add_def
        release_task_slot_def in_flight_fetch_sub_def wake_one_def shared_notify_one_def
        group_fetch_add_def task_new_def id)
qed

text \<open>The same case distinction for the machine.\<close>

lemma group_fetch_add_closed [simp]: "grp_closed (group_fetch_add g) = grp_closed g"
  by (simp add: group_fetch_add_def)

lemma push_step_drive:
  assumes "19 \<le> n"
  shows "drive n (push_step dq sy capacity False) (QStart t) w =
     (if ws_shutdown (shared w) then (QDone (Inl SchedulerStopped), w)
      else if \<not> has_room capacity (shared w) then
        (QDone (Inl QueueFull), with_shared (\<lambda>ws. ws\<lparr>ws_stats := record_queue_full (ws_stats ws)\<rparr>) w)
      else if \<not> group_open (tk_group t) w then (QDone (Inl SchedulerStopped), w)
      else (QDone (Inr ()), accepted dq sy t w))"
proof -
  obtain k where n: "n = 19 + k" using assms le_Suc_ex by blast
  have id: "w\<lparr>shared := (shared w)\<lparr>ws_tasks_in_flight := ws_tasks_in_flight (shared w)\<rparr>\<rparr> = w" by simp
  have "drive 19 (push_step dq sy capacity False) (QStart t) w =
     (if ws_shutdown (shared w) then (QDone (Inl SchedulerStopped), w)
      else if \<not> has_room capacity (shared w) then
        (QDone (Inl QueueFull), with_shared (\<lambda>ws. ws\<lparr>ws_stats := record_queue_full (ws_stats ws)\<rparr>) w)
      else if \<not> group_open (tk_group t) w then (QDone (Inl SchedulerStopped), w)
      else (QDone (Inr ()), accepted dq sy t w))"
    by (cases "tk_group t"; cases "capacity = 0")
      (auto simp: has_room_def group_open_def register_or_check_def in_flight_cas_weak_def
        accepted_def with_shared_def with_group_def in_flight_fetch_add_def release_task_slot_def
        in_flight_fetch_sub_def wake_one_def shared_notify_one_def id)
  then show ?thesis by (simp add: n drive_add split: prod.splits)
qed

section \<open>Searching\<close>

text \<open>The search as a machine whose control state is a point of the search or its result.\<close>

definition search_step :: "deque_api \<Rightarrow> nat \<Rightarrow> pop_pc + pop_result \<Rightarrow> search_state \<Rightarrow>
    ((pop_pc + pop_result) \<times> search_state) option" where
  "search_step dq me c s = (case c of Inl pc \<Rightarrow> Some (pop_step dq me pc s) | Inr r \<Rightarrow> None)"

lemma search_step_simps [simp]:
  "search_step dq me (Inl pc) s = Some (pop_step dq me pc s)" "search_step dq me (Inr r) s = None"
  by (simp_all add: search_step_def)

lemma drive_peers:
  assumes "length vs < n"
  shows "drive n (search_step dq me) (Inl (PSteal vs)) (qs, ss, st, ps) =
    (case peer_loop dq vs qs st ps of (r, qs', st', ps') \<Rightarrow> (Inr r, qs', ss, st', ps'))"
  using assms
proof (induction vs arbitrary: n qs st ps)
  case Nil
  then show ?case by (cases n) simp_all
next
  case (Cons v vs)
  then obtain k where k: "n = Suc k" "length vs < k" by (cases n) auto
  show ?case
    by (simp add: k(1) Let_def Cons.IH [OF k(2)] split: prod.splits steal.splits)
qed

lemma drive_normal_order:
  assumes "length (fst (victims ss)) + 5 < n"
  shows "drive n (search_step dq me) (Inl PLocal) (qs, ss, st, ps) =
    (case pop_normal_order dq me qs ss st ps of (r, s) \<Rightarrow> (Inr r, s))"
proof -
  obtain k where n: "n = Suc (Suc (Suc (Suc (Suc k))))" and k: "length (fst (victims ss)) < k"
    using assms that [of "n - 5"] by arith
  show ?thesis
    using k
    by (auto simp: n pop_normal_order_def probe_def steal_from_peers_def drive_peers Let_def
        split: prod.splits option.splits)
qed

lemma drive_search:
  assumes "length (fst (victims ss)) + 8 < n"
  shows "drive n (search_step dq me) (Inl PStart) (qs, ss, st, ps) =
    (case pop_for_worker dq me qs ss st ps of (r, s) \<Rightarrow> (Inr r, s))"
proof -
  obtain k where n: "n = Suc (Suc (Suc k))" and k: "length (fst (victims ss)) + 5 < k"
    using assms that [of "n - 3"] by arith
  obtain m where m: "n = Suc m" "length (fst (victims ss)) + 5 < m"
    using assms that [of "n - 1"] by arith
  show ?thesis
  proof (cases "fairness_due ps")
    case True
    then show ?thesis
      by (simp add: n pop_for_worker_def probe_def drive_normal_order [OF k] Let_def
          split: prod.splits option.splits)
  next
    case False
    then show ?thesis
      by (simp add: m(1) pop_for_worker_def drive_normal_order [OF m(2)] split: prod.splits)
  qed
qed

section \<open>Executing a task\<close>

lemma drive_Suc: "f pc w = Some (pc', w') \<Longrightarrow> drive (Suc n) f pc w = drive n f pc' w'"
  by simp

lemma drive_execute:
  "\<exists>k \<le> 7. drive k (worker_step dq sy me) (wk\<lparr>wk_pc := WExec t\<rparr>) w =
     (wk\<lparr>wk_pc := WPop Fast PStart\<rparr>, execute_task sy t w)"
proof -
  define last where "last \<longleftrightarrow> ws_tasks_in_flight (shared w) = 1"
  define k :: nat where "k = 4 + (if last then 1 else 0) +
     (case tk_group t of None \<Rightarrow> 0
      | Some g \<Rightarrow> if grp_tasks_in_flight (groups w g) = 1 then 2 else 1)"
  have "drive k (worker_step dq sy me) (wk\<lparr>wk_pc := WExec t\<rparr>) w =
     (wk\<lparr>wk_pc := WPop Fast PStart\<rparr>, execute_task sy t w)"
    by (cases "tk_group t"; cases last)
      (auto simp: k_def last_def worker_step_def execute_task_def take_group_def task_execute_def Let_def
        shared_task_completed_def in_flight_fetch_sub_def group_or_next_def group_task_completed_def
        group_fetch_sub_def numeral_eq_Suc)
  moreover have "k \<le> 7" by (auto simp: k_def split: option.split)
  ultimately show ?thesis by blast
qed

section \<open>Waiting\<close>

lemma sched_wait_eq:
  assumes "sync_ok sy" and "ws_sleep_lock (shared w) = None"
  shows "sched_wait sy t w = (if ws_tasks_in_flight (shared w) = 0 then Some (Inr (), w) else None)"
proof -
  have "w\<lparr>shared := (shared w)\<lparr>ws_sleep_lock := ws_sleep_lock (shared w)\<rparr>\<rparr> = w" by simp
  note id = this [unfolded assms(2)]
  show ?thesis
    using assms by (simp add: sched_wait_def sched_wait_step_def with_shared_def sync_okD id)
qed

lemma group_wait_eq:
  assumes "sync_ok sy" and "grp_wait_lock g = None"
  shows "group_wait sy t g = (if grp_tasks_in_flight g = 0 then Some g else None)"
proof -
  have "g\<lparr>grp_wait_lock := grp_wait_lock g\<rparr> = g" by simp
  note id = this [unfolded assms(2)]
  show ?thesis
    using assms by (simp add: group_wait_def group_wait_step_def sync_okD id)
qed

section \<open>Properties\<close>

text \<open>
  Property C8. What a submission does, on every path.  After a shutdown it is refused
  and changes nothing; at full capacity it is refused and only the count of
  rejections changes; with a closed group it is refused and everything it had
  reserved is given back; otherwise the task is in the injector of its priority, the
  outstanding count, the group's count and the submission count are one higher, and
  a sleeping worker is notified.  Spurious failures of the exchange loop
  (\<open>spurious\<close>) make no difference.
\<close>

theorem submission_outcome:
  "push_internal dq sy spurious sc f a p grp w =
     (if ws_shutdown (shared w) then (Inl SchedulerStopped, w)
      else if \<not> has_room (sc_queue_capacity sc) (shared w) then
        (Inl QueueFull, with_shared (\<lambda>ws. ws\<lparr>ws_stats := record_queue_full (ws_stats ws)\<rparr>) w)
      else if \<not> group_open grp w then (Inl SchedulerStopped, w)
      else (Inr (), accepted dq sy (task_new f a p grp) w))"
  by (rule push_internal_eq)

text \<open>
  Property C28. The submission machine implements \<open>push_internal\<close>: a client whose
  actions nobody interrupts returns, after at most 19 of them, with the result and
  the state that \<open>push_internal\<close> computes.
\<close>

theorem submission_machine_refines_push_internal:
  assumes "19 \<le> n"
  shows "drive n (push_step dq sy (sc_queue_capacity sc) False) (QStart (task_new f a p grp)) w =
    (case push_internal dq sy spurious sc f a p grp w of (r, w') \<Rightarrow> (QDone r, w'))"
  by (simp add: push_step_drive [OF assms] push_internal_eq task_new_def)

text \<open>
  Property C29. The search machine implements \<open>pop_for_worker\<close>: the actions of a worker
  that nobody interrupts end, after at most nine and one per victim, with the result
  and the state that \<open>pop_for_worker\<close> computes.
\<close>

theorem search_machine_refines_pop_for_worker:
  assumes "length (fst (victims ss)) + 9 \<le> n"
  shows "drive n (search_step dq me) (Inl PStart) (qs, ss, st, ps) =
    (case pop_for_worker dq me qs ss st ps of (r, s) \<Rightarrow> (Inr r, s))"
  by (rule drive_search) (use assms in simp)

text \<open>
  Property C30. The execution machine implements \<open>execute_task\<close>: at most seven actions
  call the task once, record the completion, lower the outstanding count and then
  the group's, notify on the transition to zero, and lead back to the search.
\<close>

theorem execution_machine_refines_execute_task:
  "\<exists>k. k \<le> 7 \<and> drive k (worker_step dq sy me) (wk\<lparr>wk_pc := WExec t\<rparr>) w =
     (wk\<lparr>wk_pc := WPop Fast PStart\<rparr>, execute_task sy t w)"
  using drive_execute by blast

section \<open>Witnesses\<close>

text \<open>A scheduler with capacity one and the state after one accepted task of group 3.\<close>

definition tiny_scheduler :: scheduler where
  "tiny_scheduler = \<lparr>sc_workers = [], sc_worker_count = 1, sc_topology = detect None,
     sc_pin_workers = False, sc_queue_capacity = 1\<rparr>"

definition one_task_world :: world where
  "one_task_world = snd (push_internal half_deque fifo_sync [] tiny_scheduler 7 0 High (Some 3) (world_new 1))"

theorem submission_machine_refines_push_internal_witness:
  "drive 19 (push_step half_deque fifo_sync 1 False) (QStart (task_new 7 0 High (Some 3))) (world_new 1) =
     (QDone (Inr ()), one_task_world)"
proof -
  have "fst (push_internal half_deque fifo_sync [] tiny_scheduler 7 0 High (Some 3) (world_new 1)) = Inr ()"
    by code_simp
  with submission_machine_refines_push_internal
    [of 19 half_deque fifo_sync tiny_scheduler 7 0 High "Some 3" "world_new 1" "[]"]
  show ?thesis by (simp add: one_task_world_def tiny_scheduler_def split: prod.splits del: drive_numeral)
qed

theorem search_machine_refines_pop_for_worker_witness:
  "fst (drive 9 (search_step half_deque 0) (Inl PStart)
     (ws_queues (shared one_task_world), steal_state_new 0 1 RoundRobin, stats_new, priority_state_new)) =
   Inr (PopTask (task_new 7 0 High (Some 3)))"
proof -
  have "length (fst (victims (steal_state_new 0 1 RoundRobin))) + 9 \<le> 9" by code_simp
  moreover have "fst (pop_for_worker half_deque 0 (ws_queues (shared one_task_world))
      (steal_state_new 0 1 RoundRobin) stats_new priority_state_new) = PopTask (task_new 7 0 High (Some 3))"
    by code_simp
  ultimately show ?thesis
    using search_machine_refines_pop_for_worker [of "steal_state_new 0 1 RoundRobin" 9 half_deque 0
        "ws_queues (shared one_task_world)" stats_new priority_state_new]
    by (simp split: prod.splits del: drive_numeral)
qed

end
