(* ===== verification/Ffi.thy ===== *)
theory Ffi
  imports Sequential Construction
begin

text \<open>
  The C interface, \<^verbatim>\<open>src/src/ffi.rs\<close>.  A pointer is an address, \<open>0\<close> being NULL; the heap
  records what the addresses handed out by the library, and the structures owned by
  the caller, hold.  Using an address that holds nothing (a handle already
  destroyed, or never created) is undefined behaviour and is an outcome of its own,
  and so are an abort and a call that has not returned.  A call runs here without
  interference, except that construction and destruction run together with the worker
  threads they spawn or join, in the order of a schedule; what concurrent calls do to
  each other is the matter of the interleaved system.
\<close>

section \<open>Types\<close>

type_synonym ptr = usize

record cortlet_scheduler_config =
  cc_worker_count :: usize
  cc_pin_workers :: i32
  cc_queue_capacity :: usize

datatype cortlet_result =
    CortletOk | CortletInvalidArgument | CortletAllocationFailed | CortletSchedulerStopped
  | CortletQueueFull | CortletInternalError

text \<open>The discriminants that cross the ABI.\<close>

fun cortlet_result_code :: "cortlet_result \<Rightarrow> i32" where
  "cortlet_result_code CortletOk = 0"
| "cortlet_result_code CortletInvalidArgument = 1"
| "cortlet_result_code CortletAllocationFailed = 2"
| "cortlet_result_code CortletSchedulerStopped = 3"
| "cortlet_result_code CortletQueueFull = 4"
| "cortlet_result_code CortletInternalError = 255"

record cortlet_scheduler_stats =
  cst_submitted :: u64
  cst_completed :: u64
  cst_rejected_full :: u64
  cst_steals_attempted :: u64
  cst_steals_succeeded :: u64
  cst_steal_failures :: u64
  cst_fairness_yields :: u64
  cst_outstanding :: usize

text \<open>The handle of a scheduler, with the state its worker threads share.\<close>

record cortlet_scheduler =
  cs_scheduler :: scheduler
  cs_shared :: worker_shared

text \<open>
  Group handles name a group; the group itself lives as long as some task or handle
  refers to it.
\<close>

record c_heap =
  hp_schedulers :: "ptr \<rightharpoonup> cortlet_scheduler"
  hp_group_handles :: "ptr \<rightharpoonup> gid"
  hp_groups :: "gid \<Rightarrow> task_group"
  hp_next_gid :: gid
  hp_configs :: "ptr \<rightharpoonup> cortlet_scheduler_config"
  hp_stats :: "ptr \<rightharpoonup> cortlet_scheduler_stats"
  hp_calls :: "(task_fn \<times> usize) list"

fun map_scheduler_error :: "scheduler_error \<Rightarrow> cortlet_result" where
  "map_scheduler_error SchedulerStopped = CortletSchedulerStopped"
| "map_scheduler_error QueueFull = CortletQueueFull"
| "map_scheduler_error WorkerCreationFailed = CortletInternalError"
| "map_scheduler_error InternalError = CortletInternalError"

definition map_priority :: "i32 \<Rightarrow> task_priority option" where
  "map_priority priority =
     (if priority = 0 then Some Low else if priority = 1 then Some Normal
      else if priority = 2 then Some High else None)"

text \<open>The closing \<open>match\<close> of every fallible call.\<close>

fun result_of :: "scheduler_error + unit \<Rightarrow> cortlet_result" where
  "result_of (Inr u) = CortletOk"
| "result_of (Inl error) = map_scheduler_error error"

definition cortlet_version_major :: "32 word" where "cortlet_version_major = 2"
definition cortlet_version_minor :: "32 word" where "cortlet_version_minor = 0"
definition cortlet_version_patch :: "32 word" where "cortlet_version_patch = 0"

section \<open>Reading and writing the heap\<close>

definition deref :: "(ptr \<rightharpoonup> 'a) \<Rightarrow> ptr \<Rightarrow> ('a \<Rightarrow> 'b outcome) \<Rightarrow> 'b outcome" where
  "deref m p k = (case m p of None \<Rightarrow> Undefined | Some x \<Rightarrow> k x)"


text \<open>The state a scheduler operation works on, and its state put back.\<close>

definition world_of :: "cortlet_scheduler \<Rightarrow> c_heap \<Rightarrow> world" where
  "world_of cs h = \<lparr>shared = cs_shared cs, groups = hp_groups h, calls = hp_calls h\<rparr>"

definition put_world :: "ptr \<Rightarrow> cortlet_scheduler \<Rightarrow> world \<Rightarrow> c_heap \<Rightarrow> c_heap" where
  "put_world p cs w h =
     h\<lparr>hp_schedulers := (hp_schedulers h)(p \<mapsto> cs\<lparr>cs_shared := shared w\<rparr>),
       hp_groups := groups w, hp_calls := calls w\<rparr>"

section \<open>Scheduler lifecycle\<close>

text \<open>
  \<open>addr\<close> is the address \<open>Box::new\<close> returns; \<open>os\<close> is what the operating system decides
  during construction.
\<close>

definition box_scheduler :: "ptr \<Rightarrow> c_heap \<Rightarrow> (scheduler_error + scheduler) \<times> worker_shared \<Rightarrow> ptr \<times> c_heap" where
  "box_scheduler addr h result =
     (case result of
        (Inl error, ws) \<Rightarrow> (0, h)
      | (Inr sc, ws) \<Rightarrow>
          (addr, h\<lparr>hp_schedulers := (hp_schedulers h)(addr \<mapsto> \<lparr>cs_scheduler = sc, cs_shared = ws\<rparr>)\<rparr>))"

definition cortlet_sched_init :: "deque_api \<Rightarrow> sync_api \<Rightarrow> os_env \<Rightarrow> ptr \<Rightarrow> c_heap \<Rightarrow> (ptr \<times> c_heap) outcome" where
  "cortlet_sched_init dq sy os addr h = map_outcome (box_scheduler addr h) (scheduler_new dq sy os)"


text \<open>
  Destruction drops the scheduler: shutdown, then joining the workers, which act in the
  order of the schedule, then the handle is gone.
\<close>

definition cortlet_sched_destroy :: "deque_api \<Rightarrow> sync_api \<Rightarrow> nat list \<Rightarrow> ptr \<Rightarrow> c_heap \<Rightarrow> c_heap outcome" where
  "cortlet_sched_destroy dq sy schedule scheduler h =
     (if scheduler = 0 then Returns h
      else deref (hp_schedulers h) scheduler (\<lambda>cs.
        case join_workers dq sy schedule (sc_workers (cs_scheduler cs)) (sched_shutdown sy (world_of cs h)) of
          None \<Rightarrow> Blocks
        | Some w \<Rightarrow>
            Returns (h\<lparr>hp_schedulers := (hp_schedulers h)(scheduler := None),
                       hp_groups := groups w, hp_calls := calls w\<rparr>)))"

section \<open>Scheduler information\<close>




definition cortlet_sched_get_stats :: "ptr \<Rightarrow> ptr \<Rightarrow> c_heap \<Rightarrow> (cortlet_result \<times> c_heap) outcome" where
  "cortlet_sched_get_stats scheduler stats h =
     (if scheduler = 0 \<or> stats = 0 then Returns (CortletInvalidArgument, h)
      else deref (hp_schedulers h) scheduler (\<lambda>cs.
        let snapshot = sched_stats (world_of cs h);
            output =
              \<lparr>cst_submitted = snap_submitted snapshot, cst_completed = snap_completed snapshot,
               cst_rejected_full = snap_rejected_full snapshot,
               cst_steals_attempted = snap_steals_attempted snapshot,
               cst_steals_succeeded = snap_steals_succeeded snapshot,
               cst_steal_failures = snap_steal_failures snapshot,
               cst_fairness_yields = snap_fairness_yields snapshot,
               cst_outstanding = sched_tasks_in_flight (world_of cs h)\<rparr>
        in deref (hp_stats h) stats (\<lambda>_.
             Returns (CortletOk, h\<lparr>hp_stats := (hp_stats h)(stats \<mapsto> output)\<rparr>))))"

definition cortlet_sched_is_stopped :: "ptr \<Rightarrow> c_heap \<Rightarrow> i32 outcome" where
  "cortlet_sched_is_stopped scheduler h =
     (if scheduler = 0 then Returns 1
      else deref (hp_schedulers h) scheduler
        (\<lambda>cs. Returns (if sched_is_stopped (world_of cs h) then 1 else 0)))"

definition cortlet_sched_outstanding_tasks :: "ptr \<Rightarrow> c_heap \<Rightarrow> usize outcome" where
  "cortlet_sched_outstanding_tasks scheduler h =
     (if scheduler = 0 then Returns 0
      else deref (hp_schedulers h) scheduler (\<lambda>cs. Returns (sched_outstanding_tasks (world_of cs h))))"

definition cortlet_sched_sleeping_workers :: "ptr \<Rightarrow> c_heap \<Rightarrow> usize outcome" where
  "cortlet_sched_sleeping_workers scheduler h =
     (if scheduler = 0 then Returns 0
      else deref (hp_schedulers h) scheduler (\<lambda>cs. Returns (sched_sleeping_workers (world_of cs h))))"

definition cortlet_sched_high_burst_limit :: usize where
  "cortlet_sched_high_burst_limit = sched_high_burst_limit"

section \<open>Task submission\<close>

definition cortlet_sched_push :: "deque_api \<Rightarrow> sync_api \<Rightarrow> bool list \<Rightarrow>
    ptr \<Rightarrow> task_fn option \<Rightarrow> usize \<Rightarrow> c_heap \<Rightarrow> (cortlet_result \<times> c_heap) outcome" where
  "cortlet_sched_push dq sy sp scheduler task argument h =
     (if scheduler = 0 then Returns (CortletInvalidArgument, h)
      else case task of None \<Rightarrow> Returns (CortletInvalidArgument, h)
      | Some task \<Rightarrow>
        deref (hp_schedulers h) scheduler (\<lambda>cs.
        case sched_push dq sy sp (cs_scheduler cs) task argument (world_of cs h) of
          (r, w) \<Rightarrow> Returns (result_of r, put_world scheduler cs w h)))"

definition cortlet_sched_push_priority :: "deque_api \<Rightarrow> sync_api \<Rightarrow> bool list \<Rightarrow>
    ptr \<Rightarrow> task_fn option \<Rightarrow> usize \<Rightarrow> i32 \<Rightarrow> c_heap \<Rightarrow> (cortlet_result \<times> c_heap) outcome" where
  "cortlet_sched_push_priority dq sy sp scheduler task argument priority h =
     (if scheduler = 0 then Returns (CortletInvalidArgument, h)
      else case task of None \<Rightarrow> Returns (CortletInvalidArgument, h)
      | Some task \<Rightarrow>
        (case map_priority priority of None \<Rightarrow> Returns (CortletInvalidArgument, h)
         | Some priority \<Rightarrow>
           deref (hp_schedulers h) scheduler (\<lambda>cs.
           case sched_push_priority dq sy sp (cs_scheduler cs) task argument priority (world_of cs h) of
             (r, w) \<Rightarrow> Returns (result_of r, put_world scheduler cs w h))))"

definition cortlet_sched_push_group :: "deque_api \<Rightarrow> sync_api \<Rightarrow> bool list \<Rightarrow>
    ptr \<Rightarrow> ptr \<Rightarrow> task_fn option \<Rightarrow> usize \<Rightarrow> c_heap \<Rightarrow> (cortlet_result \<times> c_heap) outcome" where
  "cortlet_sched_push_group dq sy sp scheduler grp task argument h =
     (if scheduler = 0 \<or> grp = 0 then Returns (CortletInvalidArgument, h)
      else case task of None \<Rightarrow> Returns (CortletInvalidArgument, h)
      | Some task \<Rightarrow>
        deref (hp_schedulers h) scheduler (\<lambda>cs.
        deref (hp_group_handles h) grp (\<lambda>group_ref.
        case sched_push_group dq sy sp (cs_scheduler cs) task argument group_ref (world_of cs h) of
          (r, w) \<Rightarrow> Returns (result_of r, put_world scheduler cs w h))))"

definition cortlet_sched_push_group_priority :: "deque_api \<Rightarrow> sync_api \<Rightarrow> bool list \<Rightarrow>
    ptr \<Rightarrow> ptr \<Rightarrow> task_fn option \<Rightarrow> usize \<Rightarrow> i32 \<Rightarrow> c_heap \<Rightarrow> (cortlet_result \<times> c_heap) outcome" where
  "cortlet_sched_push_group_priority dq sy sp scheduler grp task argument priority h =
     (if scheduler = 0 \<or> grp = 0 then Returns (CortletInvalidArgument, h)
      else case task of None \<Rightarrow> Returns (CortletInvalidArgument, h)
      | Some task \<Rightarrow>
        (case map_priority priority of None \<Rightarrow> Returns (CortletInvalidArgument, h)
         | Some priority \<Rightarrow>
           deref (hp_schedulers h) scheduler (\<lambda>cs.
           deref (hp_group_handles h) grp (\<lambda>group_ref.
           case sched_push_group_priority dq sy sp (cs_scheduler cs) task argument priority group_ref
                  (world_of cs h) of
             (r, w) \<Rightarrow> Returns (result_of r, put_world scheduler cs w h)))))"

definition cortlet_sched_try_push :: "deque_api \<Rightarrow> sync_api \<Rightarrow> bool list \<Rightarrow>
    ptr \<Rightarrow> task_fn option \<Rightarrow> usize \<Rightarrow> c_heap \<Rightarrow> (cortlet_result \<times> c_heap) outcome" where
  "cortlet_sched_try_push dq sy sp scheduler task argument h =
     (if scheduler = 0 then Returns (CortletInvalidArgument, h)
      else case task of None \<Rightarrow> Returns (CortletInvalidArgument, h)
      | Some task \<Rightarrow>
        deref (hp_schedulers h) scheduler (\<lambda>cs.
        case sched_try_push dq sy sp (cs_scheduler cs) task argument (world_of cs h) of
          (r, w) \<Rightarrow> Returns (result_of r, put_world scheduler cs w h)))"

definition cortlet_sched_try_push_priority :: "deque_api \<Rightarrow> sync_api \<Rightarrow> bool list \<Rightarrow>
    ptr \<Rightarrow> task_fn option \<Rightarrow> usize \<Rightarrow> i32 \<Rightarrow> c_heap \<Rightarrow> (cortlet_result \<times> c_heap) outcome" where
  "cortlet_sched_try_push_priority dq sy sp scheduler task argument priority h =
     (if scheduler = 0 then Returns (CortletInvalidArgument, h)
      else case task of None \<Rightarrow> Returns (CortletInvalidArgument, h)
      | Some task \<Rightarrow>
        (case map_priority priority of None \<Rightarrow> Returns (CortletInvalidArgument, h)
         | Some priority \<Rightarrow>
           deref (hp_schedulers h) scheduler (\<lambda>cs.
           case sched_try_push_priority dq sy sp (cs_scheduler cs) task argument priority (world_of cs h) of
             (r, w) \<Rightarrow> Returns (result_of r, put_world scheduler cs w h))))"

definition cortlet_sched_try_push_group :: "deque_api \<Rightarrow> sync_api \<Rightarrow> bool list \<Rightarrow>
    ptr \<Rightarrow> ptr \<Rightarrow> task_fn option \<Rightarrow> usize \<Rightarrow> c_heap \<Rightarrow> (cortlet_result \<times> c_heap) outcome" where
  "cortlet_sched_try_push_group dq sy sp scheduler grp task argument h =
     (if scheduler = 0 \<or> grp = 0 then Returns (CortletInvalidArgument, h)
      else case task of None \<Rightarrow> Returns (CortletInvalidArgument, h)
      | Some task \<Rightarrow>
        deref (hp_schedulers h) scheduler (\<lambda>cs.
        deref (hp_group_handles h) grp (\<lambda>group_ref.
        case sched_try_push_group dq sy sp (cs_scheduler cs) task argument group_ref (world_of cs h) of
          (r, w) \<Rightarrow> Returns (result_of r, put_world scheduler cs w h))))"

definition cortlet_sched_try_push_group_priority :: "deque_api \<Rightarrow> sync_api \<Rightarrow> bool list \<Rightarrow>
    ptr \<Rightarrow> ptr \<Rightarrow> task_fn option \<Rightarrow> usize \<Rightarrow> i32 \<Rightarrow> c_heap \<Rightarrow> (cortlet_result \<times> c_heap) outcome" where
  "cortlet_sched_try_push_group_priority dq sy sp scheduler grp task argument priority h =
     (if scheduler = 0 \<or> grp = 0 then Returns (CortletInvalidArgument, h)
      else case task of None \<Rightarrow> Returns (CortletInvalidArgument, h)
      | Some task \<Rightarrow>
        (case map_priority priority of None \<Rightarrow> Returns (CortletInvalidArgument, h)
         | Some priority \<Rightarrow>
           deref (hp_schedulers h) scheduler (\<lambda>cs.
           deref (hp_group_handles h) grp (\<lambda>group_ref.
           case sched_try_push_group_priority dq sy sp (cs_scheduler cs) task argument priority group_ref
                  (world_of cs h) of
             (r, w) \<Rightarrow> Returns (result_of r, put_world scheduler cs w h)))))"

section \<open>Task groups\<close>

definition cortlet_task_group_create :: "ptr \<Rightarrow> c_heap \<Rightarrow> (ptr \<times> c_heap) outcome" where
  "cortlet_task_group_create addr h =
     Returns (addr, h\<lparr>hp_group_handles := (hp_group_handles h)(addr \<mapsto> hp_next_gid h),
                      hp_groups := (hp_groups h)(hp_next_gid h := group_new),
                      hp_next_gid := Suc (hp_next_gid h)\<rparr>)"

definition cortlet_task_group_wait :: "sync_api \<Rightarrow> tid \<Rightarrow> ptr \<Rightarrow> c_heap \<Rightarrow> (cortlet_result \<times> c_heap) outcome" where
  "cortlet_task_group_wait sy t grp h =
     (if grp = 0 then Returns (CortletInvalidArgument, h)
      else deref (hp_group_handles h) grp (\<lambda>g.
        case group_wait sy t (hp_groups h g) of
          None \<Rightarrow> Blocks
        | Some tg \<Rightarrow> Returns (CortletOk, h\<lparr>hp_groups := (hp_groups h)(g := tg)\<rparr>)))"

definition cortlet_task_group_destroy :: "sync_api \<Rightarrow> ptr \<Rightarrow> c_heap \<Rightarrow> c_heap outcome" where
  "cortlet_task_group_destroy sy grp h =
     (if grp = 0 then Returns h
      else deref (hp_group_handles h) grp (\<lambda>g.
        Returns (h\<lparr>hp_group_handles := (hp_group_handles h)(grp := None),
                   hp_groups := (hp_groups h)(g := group_close sy (hp_groups h g))\<rparr>)))"

section \<open>Synchronization and shutdown\<close>

definition cortlet_sched_wait :: "sync_api \<Rightarrow> tid \<Rightarrow> ptr \<Rightarrow> c_heap \<Rightarrow> (cortlet_result \<times> c_heap) outcome" where
  "cortlet_sched_wait sy t scheduler h =
     (if scheduler = 0 then Returns (CortletInvalidArgument, h)
      else deref (hp_schedulers h) scheduler (\<lambda>cs.
        case sched_wait sy t (world_of cs h) of
          None \<Rightarrow> Blocks
        | Some (r, w) \<Rightarrow> Returns (result_of r, put_world scheduler cs w h)))"

definition cortlet_sched_shutdown :: "sync_api \<Rightarrow> ptr \<Rightarrow> c_heap \<Rightarrow> (cortlet_result \<times> c_heap) outcome" where
  "cortlet_sched_shutdown sy scheduler h =
     (if scheduler = 0 then Returns (CortletInvalidArgument, h)
      else deref (hp_schedulers h) scheduler (\<lambda>cs.
        Returns (CortletOk, put_world scheduler cs (sched_shutdown sy (world_of cs h)) h)))"

section \<open>The contract of a submission\<close>

text \<open>
  The eight submission calls differ in their arguments and in the checks made on
  them.  Once the checks pass (\<open>valid\<close>) each behaves like \<open>push_internal\<close> with some
  priority and group.
\<close>

locale c_submission =
  fixes dq :: deque_api and sy :: sync_api and sp :: "bool list"
    and f :: task_fn and a :: usize and prio :: task_priority and grp :: "gid option"
    and valid :: "c_heap \<Rightarrow> bool"
    and call :: "ptr \<Rightarrow> c_heap \<Rightarrow> (cortlet_result \<times> c_heap) outcome"
  assumes null: "call 0 h = Returns (CortletInvalidArgument, h)"
    and forward: "valid h \<Longrightarrow> s \<noteq> 0 \<Longrightarrow> hp_schedulers h s = Some cs \<Longrightarrow> call s h =
      (case push_internal dq sy sp (cs_scheduler cs) f a prio grp (world_of cs h) of
         (r, w) \<Rightarrow> Returns (result_of r, put_world s cs w h))"
begin

lemma put_world_same: "hp_schedulers h s = Some cs \<Longrightarrow> put_world s cs (world_of cs h) h = h"
  by (simp add: put_world_def world_of_def fun_upd_idem)

lemma outcome:
  assumes "valid h" and "s \<noteq> 0" and "hp_schedulers h s = Some cs"
  shows "call s h =
    (if ws_shutdown (cs_shared cs) then Returns (CortletSchedulerStopped, h)
     else if \<not> has_room (sc_queue_capacity (cs_scheduler cs)) (cs_shared cs) then
       Returns (CortletQueueFull, h\<lparr>hp_schedulers := (hp_schedulers h)(s \<mapsto> cs\<lparr>cs_shared :=
         (cs_shared cs)\<lparr>ws_stats := record_queue_full (ws_stats (cs_shared cs))\<rparr>\<rparr>)\<rparr>)
     else if \<not> group_open grp (world_of cs h) then Returns (CortletSchedulerStopped, h)
     else Returns (CortletOk, put_world s cs (accepted dq sy (task_new f a prio grp) (world_of cs h)) h))"
proof -
  have "shared (world_of cs h) = cs_shared cs" "groups (world_of cs h) = hp_groups h"
    "calls (world_of cs h) = hp_calls h" by (simp_all add: world_of_def)
  then show ?thesis
    by (simp add: forward [OF assms] push_internal_eq put_world_same [OF assms(3)])
      (simp add: put_world_def with_shared_def)
qed

lemma never_blocks:
  assumes "valid h" and "hp_schedulers h s \<noteq> None"
  shows "\<exists>r h'. call s h = Returns (r, h') \<and> r \<noteq> CortletAllocationFailed \<and> r \<noteq> CortletInternalError"
  using assms outcome [of h s] null by (cases "s = 0") auto

end

lemma i32_eq_iff: "p = q \<longleftrightarrow> unat p = unat q" for p q :: i32
  by (simp add: word_eq_iff_unsigned [where 'a = nat])

lemma map_priority_eq: "map_priority p = Some q \<longleftrightarrow> unat p = priority_rank q"
  by (cases q) (auto simp: map_priority_def i32_eq_iff)

lemmas call_defs = deref_def
  sched_push_def sched_push_priority_def sched_push_group_def sched_push_group_priority_def
  sched_try_push_def sched_try_push_priority_def sched_try_push_group_def sched_try_push_group_priority_def

interpretation push: c_submission dq sy sp f a Normal None "\<lambda>_. True"
  "\<lambda>s. cortlet_sched_push dq sy sp s (Some f) a" for dq sy sp f a
  by unfold_locales (simp_all add: cortlet_sched_push_def call_defs)

interpretation push_priority: c_submission dq sy sp f a prio None "\<lambda>_. map_priority p = Some prio"
  "\<lambda>s. cortlet_sched_push_priority dq sy sp s (Some f) a p" for dq sy sp f a p prio
  by unfold_locales (simp_all add: cortlet_sched_push_priority_def call_defs)

interpretation push_group: c_submission dq sy sp f a Normal "Some g"
  "\<lambda>h. gp \<noteq> 0 \<and> hp_group_handles h gp = Some g"
  "\<lambda>s. cortlet_sched_push_group dq sy sp s gp (Some f) a" for dq sy sp f a gp g
  by unfold_locales (simp_all add: cortlet_sched_push_group_def call_defs)

interpretation push_group_priority: c_submission dq sy sp f a prio "Some g"
  "\<lambda>h. map_priority p = Some prio \<and> gp \<noteq> 0 \<and> hp_group_handles h gp = Some g"
  "\<lambda>s. cortlet_sched_push_group_priority dq sy sp s gp (Some f) a p" for dq sy sp f a p prio gp g
  by unfold_locales (simp_all add: cortlet_sched_push_group_priority_def call_defs)

interpretation try_push: c_submission dq sy sp f a Normal None "\<lambda>_. True"
  "\<lambda>s. cortlet_sched_try_push dq sy sp s (Some f) a" for dq sy sp f a
  by unfold_locales (simp_all add: cortlet_sched_try_push_def call_defs)

interpretation try_push_priority: c_submission dq sy sp f a prio None "\<lambda>_. map_priority p = Some prio"
  "\<lambda>s. cortlet_sched_try_push_priority dq sy sp s (Some f) a p" for dq sy sp f a p prio
  by unfold_locales (simp_all add: cortlet_sched_try_push_priority_def call_defs)

interpretation try_push_group: c_submission dq sy sp f a Normal "Some g"
  "\<lambda>h. gp \<noteq> 0 \<and> hp_group_handles h gp = Some g"
  "\<lambda>s. cortlet_sched_try_push_group dq sy sp s gp (Some f) a" for dq sy sp f a gp g
  by unfold_locales (simp_all add: cortlet_sched_try_push_group_def call_defs)

interpretation try_push_group_priority: c_submission dq sy sp f a prio "Some g"
  "\<lambda>h. map_priority p = Some prio \<and> gp \<noteq> 0 \<and> hp_group_handles h gp = Some g"
  "\<lambda>s. cortlet_sched_try_push_group_priority dq sy sp s gp (Some f) a p" for dq sy sp f a p prio gp g
  by unfold_locales (simp_all add: cortlet_sched_try_push_group_priority_def call_defs)

section \<open>Properties\<close>

text \<open>
  The \<open>try_push\<close> calls are the \<open>push\<close> calls: all submission is
  non-blocking, and the two families have the same result and effect on every
  argument and every heap.
\<close>

lemma try_push_is_push:
  "cortlet_sched_try_push dq sy sp s task arg h = cortlet_sched_push dq sy sp s task arg h \<and>
   cortlet_sched_try_push_priority dq sy sp s task arg p h =
     cortlet_sched_push_priority dq sy sp s task arg p h \<and>
   cortlet_sched_try_push_group dq sy sp s gp task arg h =
     cortlet_sched_push_group dq sy sp s gp task arg h \<and>
   cortlet_sched_try_push_group_priority dq sy sp s gp task arg p h =
     cortlet_sched_push_group_priority dq sy sp s gp task arg p h"
  unfolding cortlet_sched_try_push_def cortlet_sched_push_def cortlet_sched_try_push_priority_def
    cortlet_sched_push_priority_def cortlet_sched_try_push_group_def cortlet_sched_push_group_def
    cortlet_sched_try_push_group_priority_def cortlet_sched_push_group_priority_def
    sched_push_def sched_push_priority_def sched_push_group_def sched_push_group_priority_def
    sched_try_push_def sched_try_push_priority_def sched_try_push_group_def
    sched_try_push_group_priority_def
  by simp

text \<open>
  The eight submission calls as one: which family, the group argument of the calls that
  have one, and the priority argument of the calls that have one.
\<close>

fun submit :: "deque_api \<Rightarrow> sync_api \<Rightarrow> bool list \<Rightarrow> bool \<Rightarrow> ptr option \<Rightarrow> i32 option \<Rightarrow>
    ptr \<Rightarrow> task_fn option \<Rightarrow> usize \<Rightarrow> c_heap \<Rightarrow> (cortlet_result \<times> c_heap) outcome" where
  "submit dq sy sp False None None s f a h = cortlet_sched_push dq sy sp s f a h"
| "submit dq sy sp False None (Some p) s f a h = cortlet_sched_push_priority dq sy sp s f a p h"
| "submit dq sy sp False (Some g) None s f a h = cortlet_sched_push_group dq sy sp s g f a h"
| "submit dq sy sp False (Some g) (Some p) s f a h = cortlet_sched_push_group_priority dq sy sp s g f a p h"
| "submit dq sy sp True None None s f a h = cortlet_sched_try_push dq sy sp s f a h"
| "submit dq sy sp True None (Some p) s f a h = cortlet_sched_try_push_priority dq sy sp s f a p h"
| "submit dq sy sp True (Some g) None s f a h = cortlet_sched_try_push_group dq sy sp s g f a h"
| "submit dq sy sp True (Some g) (Some p) s f a h = cortlet_sched_try_push_group_priority dq sy sp s g f a p h"

definition arguments_ok :: "ptr \<Rightarrow> task_fn option \<Rightarrow> ptr option \<Rightarrow> i32 option \<Rightarrow> bool" where
  "arguments_ok s f grp prio \<longleftrightarrow>
     s \<noteq> 0 \<and> f \<noteq> None \<and> grp \<noteq> Some 0 \<and> (case prio of None \<Rightarrow> True | Some p \<Rightarrow> map_priority p \<noteq> None)"

text \<open>
  A submission reports an invalid argument exactly when a pointer is NULL or the priority
  is unknown, then without an effect and before any handle is used; with valid arguments
  and live handles it returns one of the three other results a submission has.
\<close>

lemma submit_invalid:
  "\<not> arguments_ok s f grp prio \<Longrightarrow> submit dq sy sp trying grp prio s f a h = Returns (CortletInvalidArgument, h)"
  by (cases trying; cases grp; cases prio)
    (auto simp: arguments_ok_def cortlet_sched_push_def cortlet_sched_push_priority_def
      cortlet_sched_push_group_def cortlet_sched_push_group_priority_def cortlet_sched_try_push_def
      cortlet_sched_try_push_priority_def cortlet_sched_try_push_group_def
      cortlet_sched_try_push_group_priority_def split: option.splits)

lemma submit_valid:
  assumes "arguments_ok s f grp prio" and "hp_schedulers h s \<noteq> None"
    and "case grp of None \<Rightarrow> True | Some g \<Rightarrow> hp_group_handles h g \<noteq> None"
  shows "\<exists>r h'. submit dq sy sp trying grp prio s f a h = Returns (r, h') \<and>
    r \<in> {CortletOk, CortletSchedulerStopped, CortletQueueFull}"
proof -
  have "submit dq sy sp trying grp prio s f a h = submit dq sy sp False grp prio s f a h"
    using try_push_is_push by (cases trying; cases grp; cases prio) simp_all
  moreover obtain cs fn where "hp_schedulers h s = Some cs" "f = Some fn" "s \<noteq> 0"
    using assms by (auto simp: arguments_ok_def)
  ultimately show ?thesis using assms(1,3)
    by (cases grp; cases prio)
      (auto simp: arguments_ok_def push.outcome push_priority.outcome push_group.outcome
        push_group_priority.outcome)
qed

text \<open>
  Destruction of a running scheduler: if the call returns, the handle is dead and every
  task the scheduler accepted has been executed exactly once.  The handle stands for a
  state \<open>s\<close> of the interleaved system in which no client is inside a call.
\<close>

lemma destroy_drains:
  assumes "deque_ok dq" and "reachable_real dq sy cap s" and "p \<noteq> 0" and "hp_schedulers h p = Some cs"
    and "sys_world s = world_of cs h" and "sys_workers s = map sp_worker (sc_workers (cs_scheduler cs))"
    and "sc_workers (cs_scheduler cs) \<noteq> []"
    and "j < length (sys_clients s)" and "sys_clients s ! j = CIdle" and "list_all client_free (sys_clients s)"
    and "cortlet_sched_destroy dq sy schedule p h = Returns h'"
  shows "hp_schedulers h' p = None \<and> mset (hp_calls h') = image_mset task_execute (mset (sys_published s))"
proof -
  obtain w where w: "join_workers dq sy schedule (sc_workers (cs_scheduler cs)) (sched_shutdown sy (sys_world s)) = Some w"
    and h': "h' = h\<lparr>hp_schedulers := (hp_schedulers h)(p := None), hp_groups := groups w, hp_calls := calls w\<rparr>"
    using assms(3-5,11) by (auto simp: cortlet_sched_destroy_def deref_def split: option.splits)
  show ?thesis
    using join_workers_drains [OF assms(1,2,8,9,10,6,7) w] by (simp add: h')
qed

text \<open>
  Property C35. What a C submission to a group returns and does, for live handles and
  any priority argument: an unknown priority is invalid, a stopped scheduler and a
  closed group refuse and change nothing, a full scheduler refuses and counts the
  rejection, and otherwise the task is accepted.
\<close>

theorem c_submission_outcome:
  assumes "s \<noteq> 0" and "gp \<noteq> 0"
    and "hp_schedulers h s = Some cs" and "hp_group_handles h gp = Some g"
  shows "cortlet_sched_push_group_priority dq sy sp s gp (Some f) arg p h =
    (case map_priority p of
       None \<Rightarrow> Returns (CortletInvalidArgument, h)
     | Some prio \<Rightarrow>
         if ws_shutdown (cs_shared cs) then Returns (CortletSchedulerStopped, h)
         else if \<not> has_room (sc_queue_capacity (cs_scheduler cs)) (cs_shared cs) then
           Returns (CortletQueueFull, h\<lparr>hp_schedulers := (hp_schedulers h)(s \<mapsto> cs\<lparr>cs_shared :=
             (cs_shared cs)\<lparr>ws_stats := record_queue_full (ws_stats (cs_shared cs))\<rparr>\<rparr>)\<rparr>)
         else if grp_closed (hp_groups h g) then Returns (CortletSchedulerStopped, h)
         else Returns (CortletOk,
           put_world s cs (accepted dq sy (task_new f arg prio (Some g)) (world_of cs h)) h))"
proof (cases "map_priority p")
  case None
  with assms show ?thesis by (simp add: cortlet_sched_push_group_priority_def)
next
  case (Some prio)
  have "group_open (Some g) (world_of cs h) \<longleftrightarrow> \<not> grp_closed (hp_groups h g)"
    by (simp add: group_open_def world_of_def)
  with Some assms push_group_priority.outcome [of p prio gp h g s cs] show ?thesis by simp
qed

text \<open>
  The priority argument: exactly the three documented codes are
  accepted, and they are ranked as the priorities are.
\<close>

lemma priority_codes_are_exact:
  "(map_priority p = Some q) = (unat p = priority_rank q) \<and> (map_priority p = None) = (2 < unat p)"
proof
  show "(map_priority p = Some q) = (unat p = priority_rank q)" by (rule map_priority_eq)
  show "(map_priority p = None) = (2 < unat p)"
    by (auto simp: map_priority_def i32_eq_iff)
qed



text \<open>
  Property C37. Destroying a group handle leaves the group to its tasks: the handle is
  dead, every submission that still reaches the group is refused, and the count of
  the group's unfinished tasks is untouched.
\<close>

theorem group_destroy_keeps_tasks:
  assumes "gp \<noteq> 0" and "hp_group_handles h gp = Some g"
    and "cortlet_task_group_destroy sy gp h = Returns h'"
  shows "cortlet_task_group_wait sy t gp h' = Undefined \<and>
    grp_closed (hp_groups h' g) \<and>
    grp_tasks_in_flight (hp_groups h' g) = grp_tasks_in_flight (hp_groups h g) \<and>
    fst (add_task sy (hp_groups h' g)) = False \<and> snd (add_task sy (hp_groups h' g)) = hp_groups h' g"
  using assms
  by (auto simp: cortlet_task_group_destroy_def cortlet_task_group_wait_def deref_def group_close_def
      group_store_closed_def group_notify_all_def add_task_def)

text \<open>
  After \<open>cortlet_sched_shutdown\<close> has returned the scheduler is stopped and
  every kind of submission is refused with \<open>SchedulerStopped\<close> and without effect,
  while the outstanding tasks stay outstanding.
\<close>

lemma shutdown_refuses_submissions:
  assumes "s \<noteq> 0" and "hp_schedulers h s = Some cs"
    and "cortlet_sched_shutdown sy s h = Returns (r, h')"
    and "gp \<noteq> 0" and "hp_group_handles h gp = Some g" and "map_priority p = Some prio"
  shows "r = CortletOk \<and> cortlet_sched_is_stopped s h' = Returns 1 \<and>
    cortlet_sched_outstanding_tasks s h' = cortlet_sched_outstanding_tasks s h \<and>
    cortlet_sched_push dq sy sp s (Some f) a h' = Returns (CortletSchedulerStopped, h') \<and>
    cortlet_sched_push_priority dq sy sp s (Some f) a p h' = Returns (CortletSchedulerStopped, h') \<and>
    cortlet_sched_push_group dq sy sp s gp (Some f) a h' = Returns (CortletSchedulerStopped, h') \<and>
    cortlet_sched_push_group_priority dq sy sp s gp (Some f) a p h' = Returns (CortletSchedulerStopped, h')"
proof -
  have "r = CortletOk" and h': "h' = put_world s cs (sched_shutdown sy (world_of cs h)) h"
    using assms(1-3) by (simp_all add: cortlet_sched_shutdown_def deref_def)
  define cs' where "cs' = cs\<lparr>cs_shared := begin_shutdown sy (cs_shared cs)\<rparr>"
  have at: "hp_schedulers h' s = Some cs'" "hp_group_handles h' gp = Some g"
    using assms(5)
    by (simp_all add: h' put_world_def cs'_def world_of_def sched_shutdown_def with_shared_def)
  have stopped: "ws_shutdown (cs_shared cs')"
    and same: "ws_tasks_in_flight (cs_shared cs') = ws_tasks_in_flight (cs_shared cs)"
    by (simp_all add: cs'_def begin_shutdown_def store_shutdown_def shared_notify_all_def)
  have info: "cortlet_sched_is_stopped s h' = Returns 1"
    "cortlet_sched_outstanding_tasks s h' = cortlet_sched_outstanding_tasks s h"
    using assms(1,2) at(1) stopped same
    by (simp_all add: cortlet_sched_is_stopped_def cortlet_sched_outstanding_tasks_def deref_def
        sched_is_stopped_def sched_outstanding_tasks_def world_of_def)
  from assms(1,4,6) at stopped \<open>r = CortletOk\<close> show ?thesis
    by (simp add: info push.outcome push_priority.outcome [where prio = prio]
        push_group.outcome [where g = g] push_group_priority.outcome [where prio = prio and g = g])
qed

section \<open>Witnesses\<close>

text \<open>
  A heap with one scheduler of capacity one (address 16), one group handle (32) and one
  configuration (48).
\<close>

definition sample_heap :: c_heap where
  "sample_heap =
     \<lparr>hp_schedulers = [16 \<mapsto> \<lparr>cs_scheduler = tiny_scheduler,
        cs_shared = worker_shared_new (queue_system_new 1)\<rparr>],
      hp_group_handles = [32 \<mapsto> 0], hp_groups = (\<lambda>_. group_new), hp_next_gid = 1,
      hp_configs = [48 \<mapsto> \<lparr>cc_worker_count = 2, cc_pin_workers = 1, cc_queue_capacity = 5\<rparr>],
      hp_stats = Map.empty, hp_calls = []\<rparr>"

fun returned_code :: "(cortlet_result \<times> 'a) outcome \<Rightarrow> i32 option" where
  "returned_code (Returns (r, x)) = Some (cortlet_result_code r)"
| "returned_code _ = None"

theorem c_submission_outcome_witness:
  "returned_code (cortlet_sched_push_group_priority half_deque fifo_sync [] 16 32 (Some 7) 0 2 sample_heap) = Some 0 \<and>
   returned_code (cortlet_sched_push_group_priority half_deque fifo_sync [] 16 32 (Some 7) 0 3 sample_heap) = Some 1"
proof -
  have h: "hp_schedulers sample_heap 16 = Some \<lparr>cs_scheduler = tiny_scheduler,
      cs_shared = worker_shared_new (queue_system_new 1)\<rparr>" "hp_group_handles sample_heap 32 = Some 0"
    "\<not> grp_closed (hp_groups sample_heap 0)"
    by (simp_all add: sample_heap_def group_new_def)
  have "(16 :: ptr) \<noteq> 0" "(32 :: ptr) \<noteq> 0" by simp_all
  note out = c_submission_outcome [OF this h(1,2)]
  have "has_room 1 (worker_shared_new (queue_system_new 1))" by code_simp
  then show ?thesis
    by (simp add: out map_priority_def h(3) worker_shared_new_def tiny_scheduler_def)
qed


theorem group_destroy_keeps_tasks_witness:
  "\<exists>h'. cortlet_task_group_destroy fifo_sync 32 sample_heap = Returns h' \<and>
     cortlet_task_group_wait fifo_sync (Client 0) 32 h' = Undefined \<and> grp_closed (hp_groups h' 0)"
proof -
  have g: "hp_group_handles sample_heap 32 = Some 0" by (simp add: sample_heap_def)
  then obtain h' where ret: "cortlet_task_group_destroy fifo_sync 32 sample_heap = Returns h'"
    by (simp add: cortlet_task_group_destroy_def deref_def)
  from group_destroy_keeps_tasks [OF _ g ret] ret show ?thesis by simp
qed

end
