(* ===== verification/Ledger.thy ===== *)
theory Ledger
  imports Shutdown
begin

text \<open>
  Counters that several threads update.  A ledger relates such a counter to the
  control points of the threads: every action changes the counter by exactly what
  it changes the contribution of the thread that performs it.  Interpreted for the
  published sleepers, the two task statistics and the count of a task group, it
  shows that each counter is exact in every interleaving.
\<close>

section \<open>The ledger\<close>

locale ledger =
  fixes dq :: deque_api and sy :: sync_api and cap :: usize
    and amount :: "world \<Rightarrow> usize" and wpart :: "worker_pc \<Rightarrow> usize" and cpart :: "client_pc \<Rightarrow> usize"
    and ok :: "client_pc \<Rightarrow> bool"
  assumes worker_law: "deque_ok dq \<Longrightarrow> me < length (q_locals (ws_queues (shared w))) \<Longrightarrow>
      worker_step dq sy me wk w = Some (wk', w') \<Longrightarrow>
      amount w' + wpart (wk_pc wk) = amount w + wpart (wk_pc wk')"
    and client_law: "deque_ok dq \<Longrightarrow> ok pc \<Longrightarrow> client_step dq sy cap j sp joined pc w = Some (pc', w') \<Longrightarrow>
      amount w' + cpart pc = amount w + cpart pc' \<and> ok pc'"
    and free_law: "client_free pc \<Longrightarrow> cpart pc = 0"
    and start_law: "cpart (start_op op) = 0 \<and> ok (start_op op)"
    and init_law: "amount (world_new n) = 0" "wpart (WPop Fast PStart) = 0" "cpart CIdle = 0" "ok CIdle"
begin

definition balanced :: "sys \<Rightarrow> bool" where
  "balanced s \<longleftrightarrow>
     amount (sys_world s) = sum_list (map (\<lambda>wk. wpart (wk_pc wk)) (sys_workers s)) +
       sum_list (map cpart (sys_clients s)) \<and>
     (\<forall>pc \<in> set (sys_clients s). ok pc)"

lemma balanced_init: "balanced (sys_new n c)"
  by (auto simp: balanced_def sys_new_def init_law worker_start_def o_def sum_list_replicate)

lemma balanced_step:
  assumes dq: "deque_ok dq" and shape: "sys_shape s" and bal: "balanced s"
    and step: "sys_step dq sy cap l s = Some s'"
  shows "balanced s'"
  using step
proof (cases rule: sys_step_cases)
  case (Worker i wk w)
  have "i < length (q_locals (ws_queues (sys_shared s)))"
    using shape Worker(2) by (simp add: sys_shape_def)
  from transferred_total [OF sum_list_update_add [OF Worker(2), of "\<lambda>wk. wpart (wk_pc wk)" wk]
      worker_law [OF dq this Worker(3)]] bal Worker(4)
  show ?thesis by (simp add: balanced_def)
next
  case (Client j sp pc w)
  have "ok (sys_clients s ! j)" using bal Client(2) by (simp add: balanced_def)
  then have law: "amount w + cpart (sys_clients s ! j) = amount (sys_world s) + cpart pc" "ok pc"
    using client_law [OF dq _ Client(3)] by blast+
  from transferred_total [OF sum_list_update_add [OF Client(2), of cpart pc] law(1)] bal
    Client(4) law(2) set_update_subset_insert [of "sys_clients s" j pc]
  show ?thesis by (auto simp: balanced_def add.commute)
next
  case (Start j op)
  then have "j < length (sys_clients s)" "cpart (sys_clients s ! j) = 0"
    by (simp_all add: may_start_def free_law)
  with bal Start(3) start_law [of op] sum_list_update_add [of j "sys_clients s" cpart "start_op op"]
    set_update_subset_insert [of "sys_clients s" j "start_op op"]
  show ?thesis by (auto simp: balanced_def)
qed

lemma reachable_balanced:
  assumes "deque_ok dq" and "reachable dq sy cap s"
  shows "amount (sys_world s) = sum_list (map (\<lambda>wk. wpart (wk_pc wk)) (sys_workers s)) +
    sum_list (map cpart (sys_clients s))"
proof -
  have "balanced s"
    using assms(2) unfolding reachable_def
  proof (induction rule: reach.induct)
    case (reach_init s)
    then show ?case by (auto simp: sys_init_def balanced_init)
  next
    case (reach_step s l s')
    have "sys_shape s" using assms(1) reach_step(1) by (intro reachable_shape) (simp_all add: reachable_def)
    with assms(1) reach_step show ?case by (blast intro: balanced_step)
  qed
  then show ?thesis by (simp add: balanced_def)
qed

end

section \<open>Published sleepers\<close>

text \<open>The points of a worker between publishing itself as sleeping and withdrawing that.\<close>

fun sleeper :: "worker_pc \<Rightarrow> nat" where
  "sleeper (WPop Published pc) = 1"
| "sleeper (WReadShutdown Published) = 1"
| "sleeper (WReadInFlight Published) = 1"
| "sleeper WSleep = 1"
| "sleeper WBlockedOn = 1"
| "sleeper (WUnpublish a) = 1"
| "sleeper _ = 0"

lemma sleeper_simps [simp]:
  "sleeper (WPop ph pc) = (if ph = Published then 1 else 0)"
  "sleeper (WReadShutdown ph) = (if ph = Published then 1 else 0)"
  "sleeper (WReadInFlight ph) = (if ph = Published then 1 else 0)"
  "sleeper (proceed ph) = (if ph = Published then 1 else 0)"
  "sleeper (leave ph a) = (if ph = Published then 1 else 0)"
  "sleeper (after_search ph r) = (if ph = Published then 1 else 0)"
  "sleeper (follow a) = 0" "sleeper (group_or_next g) = 0"
proof -
  show f: "sleeper (follow a) = 0" for a by (cases a) simp_all
  show l: "sleeper (leave ph a) = (if ph = Published then 1 else 0)" for a by (cases ph) (simp_all add: f)
  show d: "sleeper (WReadShutdown ph) = (if ph = Published then 1 else 0)" by (cases ph) simp_all
  show "sleeper (WPop ph pc) = (if ph = Published then 1 else 0)" by (cases ph) simp_all
  show "sleeper (WReadInFlight ph) = (if ph = Published then 1 else 0)" by (cases ph) simp_all
  show "sleeper (proceed ph) = (if ph = Published then 1 else 0)" by (cases ph) simp_all
  show "sleeper (after_search ph r) = (if ph = Published then 1 else 0)" by (cases r) (simp_all add: l d)
  show "sleeper (group_or_next g) = 0" by (cases g) (simp_all add: group_or_next_def)
qed

lemma worker_step_sleeping:
  assumes "worker_step dq sy me wk w = Some (wk', w')"
  shows "ws_sleeping_workers (shared w') + of_nat (sleeper (wk_pc wk)) =
    ws_sleeping_workers (shared w) + of_nat (sleeper (wk_pc wk'))"
  using assms
  by (cases "wk_pc wk")
    (auto simp: worker_step_def shared_action_defs group_fetch_sub_def Let_def
      split: if_splits prod.splits sum.splits)

lemma client_step_sleeping:
  assumes "client_step dq sy cap j sp joined pc w = Some (pc', w')"
  shows "ws_sleeping_workers (shared w') = ws_sleeping_workers (shared w)"
proof -
  have push: "ws_sleeping_workers (shared w') = ws_sleeping_workers (shared w)"
    if "push_step dq sy cap sp q w = Some (q', w')" for q q'
    using that
    by (cases q)
      (auto simp: shared_action_defs group_fetch_sub_def Let_def in_flight_cas_weak_def
        split: if_splits sum.splits)
  show ?thesis
    using assms push by (cases pc) (auto simp: shared_action_defs sched_wait_step_def split: if_splits)
qed

interpretation sleepers: ledger dq sy cap "\<lambda>w. ws_sleeping_workers (shared w)"
  "\<lambda>pc. of_nat (sleeper pc)" "\<lambda>_. 0" "\<lambda>_. True" for dq sy cap
  by unfold_locales
    (simp_all add: worker_step_sleeping client_step_sleeping world_new_def worker_shared_new_def)

section \<open>Task statistics\<close>

text \<open>Called tasks whose completion is not recorded yet, and published ones not yet recorded as submitted.\<close>

fun unrecorded_call :: "worker_pc \<Rightarrow> nat" where
  "unrecorded_call (WRunning t) = 1"
| "unrecorded_call (WRecord g) = 1"
| "unrecorded_call _ = 0"

fun unrecorded_push :: "client_pc \<Rightarrow> nat" where
  "unrecorded_push (CPush QRecord) = 1"
| "unrecorded_push _ = 0"

lemma unrecorded_simps [simp]:
  "unrecorded_call (proceed ph) = 0" "unrecorded_call (leave ph a) = 0" "unrecorded_call (follow a) = 0"
  "unrecorded_call (after_search ph r) = 0" "unrecorded_call (group_or_next g) = 0"
proof -
  show f: "unrecorded_call (follow a) = 0" for a by (cases a) simp_all
  show l: "unrecorded_call (leave ph a) = 0" for a by (cases ph) (simp_all add: f)
  show "unrecorded_call (proceed ph) = 0" by (cases ph) simp_all
  show "unrecorded_call (after_search ph r) = 0" by (cases r) (simp_all add: l)
  show "unrecorded_call (group_or_next g) = 0" by (cases g) (simp_all add: group_or_next_def)
qed

text \<open>The queues record fairness and steals only.\<close>

lemma pop_step_task_stats:
  assumes "pop_step dq me pc (qs, ss, st, ps) = (res, qs', ss', st', ps')"
  shows "submitted st' = submitted st \<and> completed st' = completed st"
  using assms
  by (cases "(dq, me, pc, (qs, ss, st, ps))" rule: pop_step.cases)
    (auto simp: probe_def record_fairness_yield_def record_steal_attempt_def record_steal_success_def
      record_steal_failure_def Let_def
      split: if_splits prod.splits option.splits steal.splits)

lemma worker_step_statistics:
  assumes "worker_step dq sy me wk w = Some (wk', w')"
  shows "submitted (ws_stats (shared w')) = submitted (ws_stats (shared w))"
    and "of_nat (length (calls w')) - completed (ws_stats (shared w')) + of_nat (unrecorded_call (wk_pc wk)) =
      of_nat (length (calls w)) - completed (ws_stats (shared w)) + of_nat (unrecorded_call (wk_pc wk'))"
proof -
  show "submitted (ws_stats (shared w')) = submitted (ws_stats (shared w))"
    using assms
    by (cases "wk_pc wk")
      (auto simp: worker_step_def shared_action_defs group_fetch_sub_def Let_def record_completion_def
        dest: pop_step_task_stats split: if_splits prod.splits sum.splits)
  show "of_nat (length (calls w')) - completed (ws_stats (shared w')) + of_nat (unrecorded_call (wk_pc wk)) =
      of_nat (length (calls w)) - completed (ws_stats (shared w)) + of_nat (unrecorded_call (wk_pc wk'))"
    using assms
    by (cases "wk_pc wk")
      (auto simp: worker_step_def shared_action_defs group_fetch_sub_def Let_def record_completion_def
        dest: pop_step_task_stats split: if_splits prod.splits sum.splits)
qed

lemma client_step_statistics:
  assumes "client_step dq sy cap j sp joined pc w = Some (pc', w')"
  shows "completed (ws_stats (shared w')) = completed (ws_stats (shared w))"
    and "submitted (ws_stats (shared w')) = submitted (ws_stats (shared w)) + of_nat (unrecorded_push pc)"
    and "unrecorded_push pc' = length (publishes pc)"
proof -
  have push: "completed (ws_stats (shared w')) = completed (ws_stats (shared w)) \<and>
      submitted (ws_stats (shared w')) = submitted (ws_stats (shared w)) + of_nat (unrecorded_push (CPush q)) \<and>
      unrecorded_push (CPush q') = length (publishes (CPush q))"
    if "push_step dq sy cap sp q w = Some (q', w')" for q q'
    using that
    by (cases q)
      (auto simp: shared_action_defs group_fetch_sub_def Let_def in_flight_cas_weak_def record_submission_def
        record_queue_full_def register_or_check_def split: if_splits sum.splits option.splits)
  have "completed (ws_stats (shared w')) = completed (ws_stats (shared w)) \<and>
      submitted (ws_stats (shared w')) = submitted (ws_stats (shared w)) + of_nat (unrecorded_push pc) \<and>
      unrecorded_push pc' = length (publishes pc)"
    using assms push by (cases pc) (auto simp: shared_action_defs sched_wait_step_def split: if_splits)
  then show "completed (ws_stats (shared w')) = completed (ws_stats (shared w))"
    and "submitted (ws_stats (shared w')) = submitted (ws_stats (shared w)) + of_nat (unrecorded_push pc)"
    and "unrecorded_push pc' = length (publishes pc)" by simp_all
qed

lemma unrecorded_push_free: "client_free pc \<Longrightarrow> unrecorded_push pc = 0"
  by (cases pc rule: client_free.cases) simp_all

lemma unrecorded_push_start [simp]: "unrecorded_push (start_op op) = 0"
  by (cases op) simp_all

lemma queued_fold_push:
  "deque_ok dq \<Longrightarrow> size (queued (fold (push_global dq) ts qs)) = size (queued qs) + length ts"
  by (induction ts arbitrary: qs) (simp_all add: queued_push_global)

lemma world_new_idle:
  "calls (world_new n) = []" "queued (ws_queues (shared (world_new n))) = {#}"
  "ws_stats (shared (world_new n)) = stats_new" "groups (world_new n) = (\<lambda>_. group_new)"
  by (simp_all add: world_new_def worker_shared_new_def queue_system_new_def queued_def)

interpretation completions: ledger dq sy cap
  "\<lambda>w. of_nat (length (calls w)) - completed (ws_stats (shared w))"
  "\<lambda>pc. of_nat (unrecorded_call pc)" "\<lambda>_. 0" "\<lambda>_. True" for dq sy cap
proof unfold_locales
  show "of_nat (length (calls w')) - completed (ws_stats (shared w')) + 0 =
      of_nat (length (calls w)) - completed (ws_stats (shared w)) + 0 \<and> True"
    if "client_step dq sy cap j sp joined pc w = Some (pc', w')" for j sp joined pc w pc' w'
    using client_step_statistics(1) [OF that] client_step_queues(2) [OF that] by simp
qed (simp_all add: worker_step_statistics(2) world_new_idle stats_new_def)

interpretation submissions: ledger dq sy cap
  "\<lambda>w. of_nat (length (calls w) + size (queued (ws_queues (shared w)))) - submitted (ws_stats (shared w))"
  "\<lambda>pc. - of_nat (size (in_hand pc))" "\<lambda>pc. of_nat (unrecorded_push pc)" "\<lambda>_. True" for dq sy cap
proof unfold_locales
  let ?a = "\<lambda>w. of_nat (length (calls w) + size (queued (ws_queues (shared w)))) - submitted (ws_stats (shared w))"
  show "?a w' + - of_nat (size (in_hand (wk_pc wk))) = ?a w + - of_nat (size (in_hand (wk_pc wk')))"
    if "deque_ok dq" and "me < length (q_locals (ws_queues (shared w)))"
      and "worker_step dq sy me wk w = Some (wk', w')" for me w wk wk' w'
  proof -
    have "length (calls w') + size (queued (ws_queues (shared w'))) + size (in_hand (wk_pc wk')) =
        length (calls w) + size (queued (ws_queues (shared w))) + size (in_hand (wk_pc wk))"
      using arg_cong [OF worker_step_conserves [OF that], of size] by simp
    from arg_cong [OF this, of "of_nat :: nat \<Rightarrow> usize"] show ?thesis
      using worker_step_statistics(1) [OF that(3)] by (simp add: algebra_simps)
  qed
  show "?a w' + of_nat (unrecorded_push pc) = ?a w + of_nat (unrecorded_push pc') \<and> True"
    if "deque_ok dq" and "client_step dq sy cap j sp joined pc w = Some (pc', w')" for j sp joined pc w pc' w'
    using client_step_statistics [OF that(2)] client_step_queues [OF that(2)] that(1)
    by (simp add: queued_fold_push algebra_simps)
qed (simp_all add: world_new_idle stats_new_def unrecorded_push_free)

section \<open>Tasks of a group\<close>

definition tasks_of :: "gid \<Rightarrow> task multiset \<Rightarrow> nat" where
  "tasks_of g M = size (filter_mset (\<lambda>t. tk_group t = Some g) M)"

lemma tasks_of_simps [simp]:
  "tasks_of g {#} = 0" "tasks_of g (M + N) = tasks_of g M + tasks_of g N"
  "tasks_of g {#t#} = (if tk_group t = Some g then 1 else 0)"
  "tasks_of g (add_mset t M) = (if tk_group t = Some g then 1 else 0) + tasks_of g M"
  by (simp_all add: tasks_of_def)

text \<open>
  What a worker and a submission contribute to the count of group \<open>g\<close>: a task of the
  group in hand or executing, up to the decrement, and a registration that is not
  yet a published task.
\<close>

fun group_executing :: "gid \<Rightarrow> worker_pc \<Rightarrow> nat" where
  "group_executing g (WRunning t) = (if tk_group t = Some g then 1 else 0)"
| "group_executing g (WRecord x) = (if x = Some g then 1 else 0)"
| "group_executing g (WDecrement x) = (if x = Some g then 1 else 0)"
| "group_executing g (WNotifyIdle x) = (if x = Some g then 1 else 0)"
| "group_executing g (WGroupDecrement x) = (if x = g then 1 else 0)"
| "group_executing g _ = 0"

definition worker_group :: "gid \<Rightarrow> worker_pc \<Rightarrow> nat" where
  "worker_group g pc = tasks_of g (in_hand pc) + group_executing g pc"

fun client_group :: "gid \<Rightarrow> client_pc \<Rightarrow> nat" where
  "client_group g (CPush (QGroupReread t x)) = (if x = g then 1 else 0)"
| "client_group g (CPush (QGroupUndo x)) = (if x = g then 1 else 0)"
| "client_group g (CPush (QCheckFinal t)) = (if tk_group t = Some g then 1 else 0)"
| "client_group g (CPush (QRollback x)) = (if x = Some g then 1 else 0)"
| "client_group g (CPush (QRollbackGroup x)) = (if x = g then 1 else 0)"
| "client_group g (CPush (QPublish t)) = (if tk_group t = Some g then 1 else 0)"
| "client_group g _ = 0"

fun own_group :: "client_pc \<Rightarrow> bool" where
  "own_group (CPush (QGroupRead t x)) = (tk_group t = Some x)"
| "own_group (CPush (QGroupAdd t x)) = (tk_group t = Some x)"
| "own_group (CPush (QGroupReread t x)) = (tk_group t = Some x)"
| "own_group _ = True"

lemma group_executing_simps [simp]:
  "group_executing g (proceed ph) = 0" "group_executing g (leave ph a) = 0" "group_executing g (follow a) = 0"
  "group_executing g (after_search ph r) = 0"
  "group_executing g (group_or_next x) = (if x = Some g then 1 else 0)"
proof -
  show f: "group_executing g (follow a) = 0" for a by (cases a) simp_all
  show l: "group_executing g (leave ph a) = 0" for a by (cases ph) (simp_all add: f)
  show "group_executing g (proceed ph) = 0" by (cases ph) simp_all
  show "group_executing g (after_search ph r) = 0" by (cases r) (simp_all add: l)
  show "group_executing g (group_or_next x) = (if x = Some g then 1 else 0)"
    by (cases x) (simp_all add: group_or_next_def)
qed

lemma client_group_start [simp]: "client_group g (start_op op) = 0" "own_group (start_op op)"
  by (cases op; simp)+

lemma client_group_free: "client_free pc \<Longrightarrow> client_group g pc = 0"
  by (cases pc rule: client_free.cases) simp_all

abbreviation group_count :: "gid \<Rightarrow> world \<Rightarrow> usize" where
  "group_count g w \<equiv> grp_tasks_in_flight (groups w g)"

definition group_amount :: "gid \<Rightarrow> world \<Rightarrow> usize" where
  "group_amount g w = group_count g w - of_nat (tasks_of g (queued (ws_queues (shared w))))"

lemma worker_step_group:
  assumes dq: "deque_ok dq" and me: "me < length (q_locals (ws_queues (shared w)))"
    and step: "worker_step dq sy me wk w = Some (wk', w')"
  shows "group_amount g w' + of_nat (worker_group g (wk_pc wk)) =
    group_amount g w + of_nat (worker_group g (wk_pc wk'))"
proof (cases "\<exists>ph pc. wk_pc wk = WPop ph pc")
  case True
  then obtain ph pc where pc: "wk_pc wk = WPop ph pc" by blast
  from dq me step pc show ?thesis
  proof (rule worker_pop_effect)
    fix r st
    assume q: "pop_sound (ws_queues (shared w)) r (ws_queues (shared w'))"
      and w': "w' = w\<lparr>shared := (shared w)\<lparr>ws_queues := ws_queues (shared w'), ws_stats := st\<rparr>\<rparr>"
      and h: "in_hand (wk_pc wk') = handed_out r"
      and to: "wk_pc wk' = after_search ph r \<or> (\<exists>pc'. wk_pc wk' = WPop ph pc')"
    have same: "groups w' = groups w" by (subst w') simp
    have "tasks_of g (queued (ws_queues (shared w))) =
        tasks_of g (queued (ws_queues (shared w'))) + tasks_of g (handed_out r)"
      using q by (simp add: pop_sound_def)
    moreover have "group_executing g (wk_pc wk') = 0" using to by auto
    ultimately show ?thesis using pc h by (simp add: group_amount_def worker_group_def same)
  qed
next
  case False
  with worker_other_effect [OF step False] step show ?thesis
    by (cases "wk_pc wk")
      (auto simp: worker_step_def worker_group_def group_amount_def shared_action_defs group_action_defs
        take_group_def Let_def split: if_splits)
qed

lemma push_step_group:
  assumes "deque_ok dq" and "own_group (CPush q)" and "push_step dq sy cap sp q w = Some (q', w')"
  shows "group_amount g w' + of_nat (client_group g (CPush q)) =
    group_amount g w + of_nat (client_group g (CPush q')) \<and> own_group (CPush q')"
  using assms
  by (cases q)
    (auto simp: group_amount_def shared_action_defs group_action_defs Let_def in_flight_cas_weak_def
      register_or_check_def queued_push_global split: if_splits sum.splits option.splits)

lemma client_step_group:
  assumes "deque_ok dq" and "own_group pc" and "client_step dq sy cap j sp joined pc w = Some (pc', w')"
  shows "group_amount g w' + of_nat (client_group g pc) = group_amount g w + of_nat (client_group g pc') \<and>
    own_group pc'"
proof (cases "\<exists>q. pc = CPush q")
  case True
  with assms push_step_group [OF assms(1)] show ?thesis by auto
next
  case False
  with assms(3) show ?thesis
    by (cases pc)
      (auto simp: group_amount_def shared_action_defs group_action_defs sched_wait_step_def
        group_wait_step_def split: if_splits)
qed

interpretation group_ledger: ledger dq sy cap "group_amount g" "\<lambda>pc. of_nat (worker_group g pc)"
  "\<lambda>pc. of_nat (client_group g pc)" own_group for dq sy cap g
proof unfold_locales
  show "group_amount g (world_new n) = 0" for n
    by (simp add: group_amount_def world_new_idle group_new_def)
  show "of_nat (worker_group g (WPop Fast PStart)) = (0 :: usize)" by (simp add: worker_group_def)
qed (simp_all add: worker_step_group client_step_group client_group_free)

text \<open>The unfinished tasks of a group, and their bound by what a machine can hold.\<close>

definition group_outstanding :: "gid \<Rightarrow> sys \<Rightarrow> nat" where
  "group_outstanding g s =
     sum_list (map (client_group g) (sys_clients s)) + tasks_of g (sys_queued s) +
     sum_list (map (\<lambda>wk. worker_group g (wk_pc wk)) (sys_workers s))"

lemma of_nat_sum_list: "sum_list (map (\<lambda>x. of_nat (f x)) xs) = of_nat (sum_list (map f xs))"
  by (induction xs) simp_all

lemma reachable_group_count:
  assumes "deque_ok dq" and "reachable dq sy cap s"
  shows "group_count g (sys_world s) = of_nat (group_outstanding g s)"
  using group_ledger.reachable_balanced [OF assms, of g]
  by (simp add: group_amount_def group_outstanding_def of_nat_sum_list algebra_simps)

lemma tasks_of_le: "tasks_of g M \<le> size M"
  by (simp add: tasks_of_def size_filter_mset_lesseq)

lemma sum_list_bound_length:
  assumes "\<And>x. f x \<le> (h x :: nat) + 1"
  shows "sum_list (map f xs) \<le> sum_list (map h xs) + length xs"
  by (induction xs) (use assms in \<open>auto intro: le_trans [OF add_mono]\<close>)

lemma worker_group_le: "worker_group g pc \<le> busy pc + 1"
  by (cases "(g, pc)" rule: group_executing.cases)
    (use tasks_of_le [of g "in_hand pc"] in \<open>auto simp: worker_group_def busy_def\<close>)

lemma client_group_le: "client_group g pc \<le> client_slot pc + 1"
  by (cases "(g, pc)" rule: client_group.cases) auto

lemma group_outstanding_le:
  "group_outstanding g s \<le> outstanding s + length (sys_workers s) + length (sys_clients s)"
  using sum_list_bound_length [of "client_group g" client_slot "sys_clients s", OF client_group_le]
    sum_list_bound_length [of "\<lambda>wk. worker_group g (wk_pc wk)" "\<lambda>wk. busy (wk_pc wk)" "sys_workers s",
      OF worker_group_le] tasks_of_le [of g "sys_queued s"]
  by (simp add: group_outstanding_def outstanding_def)

lemma group_idle:
  assumes "deque_ok dq" and "reachable_real dq sy cap s" and "group_count g (sys_world s) = 0"
  shows "group_outstanding g s = 0"
proof -
  have "group_outstanding g s < 2 ^ 64"
    using group_outstanding_le [of g s] reachable_real_realistic [OF assms(2)]
    by (simp add: realistic_def)
  with assms(3) reachable_group_count [OF assms(1) reachable_real_reachable [OF assms(2)]] show ?thesis
    by (simp add: of_nat_eq_0_64)
qed

section \<open>Properties\<close>

text \<open>
  Property C25. The count of sleeping workers that submissions read is exact: it is
  the number of workers between publishing themselves and withdrawing, at most the
  number of workers, and so it is not zero whenever some worker is blocked.
\<close>

theorem sleeping_counter_exact:
  assumes "deque_ok dq" and "reachable dq sy capacity s"
  shows "unat (ws_sleeping_workers (sys_shared s)) =
      sum_list (map (\<lambda>wk. sleeper (wk_pc wk)) (sys_workers s)) \<and>
    unat (ws_sleeping_workers (sys_shared s)) \<le> length (sys_workers s) \<and>
    (WBlockedOn \<in> wk_pc ` set (sys_workers s) \<longrightarrow> ws_sleeping_workers (sys_shared s) \<noteq> 0)"
proof -
  let ?n = "sum_list (map (\<lambda>wk. sleeper (wk_pc wk)) (sys_workers s))"
  have one: "sleeper pc \<le> 0 + 1" for pc by (cases pc rule: sleeper.cases) simp_all
  have le: "?n \<le> length (sys_workers s)"
    using sum_list_bound_length [of "\<lambda>wk. sleeper (wk_pc wk)" "\<lambda>_. 0" "sys_workers s", OF one] by simp
  have "length (sys_workers s) \<le> 2 ^ 63"
    using reachable_shape [OF assms] by (cases "sys_workers s") (auto simp: sys_shape_def worker_view_ok_def)
  with le have "unat (of_nat ?n :: usize) = ?n" by (intro unat_of_nat_64) simp
  then have cnt: "unat (ws_sleeping_workers (sys_shared s)) = ?n"
    using sleepers.reachable_balanced [OF assms] by (simp add: of_nat_sum_list sum_list_0)
  moreover have "?n \<noteq> 0" if "WBlockedOn \<in> wk_pc ` set (sys_workers s)"
    using that by (auto simp: image_iff intro!: bexI [rotated])
  ultimately show ?thesis using le by auto
qed

text \<open>
  Property C26. The task statistics are exact in every interleaving: the submissions
  recorded, plus the clients that have published a task and are about to record it,
  are the published tasks; the completions recorded, plus the workers whose task has
  been called but not recorded, are the calls.
\<close>

theorem task_statistics_exact:
  assumes "deque_ok dq" and "reachable dq sy capacity s"
  shows "submitted (ws_stats (sys_shared s)) + of_nat (sum_list (map unrecorded_push (sys_clients s))) =
      of_nat (length (sys_published s)) \<and>
    completed (ws_stats (sys_shared s)) +
      of_nat (sum_list (map (\<lambda>wk. unrecorded_call (wk_pc wk)) (sys_workers s))) =
      of_nat (length (calls (sys_world s)))"
proof -
  have hand: "size (sum_list (map (\<lambda>wk. in_hand (wk_pc wk)) xs)) =
      sum_list (map (\<lambda>wk. size (in_hand (wk_pc wk))) xs)" for xs
    by (induction xs) simp_all
  have neg: "sum_list (map (\<lambda>wk. - of_nat (size (in_hand (wk_pc wk)))) xs) =
      - (of_nat (sum_list (map (\<lambda>wk. size (in_hand (wk_pc wk))) xs)) :: usize)" for xs
    by (induction xs) simp_all
  let ?h = "sum_list (map (\<lambda>wk. size (in_hand (wk_pc wk))) (sys_workers s))"
  have pub: "length (sys_published s) = length (calls (sys_world s)) + size (sys_queued s) + ?h"
    using arg_cong [OF reachable_conserved [OF assms, unfolded conserved_def], of size]
    by (simp add: pending_def hand)
  have "of_nat (length (calls (sys_world s)) + size (sys_queued s)) - submitted (ws_stats (sys_shared s)) =
      - of_nat ?h + of_nat (sum_list (map unrecorded_push (sys_clients s)))"
    using submissions.reachable_balanced [OF assms] by (simp only: neg of_nat_sum_list)
  then have "submitted (ws_stats (sys_shared s)) + of_nat (sum_list (map unrecorded_push (sys_clients s))) =
      of_nat (length (sys_published s))"
    unfolding pub by (simp only: of_nat_add) (simp add: algebra_simps)
  moreover have "completed (ws_stats (sys_shared s)) +
      of_nat (sum_list (map (\<lambda>wk. unrecorded_call (wk_pc wk)) (sys_workers s))) =
      of_nat (length (calls (sys_world s)))"
    using completions.reachable_balanced [OF assms] by (simp add: of_nat_sum_list sum_list_0 algebra_simps)
  ultimately show ?thesis ..
qed

text \<open>
  Property C7. \<open>TaskGroup::wait\<close> leaves its loop only at a moment at which the group is
  idle: no submission is registered with it, none of its tasks is queued, and no
  worker holds or executes one.
\<close>

theorem group_wait_returns_only_when_idle:
  assumes "deque_ok dq" and "reachable_real dq sy capacity s"
    and "sys_step dq sy capacity (LClient j spurious) s = Some s'"
    and "sys_clients s ! j = CGroupWait g WaitCheck" and "sys_clients s' ! j = CGroupWait g WaitUnlock"
  shows "group_outstanding g s = 0"
proof -
  have "grp_tasks_in_flight (groups (sys_world s) g) = 0"
    using assms(3-5) by (auto simp: group_wait_step_def split: if_splits)
  with group_idle [OF assms(1,2)] show ?thesis by simp
qed

section \<open>Witnesses\<close>

text \<open>A single worker that found nothing to do and sleeps.\<close>

definition asleep_trace :: "label list" where
  "asleep_trace = worker_acts 0 27"

definition asleep_state :: sys where
  "asleep_state = the (sample_run 1 1 1 asleep_trace)"

lemma asleep_run: "sample_run 1 1 1 asleep_trace = Some asleep_state"
proof -
  have "sample_run 1 1 1 asleep_trace \<noteq> None" by code_simp
  then show ?thesis by (auto simp: asleep_state_def)
qed

theorem sleeping_counter_exact_witness:
  "map wk_pc (sys_workers asleep_state) = [WBlockedOn] \<and>
   unat (ws_sleeping_workers (sys_shared asleep_state)) = 1"
proof -
  have pcs: "map wk_pc (sys_workers asleep_state) = [WBlockedOn]" by code_simp
  have "reachable half_deque fifo_sync 1 asleep_state"
    by (rule sample_run_reachable [OF asleep_run]) simp_all
  from sleeping_counter_exact [OF half_deque_ok this] pcs show ?thesis by auto
qed

text \<open>
  A task of group 3 is submitted while another client waits for the group;
  \<open>group_idle_state\<close> is the moment that client looks at the count after the task
  has been executed.
\<close>

definition group_busy_trace :: "label list" where
  "group_busy_trace = LStart 0 (OpPush (task_new 7 0 High (Some 3))) # client_acts 0 11 @
     LStart 1 (OpGroupWait 3) # client_acts 1 1 @ worker_acts 0 4"

definition group_busy_state :: sys where
  "group_busy_state = the (sample_run 1 2 1 group_busy_trace)"

definition group_idle_trace :: "label list" where
  "group_idle_trace = group_busy_trace @ worker_acts 0 6"

definition group_idle_state :: sys where
  "group_idle_state = the (sample_run 1 2 1 group_idle_trace)"

lemma group_busy_run: "sample_run 1 2 1 group_busy_trace = Some group_busy_state"
proof -
  have "sample_run 1 2 1 group_busy_trace \<noteq> None" by code_simp
  then show ?thesis by (auto simp: group_busy_state_def)
qed

lemma group_idle_run: "sample_run 1 2 1 group_idle_trace = Some group_idle_state"
proof -
  have "sample_run 1 2 1 group_idle_trace \<noteq> None" by code_simp
  then show ?thesis by (auto simp: group_idle_state_def)
qed

lemma group_busy_reachable: "reachable half_deque fifo_sync 1 group_busy_state"
  by (rule sample_run_reachable [OF group_busy_run]) simp_all

theorem task_statistics_exact_witness:
  "map wk_pc (sys_workers group_busy_state) = [WRunning (task_new 7 0 High (Some 3))] \<and>
   submitted (ws_stats (sys_shared group_busy_state)) = 1 \<and>
   completed (ws_stats (sys_shared group_busy_state)) = 0"
proof -
  have "map wk_pc (sys_workers group_busy_state) = [WRunning (task_new 7 0 High (Some 3))]" by code_simp
  moreover have "map unrecorded_push (sys_clients group_busy_state) = [0, 0]" by code_simp
  moreover have "map (\<lambda>wk. unrecorded_call (wk_pc wk)) (sys_workers group_busy_state) = [1]" by code_simp
  moreover have "length (sys_published group_busy_state) = 1" "length (calls (sys_world group_busy_state)) = 1"
    by code_simp+
  ultimately show ?thesis
    using task_statistics_exact [OF half_deque_ok group_busy_reachable] by simp
qed

theorem group_wait_returns_only_when_idle_witness:
  "sys_clients group_idle_state ! 1 = CGroupWait 3 WaitCheck \<and> group_outstanding 3 group_idle_state = 0"
proof -
  have pc: "sys_clients group_idle_state ! 1 = CGroupWait 3 WaitCheck" by code_simp
  have "map_option (\<lambda>s. sys_clients s ! 1)
      (sys_step half_deque fifo_sync 1 (LClient 1 False) group_idle_state) = Some (CGroupWait 3 WaitUnlock)"
    by code_simp
  then obtain s' where s': "sys_step half_deque fifo_sync 1 (LClient 1 False) group_idle_state = Some s'"
    "sys_clients s' ! 1 = CGroupWait 3 WaitUnlock" by blast
  have real: "reachable_real half_deque fifo_sync 1 group_idle_state"
    by (rule sample_run_real [OF group_idle_run]) simp_all
  from group_wait_returns_only_when_idle [OF half_deque_ok real s'(1) pc s'(2)] pc show ?thesis by simp
qed

end
