(* ===== verification/Locking.thy ===== *)
theory Locking
  imports Ledger
begin

text \<open>
  Mutual exclusion and progress.  The sleep mutex and the mutex of every task group
  are used by the same protocol: the thread named by the mutex is the one between
  its lock and its unlock.  From it follows that the system can come to a stop only
  with every mutex free and every unfinished thread blocked in a condition variable
  or joining the workers; the concrete runs at the end show that it does so, with
  work left or a waiter whose condition holds.
\<close>

section \<open>The protocol of a mutex\<close>

locale mutex_protocol =
  fixes dq :: deque_api and sy :: sync_api and cap :: usize
    and lock :: "world \<Rightarrow> mutex" and wholds :: "worker_pc \<Rightarrow> bool" and cholds :: "client_pc \<Rightarrow> bool"
  assumes worker_law: "sync_ok sy \<Longrightarrow> worker_step dq sy i wk w = Some (wk', w') \<Longrightarrow>
      wholds (wk_pc wk) = (lock w = Some (WorkerThread i)) \<Longrightarrow>
      wholds (wk_pc wk') = (lock w' = Some (WorkerThread i)) \<and>
      (\<forall>t. t \<noteq> WorkerThread i \<longrightarrow> (lock w' = Some t) = (lock w = Some t))"
    and client_law: "sync_ok sy \<Longrightarrow> client_step dq sy cap j sp joined pc w = Some (pc', w') \<Longrightarrow>
      cholds pc = (lock w = Some (Client j)) \<Longrightarrow>
      cholds pc' = (lock w' = Some (Client j)) \<and>
      (\<forall>t. t \<noteq> Client j \<longrightarrow> (lock w' = Some t) = (lock w = Some t))"
    and free_law: "client_free pc \<Longrightarrow> \<not> cholds pc"
    and start_law: "\<not> cholds (start_op op)"
    and init_law: "lock (world_new n) = None" "\<not> wholds (WPop Fast PStart)" "\<not> cholds CIdle"
begin

fun holds :: "sys \<Rightarrow> tid \<Rightarrow> bool" where
  "holds s (WorkerThread i) = (i < length (sys_workers s) \<and> wholds (wk_pc (sys_workers s ! i)))"
| "holds s (Client j) = (j < length (sys_clients s) \<and> cholds (sys_clients s ! j))"

definition named :: "sys \<Rightarrow> bool" where
  "named s \<longleftrightarrow> (\<forall>t. holds s t = (lock (sys_world s) = Some t))"

lemma named_step:
  assumes sy: "sync_ok sy" and inv: "named s" and step: "sys_step dq sy cap l s = Some s'"
  shows "named s'"
  using step
proof (cases rule: sys_step_cases)
  case (Worker i wk w)
  have "wholds (wk_pc (sys_workers s ! i)) = (lock (sys_world s) = Some (WorkerThread i))"
    using inv Worker(2) by (metis named_def holds.simps(1))
  note law = worker_law [OF sy Worker(3) this]
  have frame: "holds s' t = holds s t" if "t \<noteq> WorkerThread i" for t
    using that Worker(4) by (cases t) auto
  have "holds s' t = (lock w = Some t)" for t
    using law frame [of t] inv Worker(2,4) by (cases "t = WorkerThread i") (auto simp: named_def)
  with Worker(4) show ?thesis by (simp add: named_def)
next
  case (Client j sp pc w)
  have "cholds (sys_clients s ! j) = (lock (sys_world s) = Some (Client j))"
    using inv Client(2) by (metis named_def holds.simps(2))
  note law = client_law [OF sy Client(3) this]
  have frame: "holds s' t = holds s t" if "t \<noteq> tid.Client j" for t
    using that Client(4) by (cases t) auto
  have "holds s' t = (lock w = Some t)" for t
    using law frame [of t] inv Client(2,4) by (cases "t = tid.Client j") (auto simp: named_def)
  with Client(4) show ?thesis by (simp add: named_def)
next
  case (Start j op)
  have "holds s' t = holds s t" for t
    using Start(2,3) free_law start_law
    by (cases t) (auto simp: may_start_def nth_list_update)
  with inv Start(3) show ?thesis by (simp add: named_def)
qed

lemma reachable_named:
  assumes "sync_ok sy" and "reachable dq sy cap s"
  shows "holds s t = (lock (sys_world s) = Some t)"
proof -
  have "named s"
    using assms(2) unfolding reachable_def
  proof (induction rule: reach.induct)
    case (reach_init s)
    then obtain n c where "s = sys_new n c" by (auto simp: sys_init_def)
    then have "\<not> holds s t" for t
      by (cases t) (simp_all add: sys_new_def init_law worker_start_def)
    with \<open>s = sys_new n c\<close> show ?case by (simp add: named_def) (simp add: sys_new_def init_law)
  next
    case (reach_step s l s')
    with assms(1) show ?case by (blast intro: named_step)
  qed
  then show ?thesis by (simp add: named_def)
qed

lemma exclusive:
  assumes "sync_ok sy" and "reachable dq sy cap s" and "holds s t" and "holds s u"
  shows "t = u"
  using assms(3,4) reachable_named [OF assms(1,2)] by simp

end

section \<open>The mutexes of the program\<close>

fun worker_holds :: "worker_pc \<Rightarrow> bool" where
  "worker_holds (WPop ph pc) = (ph \<noteq> Fast)"
| "worker_holds (WReadShutdown ph) = (ph \<noteq> Fast)"
| "worker_holds (WReadInFlight ph) = (ph \<noteq> Fast)"
| "worker_holds WPublish = True"
| "worker_holds WSleep = True"
| "worker_holds (WUnpublish a) = True"
| "worker_holds (WRelease a) = True"
| "worker_holds _ = False"

fun client_holds :: "client_pc \<Rightarrow> bool" where
  "client_holds (CWait pc) = wait_holds pc"
| "client_holds _ = False"

fun client_holds_group :: "gid \<Rightarrow> client_pc \<Rightarrow> bool" where
  "client_holds_group g (CGroupWait x pc) = (x = g \<and> wait_holds pc)"
| "client_holds_group g _ = False"

lemma worker_holds_simps [simp]:
  "worker_holds (leave ph a) = (ph \<noteq> Fast)" "worker_holds (proceed ph) = (ph \<noteq> Fast)"
  "\<not> worker_holds (follow a)" "worker_holds (after_search ph r) = (ph \<noteq> Fast)"
  "\<not> worker_holds (group_or_next g)"
proof -
  show f: "\<not> worker_holds (follow a)" for a by (cases a) simp_all
  show l: "worker_holds (leave ph a) = (ph \<noteq> Fast)" for a by (cases ph) (simp_all add: f)
  show "worker_holds (proceed ph) = (ph \<noteq> Fast)" by (cases ph) simp_all
  show "worker_holds (after_search ph r) = (ph \<noteq> Fast)" by (cases r) (simp_all add: l)
  show "\<not> worker_holds (group_or_next g)" by (cases g) (simp_all add: group_or_next_def)
qed

lemma wait_step_holds:
  assumes "sync_ok sy" and "wait_step sy t cond pc m cv = Some (pc', m', cv')"
    and "wait_holds pc = (m = Some t)"
  shows "wait_holds pc' = (m' = Some t) \<and> (\<forall>u. u \<noteq> t \<longrightarrow> (m' = Some u) = (m = Some u))"
  using assms
  by (cases pc) (auto simp: mutex_lock_Some sync_okD split: if_splits)

lemma worker_step_holds:
  assumes "sync_ok sy" and "worker_step dq sy i wk w = Some (wk', w')"
    and "worker_holds (wk_pc wk) = (ws_sleep_lock (shared w) = Some (WorkerThread i))"
  shows "worker_holds (wk_pc wk') = (ws_sleep_lock (shared w') = Some (WorkerThread i)) \<and>
    (\<forall>t. t \<noteq> WorkerThread i \<longrightarrow> (ws_sleep_lock (shared w') = Some t) = (ws_sleep_lock (shared w) = Some t))"
  using assms
  by (cases "wk_pc wk")
    (auto simp: worker_step_def shared_action_defs group_action_defs Let_def mutex_lock_Some sync_okD
      split: if_splits prod.splits sum.splits)

lemma worker_step_group_lock:
  assumes "worker_step dq sy i wk w = Some (wk', w')"
  shows "grp_wait_lock (groups w' g) = grp_wait_lock (groups w g)"
  using assms
  by (cases "wk_pc wk")
    (auto simp: worker_step_def shared_action_defs group_action_defs Let_def
      split: if_splits prod.splits sum.splits)

lemma push_step_locks:
  assumes "push_step dq sy cap sp q w = Some (q', w')"
  shows "ws_sleep_lock (shared w') = ws_sleep_lock (shared w)"
    and "grp_wait_lock (groups w' g) = grp_wait_lock (groups w g)"
  using assms
  by (cases q; auto simp: shared_action_defs group_action_defs Let_def in_flight_cas_weak_def
      split: if_splits sum.splits)+

lemma client_step_holds:
  assumes "sync_ok sy" and "client_step dq sy cap j sp joined pc w = Some (pc', w')"
    and "client_holds pc = (ws_sleep_lock (shared w) = Some (Client j))"
  shows "client_holds pc' = (ws_sleep_lock (shared w') = Some (Client j)) \<and>
    (\<forall>t. t \<noteq> Client j \<longrightarrow> (ws_sleep_lock (shared w') = Some t) = (ws_sleep_lock (shared w) = Some t))"
  using assms push_step_locks(1)
  by (cases pc)
    (auto simp: shared_action_defs sched_wait_step_def dest!: wait_step_holds [OF assms(1)] split: if_splits)

lemma client_step_holds_group:
  assumes "sync_ok sy" and "client_step dq sy cap j sp joined pc w = Some (pc', w')"
    and "client_holds_group g pc = (grp_wait_lock (groups w g) = Some (Client j))"
  shows "client_holds_group g pc' = (grp_wait_lock (groups w' g) = Some (Client j)) \<and>
    (\<forall>t. t \<noteq> Client j \<longrightarrow>
      (grp_wait_lock (groups w' g) = Some t) = (grp_wait_lock (groups w g) = Some t))"
  using assms push_step_locks(2)
  by (cases pc)
    (auto simp: shared_action_defs group_action_defs sched_wait_step_def group_wait_step_def
      dest!: wait_step_holds [OF assms(1)] split: if_splits)

lemma client_holds_free: "client_free pc \<Longrightarrow> \<not> client_holds pc \<and> \<not> client_holds_group g pc"
  by (cases pc rule: client_free.cases) simp_all

lemma client_holds_start: "\<not> client_holds (start_op op)" "\<not> client_holds_group g (start_op op)"
  by (cases op; simp)+

interpretation sleep_mutex: mutex_protocol dq sy cap "\<lambda>w. ws_sleep_lock (shared w)"
  worker_holds client_holds for dq sy cap
  by unfold_locales
    (simp_all add: worker_step_holds client_step_holds client_holds_free client_holds_start
      world_new_def worker_shared_new_def)

interpretation group_mutex: mutex_protocol dq sy cap "\<lambda>w. grp_wait_lock (groups w g)"
  "\<lambda>_. False" "client_holds_group g" for dq sy cap g
  by unfold_locales
    (simp_all add: worker_step_group_lock client_step_holds_group client_holds_free client_holds_start
      world_new_def group_new_def)

section \<open>Where threads can be stuck\<close>

text \<open>A state in which no thread can take a step, other than by a client starting a new call.\<close>

definition stalled :: "deque_api \<Rightarrow> sync_api \<Rightarrow> usize \<Rightarrow> sys \<Rightarrow> bool" where
  "stalled dq sy cap s \<longleftrightarrow>
     list_all (\<lambda>i. sys_step dq sy cap (LWorker i) s = None) [0..<length (sys_workers s)] \<and>
     list_all (\<lambda>j. sys_step dq sy cap (LClient j False) s = None) [0..<length (sys_clients s)]"

fun worker_parked :: "sys \<Rightarrow> nat \<Rightarrow> worker_pc \<Rightarrow> bool" where
  "worker_parked s i WDone = True"
| "worker_parked s i WBlockedOn = (WorkerThread i \<in> set (cv_waiting (ws_wake (sys_shared s))))"
| "worker_parked s i _ = False"

fun client_parked :: "sys \<Rightarrow> nat \<Rightarrow> client_pc \<Rightarrow> bool" where
  "client_parked s j (CWait WaitBlocked) = (Client j \<in> set (cv_waiting (ws_wake (sys_shared s))))"
| "client_parked s j (CGroupWait g WaitBlocked) =
     (Client j \<in> set (cv_waiting (grp_wake (groups (sys_world s) g))))"
| "client_parked s j CJoin = (\<not> all_joined s)"
| "client_parked s j CDestroyed = True"
| "client_parked s j pc = client_free pc"

lemma worker_step_None:
  assumes "sync_ok sy" and "worker_step dq sy i wk w = None"
  shows "\<not> worker_holds (wk_pc wk)"
    and "ws_sleep_lock (shared w) = None \<Longrightarrow>
      wk_pc wk = WDone \<or> wk_pc wk = WBlockedOn \<and> WorkerThread i \<in> set (cv_waiting (ws_wake (shared w)))"
  using assms
  by (cases "wk_pc wk"; auto simp: worker_step_def Let_def sync_okD split: prod.splits if_splits)+

lemma wait_step_None:
  assumes "sync_ok sy" and "wait_step sy t cond pc m cv = None"
  shows "\<not> wait_holds pc"
    and "m = None \<Longrightarrow> pc = WaitDone \<or> pc = WaitBlocked \<and> t \<in> set (cv_waiting cv)"
  using assms by (cases pc; auto simp: sync_okD split: if_splits)+

lemma push_step_None: "push_step dq sy cap sp q w = None \<Longrightarrow> \<exists>r. q = QDone r"
  by (cases q) (simp_all add: Let_def split: prod.splits)

lemma client_step_None:
  assumes "sync_ok sy"
    and "client_step dq sy cap j sp (all_joined s) pc (sys_world s) = None"
  shows "\<not> client_holds pc" and "\<not> client_holds_group g pc"
    and "ws_sleep_lock (sys_shared s) = None \<Longrightarrow> (\<And>g. grp_wait_lock (groups (sys_world s) g) = None) \<Longrightarrow>
      client_parked s j pc"
proof -
  show "\<not> client_holds pc" and "\<not> client_holds_group g pc"
    using assms wait_step_None(1) [OF assms(1)]
    by (cases pc; force simp: sched_wait_step_def group_wait_step_def)+
  show "client_parked s j pc"
    if "ws_sleep_lock (sys_shared s) = None" and "\<And>g. grp_wait_lock (groups (sys_world s) g) = None"
  proof (cases pc)
    case (CPush q)
    with assms(2) push_step_None show ?thesis by fastforce
  next
    case (CWait p)
    with assms(2) have "wait_step sy (Client j) (ws_tasks_in_flight (sys_shared s) \<noteq> 0) p
        (ws_sleep_lock (sys_shared s)) (ws_wake (sys_shared s)) = None"
      by (simp add: sched_wait_step_def)
    from wait_step_None(2) [OF assms(1) this that(1)] CWait show ?thesis by auto
  next
    case (CGroupWait x p)
    with assms(2) have "wait_step sy (Client j) (grp_tasks_in_flight (groups (sys_world s) x) \<noteq> 0) p
        (grp_wait_lock (groups (sys_world s) x)) (grp_wake (groups (sys_world s) x)) = None"
      by (simp add: group_wait_step_def)
    from wait_step_None(2) [OF assms(1) this that(2)] CGroupWait show ?thesis by auto
  qed (use assms(2) in \<open>auto split: if_splits\<close>)
qed

lemma stalledD:
  assumes "stalled dq sy cap s"
  shows "i < length (sys_workers s) \<Longrightarrow> worker_step dq sy i (sys_workers s ! i) (sys_world s) = None"
    and "j < length (sys_clients s) \<Longrightarrow>
      client_step dq sy cap j False (all_joined s) (sys_clients s ! j) (sys_world s) = None"
proof -
  show "worker_step dq sy i (sys_workers s ! i) (sys_world s) = None" if "i < length (sys_workers s)"
  proof -
    have "sys_step dq sy cap (LWorker i) s = None" using assms that by (simp add: stalled_def list_all_iff)
    with that show ?thesis by (auto split: option.splits)
  qed
  show "client_step dq sy cap j False (all_joined s) (sys_clients s ! j) (sys_world s) = None"
    if "j < length (sys_clients s)"
  proof -
    have "sys_step dq sy cap (LClient j False) s = None" using assms that by (simp add: stalled_def list_all_iff)
    with that show ?thesis by (auto split: option.splits)
  qed
qed

lemma stalled_mutexes_free:
  assumes "sync_ok sy" and "reachable dq sy cap s" and "stalled dq sy cap s"
  shows "ws_sleep_lock (sys_shared s) = None" and "grp_wait_lock (groups (sys_world s) g) = None"
proof -
  have "\<not> worker_holds (wk_pc (sys_workers s ! i))" if "i < length (sys_workers s)" for i
    by (rule worker_step_None(1) [OF assms(1) stalledD(1) [OF assms(3) that]])
  moreover have "\<not> client_holds (sys_clients s ! j)" if "j < length (sys_clients s)" for j
    by (rule client_step_None(1) [OF assms(1) stalledD(2) [OF assms(3) that]])
  ultimately have "\<not> sleep_mutex.holds s t" for t by (cases t) auto
  with sleep_mutex.reachable_named [OF assms(1,2)] show "ws_sleep_lock (sys_shared s) = None"
    by (cases "ws_sleep_lock (sys_shared s)") auto
  have "\<not> client_holds_group g (sys_clients s ! j)" if "j < length (sys_clients s)" for j
    by (rule client_step_None(2) [OF assms(1) stalledD(2) [OF assms(3) that]])
  then have "\<not> group_mutex.holds g s t" for t by (cases t) auto
  with group_mutex.reachable_named [OF assms(1,2)] show "grp_wait_lock (groups (sys_world s) g) = None"
    by (cases "grp_wait_lock (groups (sys_world s) g)") auto
qed

section \<open>Properties\<close>

text \<open>The threads inside a critical section of the sleep mutex and of the mutex of group \<open>g\<close>.\<close>

definition holds_sleep_lock :: "sys \<Rightarrow> tid \<Rightarrow> bool" where
  "holds_sleep_lock s t = (case t of
     WorkerThread i \<Rightarrow> i < length (sys_workers s) \<and> worker_holds (wk_pc (sys_workers s ! i))
   | Client j \<Rightarrow> j < length (sys_clients s) \<and> client_holds (sys_clients s ! j))"

definition holds_group_lock :: "gid \<Rightarrow> sys \<Rightarrow> tid \<Rightarrow> bool" where
  "holds_group_lock g s t = (case t of
     WorkerThread i \<Rightarrow> False
   | Client j \<Rightarrow> j < length (sys_clients s) \<and> client_holds_group g (sys_clients s ! j))"

lemma holds_sleep_lock_eq: "holds_sleep_lock s t = sleep_mutex.holds s t"
  by (cases t) (simp_all add: holds_sleep_lock_def)

lemma holds_group_lock_eq: "holds_group_lock g s t = group_mutex.holds g s t"
  by (cases t) (simp_all add: holds_group_lock_def)

text \<open>
  Property C16. Mutual exclusion: in every interleaving at most one thread, worker or
  waiting client, is between locking and unlocking the sleep mutex, and it is the
  one the mutex names; the same holds for the mutex of every task group.
\<close>

theorem critical_sections_exclude:
  assumes "sync_ok sy" and "reachable dq sy capacity s"
  shows "holds_sleep_lock s t = (ws_sleep_lock (sys_shared s) = Some t) \<and>
    (holds_sleep_lock s t \<and> holds_sleep_lock s u \<longrightarrow> t = u) \<and>
    holds_group_lock g s t = (grp_wait_lock (groups (sys_world s) g) = Some t) \<and>
    (holds_group_lock g s t \<and> holds_group_lock g s u \<longrightarrow> t = u)"
  unfolding holds_sleep_lock_eq holds_group_lock_eq
  using sleep_mutex.reachable_named [OF assms] group_mutex.reachable_named [OF assms] by auto

text \<open>
  Property C17. No deadlock over mutexes: when no thread can move, every mutex is free,
  every worker has terminated or is blocked in the condition variable without having
  been notified, and every client is between calls, blocked the same way, or waiting
  for workers that have not terminated.
\<close>

theorem stall_only_on_condition_variables:
  assumes "sync_ok sy" and "reachable dq sy capacity s" and "stalled dq sy capacity s"
  shows "ws_sleep_lock (sys_shared s) = None \<and> grp_wait_lock (groups (sys_world s) g) = None \<and>
    (\<forall>i < length (sys_workers s). worker_parked s i (wk_pc (sys_workers s ! i))) \<and>
    (\<forall>j < length (sys_clients s). client_parked s j (sys_clients s ! j))"
proof -
  note free = stalled_mutexes_free [OF assms]
  have "worker_parked s i (wk_pc (sys_workers s ! i))" if "i < length (sys_workers s)" for i
    using worker_step_None(2) [OF assms(1) stalledD(1) [OF assms(3) that] free(1)] by auto
  moreover have "client_parked s j (sys_clients s ! j)" if "j < length (sys_clients s)" for j
    by (rule client_step_None(3) [OF assms(1) stalledD(2) [OF assms(3) that] free])
  ultimately show ?thesis using free by blast
qed

section \<open>Lost wake-ups\<close>

text \<open>
  Runs with one worker, \<open>c\<close> clients and capacity one that end in a stall.  The
  counters reach zero, and notifications are sent, without the mutex of the condition
  variable, so both can fall between a thread's check and its blocking.  The clients
  of these runs keep to the documented contracts: destruction starts alone, and no
  group is closed, so no group handle is used after its destruction.
\<close>

definition stalls :: "nat \<Rightarrow> label list \<Rightarrow> (sys \<Rightarrow> bool) \<Rightarrow> bool" where
  "stalls c ls P = (case sample_run 1 c 1 ls of
     None \<Rightarrow> False | Some s \<Rightarrow> stalled half_deque fifo_sync 1 s \<and> P s)"

lemma stalls_reachable:
  assumes "stalls c ls P"
  shows "\<exists>dq sy s. deque_ok dq \<and> sync_ok sy \<and> reachable dq sy 1 s \<and> stalled dq sy 1 s \<and> P s"
proof -
  obtain s where "sample_run 1 c 1 ls = Some s" "stalled half_deque fifo_sync 1 s" "P s"
    using assms by (auto simp: stalls_def split: option.splits)
  moreover from sample_run_reachable [OF this(1)] have "reachable half_deque fifo_sync 1 s" by simp
  ultimately show ?thesis using half_deque_ok fifo_sync_ok by blast
qed

text \<open>The worker is between its last check and \<open>Condvar::wait\<close> while a client submits.\<close>

definition missed_submission_trace :: "label list" where
  "missed_submission_trace = worker_acts 0 26 @ LStart 0 (OpPush (sample_task High 7)) # client_acts 0 9 @
     worker_acts 0 1"

text \<open>A client is between its check and \<open>Condvar::wait\<close> while the last task completes.\<close>

definition missed_idle_trace :: "label list" where
  "missed_idle_trace = LStart 0 (OpPush (sample_task High 7)) # client_acts 0 8 @ worker_acts 0 6 @
     LStart 1 OpWait # client_acts 1 2 @ worker_acts 0 2 @ client_acts 1 1 @ worker_acts 0 27"

text \<open>The same with a task group.\<close>

definition missed_group_trace :: "label list" where
  "missed_group_trace = LStart 0 (OpPush (task_new 7 0 High (Some 3))) # client_acts 0 11 @
     worker_acts 0 8 @ LStart 1 (OpGroupWait 3) # client_acts 1 2 @ worker_acts 0 2 @ client_acts 1 1 @
     worker_acts 0 27"


text \<open>The worker is between its last look at the shutdown flag and \<open>Condvar::wait\<close> during a destruction.\<close>

definition hanging_destroy_trace :: "label list" where
  "hanging_destroy_trace = worker_acts 0 26 @ LStart 0 OpDestroy # client_acts 0 2 @ worker_acts 0 1"


text \<open>
  Property C19. A submission can be lost to a sleeping worker: there is an execution in
  which a client's submission has returned successfully, the task is queued, the
  only worker is blocked, and no thread will ever move again.  The last search after
  publishing as sleeping does not close this race, because the notification is sent
  without the sleep mutex.
\<close>

theorem submission_can_miss_the_worker:
  "\<exists>dq sy s. deque_ok dq \<and> sync_ok sy \<and> reachable dq sy 1 s \<and> stalled dq sy 1 s \<and>
     sys_clients s ! 0 = CPush (QDone (Inr ())) \<and> size (sys_queued s) = 1 \<and>
     map wk_pc (sys_workers s) = [WBlockedOn]"
proof -
  have "stalls 2 missed_submission_trace (\<lambda>s. sys_clients s ! 0 = CPush (QDone (Inr ())) \<and>
      size (sys_queued s) = 1 \<and> map wk_pc (sys_workers s) = [WBlockedOn])" by code_simp
  then show ?thesis by (rule stalls_reachable)
qed


text \<open>
  Property C21. A wait can miss the completion it waits for: there are executions in
  which the only task has completed, nothing is outstanding, and a client is blocked
  forever in \<open>Scheduler::wait\<close>, respectively in \<open>TaskGroup::wait\<close> for the task's group.
\<close>

theorem waits_can_miss_the_last_completion:
  "(\<exists>dq sy s. deque_ok dq \<and> sync_ok sy \<and> reachable dq sy 1 s \<and> stalled dq sy 1 s \<and>
      sys_clients s ! 1 = CWait WaitBlocked \<and> ws_tasks_in_flight (sys_shared s) = 0 \<and>
      length (calls (sys_world s)) = 1) \<and>
   (\<exists>dq sy s. deque_ok dq \<and> sync_ok sy \<and> reachable dq sy 1 s \<and> stalled dq sy 1 s \<and>
      sys_clients s ! 1 = CGroupWait 3 WaitBlocked \<and>
      grp_tasks_in_flight (groups (sys_world s) 3) = 0 \<and> length (calls (sys_world s)) = 1)"
proof -
  have "stalls 2 missed_idle_trace (\<lambda>s. sys_clients s ! 1 = CWait WaitBlocked \<and>
      ws_tasks_in_flight (sys_shared s) = 0 \<and> length (calls (sys_world s)) = 1)" by code_simp
  moreover have "stalls 2 missed_group_trace (\<lambda>s. sys_clients s ! 1 = CGroupWait 3 WaitBlocked \<and>
      grp_tasks_in_flight (groups (sys_world s) 3) = 0 \<and> length (calls (sys_world s)) = 1)" by code_simp
  ultimately show ?thesis by (intro conjI stalls_reachable)
qed

text \<open>
  Property C18. Destroying an idle scheduler can hang: there is an execution in which
  \<open>Drop\<close> has requested shutdown and notified, nothing is or ever was outstanding, and
  the client joins a worker that is blocked forever, because the notification fell
  between the worker's last look at the shutdown flag and its blocking.
\<close>

theorem destroy_can_hang:
  "\<exists>dq sy s. deque_ok dq \<and> sync_ok sy \<and> reachable dq sy 1 s \<and> stalled dq sy 1 s \<and>
     sys_clients s = [CJoin, CIdle] \<and> ws_shutdown (sys_shared s) \<and> sys_published s = [] \<and>
     map wk_pc (sys_workers s) = [WBlockedOn]"
proof -
  have "stalls 2 hanging_destroy_trace (\<lambda>s. sys_clients s = [CJoin, CIdle] \<and> ws_shutdown (sys_shared s) \<and>
      sys_published s = [] \<and> map wk_pc (sys_workers s) = [WBlockedOn])" by code_simp
  then show ?thesis by (rule stalls_reachable)
qed


section \<open>Witnesses\<close>

lemma asleep_reachable: "reachable half_deque fifo_sync 1 asleep_state"
  by (rule sample_run_reachable [OF asleep_run]) simp_all

theorem critical_sections_exclude_witness:
  "holds_sleep_lock idle_state (Client 0) \<and> ws_sleep_lock (sys_shared idle_state) = Some (Client 0) \<and>
   \<not> holds_sleep_lock idle_state (WorkerThread 0)"
proof -
  have "holds_sleep_lock idle_state (Client 0)" by code_simp
  with critical_sections_exclude [OF fifo_sync_ok reachable_real_reachable [OF idle_state_real]]
  show ?thesis by blast
qed

theorem stall_only_on_condition_variables_witness:
  "stalled half_deque fifo_sync 1 asleep_state \<and> ws_sleep_lock (sys_shared asleep_state) = None \<and>
   WorkerThread 0 \<in> set (cv_waiting (ws_wake (sys_shared asleep_state)))"
proof -
  have stall: "stalled half_deque fifo_sync 1 asleep_state" by code_simp
  have pcs: "length (sys_workers asleep_state) = 1" "wk_pc (sys_workers asleep_state ! 0) = WBlockedOn"
    by code_simp+
  from stall_only_on_condition_variables [OF fifo_sync_ok asleep_reachable stall] stall pcs show ?thesis by auto
qed

end
