(* ===== verification/Specification.thy ===== *)
theory Specification
  imports Ledger
begin

text \<open>
  What the scheduler promises, without threads, queues, counters or locks: an
  abstract machine whose state counts reservations, keeps the accepted tasks that
  have not been called as a multiset, and knows whether shutdown was requested.  The
  interleaved system implements it: every atomic action of a worker or a client is
  one event of the abstract machine or leaves its state alone.
\<close>

section \<open>The abstract scheduler\<close>

type_synonym invocation = "task_fn \<times> usize"

record spec =
  sp_reserved :: nat
  sp_committed :: nat
  sp_pending :: "invocation multiset"
  sp_running :: nat
  sp_called :: "invocation multiset"
  sp_stopped :: bool
  sp_exited :: nat

definition spec_init :: spec where
  "spec_init = \<lparr>sp_reserved = 0, sp_committed = 0, sp_pending = {#}, sp_running = 0, sp_called = {#},
     sp_stopped = False, sp_exited = 0\<rparr>"

definition occupancy :: "spec \<Rightarrow> nat" where
  "occupancy p = sp_reserved p + sp_committed p + size (sp_pending p) + sp_running p"

text \<open>No accepted task is left and none can appear.\<close>

definition exhausted :: "spec \<Rightarrow> bool" where
  "exhausted p \<longleftrightarrow> sp_stopped p \<and> sp_committed p = 0 \<and> sp_pending p = {#} \<and> sp_running p = 0"

datatype spec_event =
    Reserve | Cancel | Commit | Publish invocation | Call invocation | Complete | Stop | Exit
  | WaitReturn | Silent

fun spec_enabled :: "usize \<Rightarrow> spec_event \<Rightarrow> spec \<Rightarrow> bool" where
  "spec_enabled capacity Reserve p = (capacity = 0 \<or> occupancy p < unat capacity)"
| "spec_enabled capacity Cancel p = (0 < sp_reserved p)"
| "spec_enabled capacity Commit p = (0 < sp_reserved p \<and> \<not> sp_stopped p)"
| "spec_enabled capacity (Publish x) p = (0 < sp_committed p)"
| "spec_enabled capacity (Call x) p = (x \<in># sp_pending p)"
| "spec_enabled capacity Complete p = (0 < sp_running p)"
| "spec_enabled capacity Exit p = exhausted p"
| "spec_enabled capacity WaitReturn p = (occupancy p = 0)"
| "spec_enabled capacity _ p = True"

fun spec_next :: "spec_event \<Rightarrow> spec \<Rightarrow> spec" where
  "spec_next Reserve p = p\<lparr>sp_reserved := sp_reserved p + 1\<rparr>"
| "spec_next Cancel p = p\<lparr>sp_reserved := sp_reserved p - 1\<rparr>"
| "spec_next Commit p = p\<lparr>sp_reserved := sp_reserved p - 1, sp_committed := sp_committed p + 1\<rparr>"
| "spec_next (Publish x) p =
     p\<lparr>sp_committed := sp_committed p - 1, sp_pending := add_mset x (sp_pending p)\<rparr>"
| "spec_next (Call x) p =
     p\<lparr>sp_pending := sp_pending p - {#x#}, sp_running := sp_running p + 1,
       sp_called := add_mset x (sp_called p)\<rparr>"
| "spec_next Complete p = p\<lparr>sp_running := sp_running p - 1\<rparr>"
| "spec_next Stop p = p\<lparr>sp_stopped := True\<rparr>"
| "spec_next Exit p = p\<lparr>sp_exited := sp_exited p + 1\<rparr>"
| "spec_next WaitReturn p = p"
| "spec_next Silent p = p"

inductive spec_reachable :: "usize \<Rightarrow> spec \<Rightarrow> bool" for capacity where
  start: "spec_reachable capacity spec_init"
| step: "spec_reachable capacity p \<Longrightarrow> spec_enabled capacity e p \<Longrightarrow> spec_reachable capacity (spec_next e p)"

inductive_cases spec_reachable_cases: "spec_reachable capacity p"

text \<open>What the abstract scheduler guarantees.\<close>

lemma spec_capacity:
  assumes "spec_reachable capacity p" and "capacity \<noteq> 0"
  shows "occupancy p \<le> unat capacity"
  using assms(1)
proof (induction rule: spec_reachable.induct)
  case (step p e)
  then show ?case
    using assms(2) by (cases e) (auto simp: occupancy_def dest!: multi_member_split)
qed (simp add: spec_init_def occupancy_def)

lemma spec_exit:
  assumes "spec_reachable capacity p" and "0 < sp_exited p"
  shows "exhausted p"
  using assms
proof (induction rule: spec_reachable.induct)
  case (step p e)
  then show ?case by (cases e) (auto simp: exhausted_def)
qed (simp add: spec_init_def)

section \<open>The abstraction\<close>

text \<open>A slot that its submission may still give back.\<close>

definition revocable :: "client_pc \<Rightarrow> nat" where
  "revocable pc = client_slot pc - length (publishes pc)"

definition exits :: "worker_pc \<Rightarrow> nat" where
  "exits pc = (if pc = WDone then 1 else 0)"

definition abs :: "sys \<Rightarrow> spec" where
  "abs s =
     \<lparr>sp_reserved = sum_list (map revocable (sys_clients s)),
      sp_committed = sum_list (map (\<lambda>c. length (publishes c)) (sys_clients s)),
      sp_pending = image_mset task_execute (pending s),
      sp_running = sum_list (map (\<lambda>wk. executing (wk_pc wk)) (sys_workers s)),
      sp_called = mset (calls (sys_world s)),
      sp_stopped = ws_shutdown (sys_shared s),
      sp_exited = sum_list (map (\<lambda>wk. exits (wk_pc wk)) (sys_workers s))\<rparr>"

text \<open>The event an action is an instance of.\<close>

fun worker_event :: "worker_pc \<Rightarrow> world \<Rightarrow> spec_event" where
  "worker_event (WExec t) w = Call (task_execute t)"
| "worker_event (WDecrement g) w = Complete"
| "worker_event (WRelease ABreak) w = Exit"
| "worker_event (WReadInFlight Fast) w = (if ws_tasks_in_flight (shared w) = 0 then Exit else Silent)"
| "worker_event _ w = Silent"

fun push_event :: "usize \<Rightarrow> bool \<Rightarrow> push_pc \<Rightarrow> world \<Rightarrow> spec_event" where
  "push_event capacity spurious (QReserve t) w = (if capacity = 0 then Reserve else Silent)"
| "push_event capacity spurious (QExchange t current) w =
     (if current < capacity \<and> \<not> spurious \<and> ws_tasks_in_flight (shared w) = current then Reserve else Silent)"
| "push_event capacity spurious QReleaseSlot w = Cancel"
| "push_event capacity spurious (QRollback g) w = Cancel"
| "push_event capacity spurious (QCheckFinal t) w = (if ws_shutdown (shared w) then Silent else Commit)"
| "push_event capacity spurious (QPublish t) w = Publish (task_execute t)"
| "push_event capacity spurious _ w = Silent"

fun client_event :: "usize \<Rightarrow> bool \<Rightarrow> client_pc \<Rightarrow> world \<Rightarrow> spec_event" where
  "client_event capacity spurious (CPush q) w = push_event capacity spurious q w"
| "client_event capacity spurious (CWait WaitCheck) w =
     (if ws_tasks_in_flight (shared w) = 0 then WaitReturn else Silent)"
| "client_event capacity spurious CShutdownStore w = Stop"
| "client_event capacity spurious CDestroyStore w = Stop"
| "client_event capacity spurious _ w = Silent"

fun event_of :: "usize \<Rightarrow> sys \<Rightarrow> label \<Rightarrow> spec_event" where
  "event_of capacity s (LWorker i) = worker_event (wk_pc (sys_workers s ! i)) (sys_world s)"
| "event_of capacity s (LClient j spurious) = client_event capacity spurious (sys_clients s ! j) (sys_world s)"
| "event_of capacity s (LStart j op) = Silent"

section \<open>Actions as events\<close>

text \<open>How an event changes each component of the abstract state.\<close>

fun calls_of :: "spec_event \<Rightarrow> invocation list" where
  "calls_of (Call x) = [x]"
| "calls_of _ = []"

lemma reaches_done [simp]:
  "follow a = WDone \<longleftrightarrow> a = ABreak" "leave ph a = WDone \<longleftrightarrow> ph = Fast \<and> a = ABreak"
  "after_search ph r \<noteq> WDone" "proceed ph \<noteq> WDone" "group_or_next g \<noteq> WDone"
proof -
  show f: "follow a = WDone \<longleftrightarrow> a = ABreak" for a by (cases a) simp_all
  show l: "leave ph a = WDone \<longleftrightarrow> ph = Fast \<and> a = ABreak" for a by (cases ph) (simp_all add: f)
  show "after_search ph r \<noteq> WDone" by (cases r) (simp_all add: l)
  show "proceed ph \<noteq> WDone" by (cases ph) simp_all
  show "group_or_next g \<noteq> WDone" by (cases g) (simp_all add: group_or_next_def)
qed

lemma worker_event_simps [simp]:
  "worker_event (WRelease a) w = (if a = ABreak then Exit else Silent)"
  "worker_event (WReadInFlight ph) w = (if ph = Fast \<and> ws_tasks_in_flight (shared w) = 0 then Exit else Silent)"
  by (cases a; simp) (cases ph; simp)

lemma worker_step_event:
  assumes "worker_step dq sy me wk w = Some (wk', w')"
  shows "calls w' = calls w @ calls_of (worker_event (wk_pc wk) w)"
    and "executing (wk_pc wk') + of_bool (worker_event (wk_pc wk) w = Complete) =
      executing (wk_pc wk) + length (calls_of (worker_event (wk_pc wk) w))"
    and "exits (wk_pc wk') = exits (wk_pc wk) + of_bool (worker_event (wk_pc wk) w = Exit)"
  using assms
  by (cases "wk_pc wk"; auto simp: worker_step_def exits_def shared_action_defs group_action_defs Let_def
      split: if_splits prod.splits sum.splits)+

text \<open>The same for the actions of a client.\<close>

lemma revocable_simps [simp]:
  "revocable (CPush q) = (if \<exists>t. q = QPublish t then 0 else push_slot q)"
  "\<nexists>q. pc = CPush q \<Longrightarrow> revocable pc = 0"
  by (cases q; simp add: revocable_def) (cases pc; simp add: revocable_def)

lemma push_step_event:
  assumes "push_step dq sy cap sp q w = Some (q', w')"
  defines "e \<equiv> push_event cap sp q w"
  shows "revocable (CPush q') + of_bool (e = Cancel) + of_bool (e = Commit) = revocable (CPush q) + of_bool (e = Reserve)"
    and "length (publishes (CPush q')) = of_bool (e = Commit)"
    and "ws_shutdown (shared w') = ws_shutdown (shared w)"
  using assms
  by (cases q; auto simp: e_def register_or_check_def in_flight_cas_weak_def shared_action_defs group_action_defs
      Let_def split: if_splits sum.splits option.splits)+

fun published_by :: "spec_event \<Rightarrow> invocation list" where
  "published_by (Publish x) = [x]"
| "published_by _ = []"

lemma client_step_event:
  assumes "client_step dq sy cap j sp joined pc w = Some (pc', w')"
  defines "e \<equiv> client_event cap sp pc w"
  shows "revocable pc' + of_bool (e = Cancel) + of_bool (e = Commit) = revocable pc + of_bool (e = Reserve)"
    and "length (publishes pc') = of_bool (e = Commit)"
    and "ws_shutdown (shared w') \<longleftrightarrow> ws_shutdown (shared w) \<or> e = Stop"
proof -
  have stop: "push_event cap sp q w \<noteq> Stop" for q by (cases q) simp_all
  have "revocable pc' + of_bool (e = Cancel) + of_bool (e = Commit) = revocable pc + of_bool (e = Reserve) \<and>
      length (publishes pc') = of_bool (e = Commit) \<and>
      (ws_shutdown (shared w') \<longleftrightarrow> ws_shutdown (shared w) \<or> e = Stop)"
  proof (cases "\<exists>q. pc = CPush q")
    case True
    then obtain q q' where "pc = CPush q" "pc' = CPush q'" "push_step dq sy cap sp q w = Some (q', w')"
      using assms(1) by auto
    with push_step_event [OF this(3)] stop show ?thesis by (simp add: e_def)
  next
    case False
    then show ?thesis
      using assms(1)
      by (cases "(cap, sp, pc, w)" rule: client_event.cases)
        (auto simp: e_def shared_action_defs sched_wait_step_def split: if_splits)
  qed
  then show "revocable pc' + of_bool (e = Cancel) + of_bool (e = Commit) = revocable pc + of_bool (e = Reserve)"
    and "length (publishes pc') = of_bool (e = Commit)"
    and "ws_shutdown (shared w') \<longleftrightarrow> ws_shutdown (shared w) \<or> e = Stop" by simp_all
qed

lemma client_event_cases:
  shows "client_event cap sp pc w = Commit \<Longrightarrow> \<not> ws_shutdown (shared w)"
    and "client_event cap sp pc w = Reserve \<Longrightarrow> cap = 0 \<or> ws_tasks_in_flight (shared w) < cap"
    and "client_event cap sp pc w = WaitReturn \<Longrightarrow> ws_tasks_in_flight (shared w) = 0"
    and "map task_execute (publishes pc) = published_by (client_event cap sp pc w)"
    and "client_event cap sp pc w \<notin> {Complete, Exit} \<union> range Call"
proof -
  have push: "(push_event cap sp q w = Commit \<longrightarrow> \<not> ws_shutdown (shared w)) \<and>
      (push_event cap sp q w = Reserve \<longrightarrow> cap = 0 \<or> ws_tasks_in_flight (shared w) < cap) \<and>
      push_event cap sp q w \<noteq> WaitReturn \<and>
      map task_execute (publishes (CPush q)) = published_by (push_event cap sp q w) \<and>
      push_event cap sp q w \<notin> {Complete, Exit} \<union> range Call" for q
    by (cases q) auto
  have "(client_event cap sp pc w = Commit \<longrightarrow> \<not> ws_shutdown (shared w)) \<and>
      (client_event cap sp pc w = Reserve \<longrightarrow> cap = 0 \<or> ws_tasks_in_flight (shared w) < cap) \<and>
      (client_event cap sp pc w = WaitReturn \<longrightarrow> ws_tasks_in_flight (shared w) = 0) \<and>
      map task_execute (publishes pc) = published_by (client_event cap sp pc w) \<and>
      client_event cap sp pc w \<notin> {Complete, Exit} \<union> range Call"
    using push by (cases "(cap, sp, pc, w)" rule: client_event.cases) auto
  then show "client_event cap sp pc w = Commit \<Longrightarrow> \<not> ws_shutdown (shared w)"
    and "client_event cap sp pc w = Reserve \<Longrightarrow> cap = 0 \<or> ws_tasks_in_flight (shared w) < cap"
    and "client_event cap sp pc w = WaitReturn \<Longrightarrow> ws_tasks_in_flight (shared w) = 0"
    and "map task_execute (publishes pc) = published_by (client_event cap sp pc w)"
    and "client_event cap sp pc w \<notin> {Complete, Exit} \<union> range Call" by simp_all
qed

section \<open>Refinement\<close>

text \<open>The abstract occupancy is the concrete count of outstanding tasks.\<close>

lemma size_sum_list_mset:
  fixes f :: "'a \<Rightarrow> 'b multiset"
  shows "size (sum_list (map f xs)) = sum_list (map (\<lambda>x. size (f x)) xs)"
  by (induction xs) simp_all

lemma occupancy_abs: "occupancy (abs s) = outstanding s"
proof -
  have "revocable c + length (publishes c) = client_slot c" for c
    using publishes_le_slot [of c] by (simp add: revocable_def)
  then have "sum_list (map revocable cs) + sum_list (map (\<lambda>c. length (publishes c)) cs) =
      sum_list (map client_slot cs)" for cs
    by (simp add: sum_list_addf [symmetric])
  then show ?thesis
    by (simp add: occupancy_def abs_def outstanding_def pending_def busy_def size_sum_list_mset
        sum_list_addf add_ac)
qed

lemma exhausted_abs: "ws_shutdown (sys_shared s) \<Longrightarrow> committed s = 0 \<Longrightarrow> exhausted (abs s)"
  using committed_0_pending [of s]
  by (auto simp: exhausted_def abs_def committed_def busy_def sum_list_addf)

text \<open>An action of a worker changes the abstract state as its event does.\<close>

lemma abs_worker:
  assumes dq: "deque_ok dq" and shape: "sys_shape s" and i: "i < length (sys_workers s)"
    and step: "worker_step dq sy i (sys_workers s ! i) (sys_world s) = Some (wk, w)"
  defines "e \<equiv> worker_event (wk_pc (sys_workers s ! i)) (sys_world s)"
    and "s' \<equiv> s\<lparr>sys_world := w, sys_workers := (sys_workers s)[i := wk]\<rparr>"
  shows "sp_reserved (abs s') = sp_reserved (abs s)" "sp_committed (abs s') = sp_committed (abs s)"
    "sp_pending (abs s) = mset (calls_of e) + sp_pending (abs s')"
    "sp_running (abs s') + of_bool (e = Complete) = sp_running (abs s) + length (calls_of e)"
    "sp_called (abs s') = mset (calls_of e) + sp_called (abs s)"
    "sp_stopped (abs s') = sp_stopped (abs s)"
    "sp_exited (abs s') = sp_exited (abs s) + of_bool (e = Exit)"
proof -
  note ev = worker_step_event [OF step, folded e_def]
  show "sp_reserved (abs s') = sp_reserved (abs s)" "sp_committed (abs s') = sp_committed (abs s)"
    by (simp_all add: abs_def s'_def)
  show "sp_stopped (abs s') = sp_stopped (abs s)"
    using worker_step_shutdown [OF step] by (simp add: abs_def s'_def)
  show "sp_called (abs s') = mset (calls_of e) + sp_called (abs s)"
    using ev(1) by (simp add: abs_def s'_def)
  show "sp_pending (abs s) = mset (calls_of e) + sp_pending (abs s')"
    using pending_worker_balance [OF dq shape i step, folded s'_def] ev(1) by (simp add: abs_def)
  show "sp_running (abs s') + of_bool (e = Complete) = sp_running (abs s) + length (calls_of e)"
    using sum_list_update_add [OF i, of "\<lambda>wk. executing (wk_pc wk)" wk] ev(2) by (simp add: abs_def s'_def)
  show "sp_exited (abs s') = sp_exited (abs s) + of_bool (e = Exit)"
    using sum_list_update_add [OF i, of "\<lambda>wk. exits (wk_pc wk)" wk] ev(3) by (simp add: abs_def s'_def)
qed

lemma abs_client:
  assumes dq: "deque_ok dq" and j: "j < length (sys_clients s)"
    and step: "client_step dq sy cap j sp joined (sys_clients s ! j) (sys_world s) = Some (pc, w)"
  defines "e \<equiv> client_event cap sp (sys_clients s ! j) (sys_world s)"
    and "s' \<equiv> s\<lparr>sys_world := w, sys_clients := (sys_clients s)[j := pc],
      sys_published := sys_published s @ publishes (sys_clients s ! j)\<rparr>"
  shows "sp_reserved (abs s') + of_bool (e = Cancel) + of_bool (e = Commit) = sp_reserved (abs s) + of_bool (e = Reserve)"
    "sp_committed (abs s') + length (published_by e) = sp_committed (abs s) + of_bool (e = Commit)"
    "sp_pending (abs s') = mset (published_by e) + sp_pending (abs s)"
    "sp_running (abs s') = sp_running (abs s)" "sp_called (abs s') = sp_called (abs s)"
    "sp_stopped (abs s') \<longleftrightarrow> sp_stopped (abs s) \<or> e = Stop" "sp_exited (abs s') = sp_exited (abs s)"
proof -
  note ev = client_step_event [OF step, folded e_def] and q = client_step_queues [OF step]
  have pub: "map task_execute (publishes (sys_clients s ! j)) = published_by e"
    unfolding e_def by (rule client_event_cases(4))
  show "sp_running (abs s') = sp_running (abs s)" "sp_called (abs s') = sp_called (abs s)"
    "sp_exited (abs s') = sp_exited (abs s)" using q(2) by (simp_all add: abs_def s'_def)
  show "sp_stopped (abs s') \<longleftrightarrow> sp_stopped (abs s) \<or> e = Stop" using ev(3) by (simp add: abs_def s'_def)
  show "sp_reserved (abs s') + of_bool (e = Cancel) + of_bool (e = Commit) = sp_reserved (abs s) + of_bool (e = Reserve)"
    using sum_list_update_add [OF j, of revocable pc] ev(1) by (simp add: abs_def s'_def)
  show "sp_committed (abs s') + length (published_by e) = sp_committed (abs s) + of_bool (e = Commit)"
    using sum_list_update_add [OF j, of "\<lambda>c. length (publishes c)" pc] ev(2) arg_cong [OF pub, of length]
    by (simp add: abs_def s'_def)
  have "queued (ws_queues (shared w)) = mset (publishes (sys_clients s ! j)) + sys_queued s"
    using q(1) fold_push_global_shape [OF dq] by simp
  then show "sp_pending (abs s') = mset (published_by e) + sp_pending (abs s)"
    by (simp add: abs_def s'_def pending_def add_ac flip: pub)
qed

lemma spec_eqI:
  assumes "sp_reserved p = sp_reserved q" "sp_committed p = sp_committed q" "sp_pending p = sp_pending q"
    "sp_running p = sp_running q" "sp_called p = sp_called q" "sp_stopped p = sp_stopped q"
    "sp_exited p = sp_exited q"
  shows "p = (q :: spec)"
  using assms by simp

lemma worker_event_range: "worker_event pc w \<in> {Complete, Exit, Silent} \<union> range Call"
  by (cases pc) auto

lemma worker_exit_exhausted:
  assumes "deque_ok dq" and "reachable_real dq sy cap s" and "wk \<in> set (sys_workers s)"
    and "worker_event (wk_pc wk) (sys_world s) = Exit"
  shows "exhausted (abs s)"
proof -
  note drained = reachable_drained [OF assms(1,2)]
  have "leaving (wk_pc wk) \<or> saw_shutdown (wk_pc wk) \<and> ws_tasks_in_flight (sys_shared s) = 0"
    using assms(4) by (cases "wk_pc wk") (auto split: if_splits)
  then have "ws_shutdown (sys_shared s) \<and> committed s = 0"
  proof
    assume "leaving (wk_pc wk)"
    with drained assms(3) show ?thesis by (auto simp: drained_def)
  next
    assume idle: "saw_shutdown (wk_pc wk) \<and> ws_tasks_in_flight (sys_shared s) = 0"
    have "outstanding s = 0"
      using realistic_idle [OF reachable_real_realistic [OF assms(2)]
          reachable_accounted [OF assms(1) reachable_real_reachable [OF assms(2)]]] idle by simp
    with idle drained assms(3) committed_le_outstanding [of s] show ?thesis by (auto simp: drained_def)
  qed
  then show ?thesis by (simp add: exhausted_abs)
qed

lemma worker_simulates:
  assumes dq: "deque_ok dq" and reach: "reachable_real dq sy cap s" and i: "i < length (sys_workers s)"
    and step: "worker_step dq sy i (sys_workers s ! i) (sys_world s) = Some (wk, w)"
  shows "spec_enabled cap (event_of cap s (LWorker i)) (abs s) \<and>
    abs (s\<lparr>sys_world := w, sys_workers := (sys_workers s)[i := wk]\<rparr>) = spec_next (event_of cap s (LWorker i)) (abs s)"
proof -
  have shape: "sys_shape s" by (rule reachable_shape [OF dq reachable_real_reachable [OF reach]])
  note fields = abs_worker [OF dq shape i step]
  have mem: "sys_workers s ! i \<in> set (sys_workers s)" using i by simp
  from worker_event_range [of "wk_pc (sys_workers s ! i)" "sys_world s"]
  consider (call) x where "worker_event (wk_pc (sys_workers s ! i)) (sys_world s) = Call x"
    | (complete) "worker_event (wk_pc (sys_workers s ! i)) (sys_world s) = Complete"
    | (exit) "worker_event (wk_pc (sys_workers s ! i)) (sys_world s) = Exit"
    | (silent) "worker_event (wk_pc (sys_workers s ! i)) (sys_world s) = Silent" by auto
  then show ?thesis
  proof cases
    case call
    with fields show ?thesis by (intro conjI spec_eqI) simp_all
  next
    case complete
    with fields show ?thesis by (intro conjI spec_eqI) simp_all
  next
    case exit
    with fields worker_exit_exhausted [OF dq reach mem] show ?thesis by (intro conjI spec_eqI) simp_all
  next
    case silent
    with fields show ?thesis by (intro conjI spec_eqI) simp_all
  qed
qed

lemma in_flight_below_capacity:
  assumes "deque_ok dq" and "reachable dq sy cap s" and "cap \<noteq> 0"
    and "ws_tasks_in_flight (sys_shared s) < cap"
  shows "outstanding s < unat cap"
proof -
  have "outstanding s \<le> unat cap"
    using reachable_capacity [OF assms(1,2)] assms(3) by (simp add: within_capacity_def)
  then have "unat (of_nat (outstanding s) :: usize) = outstanding s"
    using unat_bound_64 [of cap] by (intro unat_of_nat_64) linarith
  with assms(4) reachable_accounted [OF assms(1,2)] show ?thesis
    by (simp add: accounted_def word_less_nat_alt)
qed

lemma client_simulates:
  assumes dq: "deque_ok dq" and reach: "reachable_real dq sy cap s" and j: "j < length (sys_clients s)"
    and step: "client_step dq sy cap j sp joined (sys_clients s ! j) (sys_world s) = Some (pc, w)"
  shows "spec_enabled cap (event_of cap s (LClient j sp)) (abs s) \<and>
    abs (s\<lparr>sys_world := w, sys_clients := (sys_clients s)[j := pc],
      sys_published := sys_published s @ publishes (sys_clients s ! j)\<rparr>) =
    spec_next (event_of cap s (LClient j sp)) (abs s)"
proof -
  note reach' = reachable_real_reachable [OF reach]
  note fields = abs_client [OF dq j step]
    and ev = client_event_cases [where cap = cap and sp = sp and pc = "sys_clients s ! j" and w = "sys_world s"]
  show ?thesis
  proof (cases "client_event cap sp (sys_clients s ! j) (sys_world s)")
    case Reserve
    with ev(2) in_flight_below_capacity [OF dq reach'] have "cap = 0 \<or> occupancy (abs s) < unat cap"
      by (auto simp: occupancy_abs)
    with Reserve fields show ?thesis by (intro conjI spec_eqI) simp_all
  next
    case Commit
    with ev(1) have "\<not> sp_stopped (abs s)" by (simp add: abs_def)
    with Commit fields show ?thesis by (intro conjI spec_eqI) simp_all
  next
    case WaitReturn
    with ev(3) realistic_idle [OF reachable_real_realistic [OF reach] reachable_accounted [OF dq reach']]
    have "occupancy (abs s) = 0" by (simp add: occupancy_abs)
    with WaitReturn fields show ?thesis by (intro conjI spec_eqI) simp_all
  qed (use fields ev(5) in \<open>(intro conjI spec_eqI; simp)+\<close>)
qed

lemma start_simulates:
  assumes "may_start s j op"
  shows "abs (s\<lparr>sys_clients := (sys_clients s)[j := start_op op]\<rparr>) = abs s"
proof -
  have j: "j < length (sys_clients s)" and free: "client_free (sys_clients s ! j)"
    using assms by (simp_all add: may_start_def)
  have "revocable (start_op op) = 0" "publishes (start_op op) = []" by (cases op; simp)+
  moreover have "revocable (sys_clients s ! j) = 0" "publishes (sys_clients s ! j) = []"
    using free by (cases "sys_clients s ! j" rule: client_free.cases; simp)+
  ultimately show ?thesis
    using sum_list_update_add [OF j, of revocable "start_op op"]
      sum_list_update_add [OF j, of "\<lambda>c. length (publishes c)" "start_op op"]
    by (simp add: abs_def pending_def)
qed

text \<open>
  A simulation of a guarded system by the abstract scheduler, and what follows for
  its reachable states.
\<close>

locale simulation =
  fixes init :: "'s \<Rightarrow> bool" and nxt :: "'l \<Rightarrow> 's \<Rightarrow> 's option" and G :: "'s \<Rightarrow> bool"
    and capacity :: usize and abst :: "'s \<Rightarrow> spec" and event :: "'s \<Rightarrow> 'l \<Rightarrow> spec_event"
  assumes sim_init: "init s \<Longrightarrow> abst s = spec_init"
    and sim_step: "reach init nxt G s \<Longrightarrow> nxt l s = Some s' \<Longrightarrow>
      spec_enabled capacity (event s l) (abst s) \<and> abst s' = spec_next (event s l) (abst s)"
begin

lemma reach_spec: "reach init nxt G s \<Longrightarrow> spec_reachable capacity (abst s)"
proof (induction rule: reach.induct)
  case (reach_init s)
  then show ?case by (simp add: sim_init spec_reachable.start)
next
  case (reach_step s l s')
  with sim_step [OF reach_step(1,2)] show ?case by (auto intro: spec_reachable.step)
qed

lemma occupancy_bound: "reach init nxt G s \<Longrightarrow> capacity \<noteq> 0 \<Longrightarrow> occupancy (abst s) \<le> unat capacity"
  by (rule spec_capacity [OF reach_spec])

lemma exit_exhausted: "reach init nxt G s \<Longrightarrow> 0 < sp_exited (abst s) \<Longrightarrow> exhausted (abst s)"
  by (rule spec_exit [OF reach_spec])

end

lemma abs_new: "abs (sys_new n c) = spec_init"
  by (simp add: abs_def spec_init_def sys_new_def world_new_def worker_shared_new_def queue_system_new_def
      queued_def pending_def worker_start_def revocable_def exits_def o_def sum_list_replicate)

interpretation refinement: simulation "\<lambda>s. sys_init s \<and> realistic s \<and> deque_ok dq" "sys_step dq sy cap" realistic
  cap abs "event_of cap" for dq sy cap
proof unfold_locales
  show "abs s = spec_init" if "sys_init s \<and> realistic s \<and> deque_ok dq" for s
    using that by (auto simp: sys_init_def abs_new)
  show "spec_enabled cap (event_of cap s l) (abs s) \<and> abs s' = spec_next (event_of cap s l) (abs s)"
    if "reach (\<lambda>s. sys_init s \<and> realistic s \<and> deque_ok dq) (sys_step dq sy cap) realistic s"
      and "sys_step dq sy cap l s = Some s'" for s l s'
  proof -
    have dq: "deque_ok dq" using that(1) by (induction rule: reach.induct) auto
    have reach: "reachable_real dq sy cap s"
      using that(1) unfolding reachable_real_def by (induction rule: reach.induct) (auto intro: reach.intros)
    from that(2) show ?thesis
    proof (cases rule: sys_step_cases)
      case (Worker i wk w)
      with worker_simulates [OF dq reach Worker(2,3)] show ?thesis by simp
    next
      case (Client j sp pc w)
      with client_simulates [OF dq reach Client(2,3)] show ?thesis by simp
    next
      case (Start j op)
      with start_simulates [OF Start(2)] show ?thesis by simp
    qed
  qed
qed

lemma reachable_real_start:
  assumes "deque_ok dq" and "reachable_real dq sy cap s"
  shows "reach (\<lambda>s. sys_init s \<and> realistic s \<and> deque_ok dq) (sys_step dq sy cap) realistic s"
  using assms(2) unfolding reachable_real_def
  by (induction rule: reach.induct) (auto intro: reach.intros assms(1))

section \<open>Properties\<close>

text \<open>
  Property C2. The interleaved system implements the abstract scheduler: the abstract
  state of every reachable state is one the abstract scheduler can reach, and every
  atomic action of any thread is an event that the abstract scheduler allows there
  and has exactly its effect.
\<close>

theorem system_refines_specification:
  assumes "deque_ok dq" and "reachable_real dq sy capacity s" and "sys_step dq sy capacity l s = Some s'"
  shows "spec_reachable capacity (abs s) \<and> spec_enabled capacity (event_of capacity s l) (abs s) \<and>
    abs s' = spec_next (event_of capacity s l) (abs s)"
  using refinement.reach_spec [OF reachable_real_start [OF assms(1,2)]]
    refinement.sim_step [OF reachable_real_start [OF assms(1,2)] assms(3)] by blast

theorem system_refines_specification_witness:
  "event_of 1 idle_state (LClient 0 False) = WaitReturn \<and> spec_reachable 1 (abs idle_state) \<and>
   occupancy (abs idle_state) = 0"
proof -
  have ev: "event_of 1 idle_state (LClient 0 False) = WaitReturn" by code_simp
  have "sys_step half_deque fifo_sync 1 (LClient 0 False) idle_state \<noteq> None" by code_simp
  then obtain s' where "sys_step half_deque fifo_sync 1 (LClient 0 False) idle_state = Some s'" by blast
  from system_refines_specification [OF half_deque_ok idle_state_real this] ev show ?thesis by simp
qed

end
