(* ===== verification/Progress.thy ===== *)
theory Progress
  imports Ledger
begin

text \<open>
  Calls that cannot be held up by other threads.  A submission never blocks and
  returns after a bounded number of its own actions, apart from lost exchanges; a
  task that a worker has taken is called after at most three actions of that worker.
  Both bounds hold in every interleaving, by a rank that each own action lowers and
  no other action touches.
\<close>

section \<open>Submission\<close>

text \<open>The number of actions a submission still needs, lost exchanges aside.\<close>

fun push_rank :: "push_pc \<Rightarrow> nat" where
  "push_rank (QStart t) = 12"
| "push_rank (QReserve t) = 11"
| "push_rank (QExchange t c) = 10"
| "push_rank QFull = 1"
| "push_rank (QCheckReserved t) = 9"
| "push_rank QReleaseSlot = 1"
| "push_rank (QGroupRead t g) = 8"
| "push_rank (QGroupAdd t g) = 7"
| "push_rank (QGroupReread t g) = 6"
| "push_rank (QGroupUndo g) = 3"
| "push_rank (QGroupUndoNotify g) = 2"
| "push_rank (QCheckFinal t) = 5"
| "push_rank (QRollback g) = 3"
| "push_rank (QRollbackGroup g) = 2"
| "push_rank (QRollbackNotify g) = 1"
| "push_rank (QPublish t) = 4"
| "push_rank QRecord = 3"
| "push_rank QReadSleeping = 2"
| "push_rank QNotify = 1"
| "push_rank (QDone r) = 0"

fun is_exchange :: "push_pc \<Rightarrow> bool" where
  "is_exchange (QExchange t c) = True"
| "is_exchange _ = False"

text \<open>A lost exchange leads from the exchange back to itself.\<close>

definition lost_exchange :: "push_pc \<Rightarrow> push_pc \<Rightarrow> nat" where
  "lost_exchange q q' = (if is_exchange q \<and> is_exchange q' then 1 else 0)"

lemma push_step_rank:
  assumes "push_step dq sy cap sp q w = Some (q', w')"
  shows "push_rank q' + 1 \<le> push_rank q + lost_exchange q q'"
    and "cap = 0 \<Longrightarrow> \<not> is_exchange q \<Longrightarrow> \<not> is_exchange q'"
    and "lost_exchange q q' = 1 \<Longrightarrow> \<exists>t c. q = QExchange t c \<and> (sp \<or> ws_tasks_in_flight (shared w) \<noteq> c)"
  using assms
  by (cases q; auto simp: lost_exchange_def register_or_check_def in_flight_cas_weak_def Let_def
      group_fetch_sub_def split: if_splits sum.splits option.splits)+

lemma push_step_enabled: "0 < push_rank q \<Longrightarrow> push_step dq sy cap sp q w \<noteq> None"
  by (cases q) (auto simp: Let_def split: prod.splits)

text \<open>The own actions of client \<open>j\<close> in a schedule, and the exchanges it loses along it.\<close>

fun acts_of :: "nat \<Rightarrow> label \<Rightarrow> bool" where
  "acts_of j (LClient k sp) = (k = j)"
| "acts_of j _ = False"

fun starts :: "nat \<Rightarrow> label \<Rightarrow> bool" where
  "starts j (LStart k op) = (k = j)"
| "starts j _ = False"

definition client_actions :: "nat \<Rightarrow> label list \<Rightarrow> nat" where
  "client_actions j ls = length (filter (acts_of j) ls)"

fun loss :: "client_pc \<Rightarrow> client_pc \<Rightarrow> nat" where
  "loss (CPush q) (CPush q') = lost_exchange q q'"
| "loss _ _ = 0"

fun lost_exchanges :: "deque_api \<Rightarrow> sync_api \<Rightarrow> usize \<Rightarrow> nat \<Rightarrow> label list \<Rightarrow> sys \<Rightarrow> nat" where
  "lost_exchanges dq sy cap j [] s = 0"
| "lost_exchanges dq sy cap j (l # ls) s =
     (case sys_step dq sy cap l s of
        None \<Rightarrow> 0
      | Some s' \<Rightarrow> (if acts_of j l then loss (sys_clients s ! j) (sys_clients s' ! j) else 0) +
          lost_exchanges dq sy cap j ls s')"

lemma other_step_keeps_client:
  assumes "sys_step dq sy cap l s = Some s'" and "\<not> acts_of j l" and "\<not> starts j l"
  shows "sys_clients s' ! j = sys_clients s ! j"
  using assms(1) by (cases rule: sys_step_cases) (use assms(2,3) in \<open>auto simp: nth_list_update\<close>)

lemma own_step_push:
  assumes "sys_step dq sy cap l s = Some s'" and "acts_of j l" and "sys_clients s ! j = CPush q"
  obtains sp q' w' where "push_step dq sy cap sp q (sys_world s) = Some (q', w')" "sys_clients s' ! j = CPush q'"
  using assms(1)
  by (cases rule: sys_step_cases) (use assms(2,3) that in auto)

lemma push_run:
  assumes "run (sys_step dq sy cap) ls s = Some s'" and "sys_clients s ! j = CPush q"
    and "\<forall>l \<in> set ls. \<not> starts j l"
  shows "\<exists>q'. sys_clients s' ! j = CPush q' \<and>
    client_actions j ls + push_rank q' \<le> push_rank q + lost_exchanges dq sy cap j ls s \<and>
    (cap = 0 \<longrightarrow> \<not> is_exchange q \<longrightarrow> lost_exchanges dq sy cap j ls s = 0)"
  using assms
proof (induction ls arbitrary: s q)
  case Nil
  then show ?case by (simp add: client_actions_def)
next
  case (Cons l ls)
  then obtain t where t: "sys_step dq sy cap l s = Some t" "run (sys_step dq sy cap) ls t = Some s'"
    by (auto split: option.splits)
  show ?case
  proof (cases "acts_of j l")
    case True
    obtain sp q1 w where q1: "push_step dq sy cap sp q (sys_world s) = Some (q1, w)" "sys_clients t ! j = CPush q1"
      using own_step_push [OF t(1) True Cons.prems(2)] .
    obtain q' where q': "sys_clients s' ! j = CPush q'"
      "client_actions j ls + push_rank q' \<le> push_rank q1 + lost_exchanges dq sy cap j ls t"
      "cap = 0 \<longrightarrow> \<not> is_exchange q1 \<longrightarrow> lost_exchanges dq sy cap j ls t = 0"
      using Cons.IH [OF t(2) q1(2)] Cons.prems(3) by auto
    have "lost_exchange q q1 = 0" if "\<not> is_exchange q" using that by (simp add: lost_exchange_def)
    with q' push_step_rank(1,2) [OF q1(1)] t(1) True Cons.prems(2) q1(2) show ?thesis
      by (auto simp: client_actions_def)
  next
    case False
    then have "sys_clients t ! j = CPush q"
      using other_step_keeps_client [OF t(1)] Cons.prems(2,3) by simp
    note ih = Cons.IH [OF t(2) this]
    have eqs: "lost_exchanges dq sy cap j (l # ls) s = lost_exchanges dq sy cap j ls t"
      "client_actions j (l # ls) = client_actions j ls"
      using t(1) False by (simp_all add: client_actions_def)
    show ?thesis unfolding eqs by (rule ih) (use Cons.prems(3) in simp)
  qed
qed

section \<open>Taken tasks\<close>

text \<open>The actions a worker needs until it calls the task in its hand.\<close>

fun hand_rank :: "worker_pc \<Rightarrow> nat" where
  "hand_rank (WUnpublish a) = 3"
| "hand_rank (WRelease a) = 2"
| "hand_rank _ = 1"

lemma in_hand_iff:
  "in_hand pc = {#t#} \<longleftrightarrow> pc \<in> {WUnpublish (AExec t), WRelease (AExec t), WExec t}"
  by (cases pc rule: in_hand.cases) auto

lemma worker_step_hand:
  assumes "in_hand (wk_pc wk) = {#t#}"
  obtains wk' w' where "worker_step dq sy me wk w = Some (wk', w')"
    "calls w' = calls w @ [task_execute t] \<or> calls w' = calls w \<and> in_hand (wk_pc wk') = {#t#} \<and> hand_rank (wk_pc wk') + 1 = hand_rank (wk_pc wk)"
  using assms unfolding in_hand_iff
  by (elim insertE emptyE) (auto simp: worker_step_def intro: that)

lemma calls_grow:
  assumes "sys_step dq sy cap l s = Some s'"
  shows "\<exists>xs. calls (sys_world s') = calls (sys_world s) @ xs"
  using assms
proof (cases rule: sys_step_cases)
  case (Worker i wk w)
  have "\<exists>xs. calls w = calls (sys_world s) @ xs"
    using Worker(3) by (cases "wk_pc (sys_workers s ! i)")
      (auto simp: worker_step_def Let_def shared_action_defs group_action_defs split: if_splits prod.splits)
  with Worker(4) show ?thesis by auto
next
  case (Client j sp pc w)
  with client_step_queues(2) [OF Client(3)] show ?thesis by simp
qed simp

lemma calls_grow_run:
  "run (sys_step dq sy cap) ls s = Some s' \<Longrightarrow> \<exists>xs. calls (sys_world s') = calls (sys_world s) @ xs"
  by (induction ls arbitrary: s) (fastforce split: option.splits dest: calls_grow)+

fun works :: "nat \<Rightarrow> label \<Rightarrow> bool" where
  "works i (LWorker k) = (k = i)"
| "works i _ = False"

definition worker_actions :: "nat \<Rightarrow> label list \<Rightarrow> nat" where
  "worker_actions i ls = length (filter (works i) ls)"

lemma other_step_keeps_worker:
  assumes "sys_step dq sy cap l s = Some s'" and "\<not> works i l"
  shows "sys_workers s' ! i = sys_workers s ! i"
  using assms(1) by (cases rule: sys_step_cases) (use assms(2) in \<open>auto simp: nth_list_update\<close>)

lemma hand_run:
  assumes "run (sys_step dq sy cap) ls s = Some s'"
    and "n < count_list (calls (sys_world s)) (task_execute t) \<or>
      n \<le> count_list (calls (sys_world s)) (task_execute t) \<and>
      in_hand (wk_pc (sys_workers s ! i)) = {#t#} \<and> hand_rank (wk_pc (sys_workers s ! i)) \<le> k"
  shows "n < count_list (calls (sys_world s')) (task_execute t) \<or>
    in_hand (wk_pc (sys_workers s' ! i)) = {#t#} \<and> hand_rank (wk_pc (sys_workers s' ! i)) + worker_actions i ls \<le> k"
  using assms
proof (induction ls arbitrary: s k)
  case Nil
  then show ?case by (auto simp: worker_actions_def)
next
  case (Cons l ls)
  then obtain u where u: "sys_step dq sy cap l s = Some u" "run (sys_step dq sy cap) ls u = Some s'"
    by (auto split: option.splits)
  have grow: "count_list (calls (sys_world s)) x \<le> count_list (calls (sys_world u)) x" for x
    using calls_grow [OF u(1)] by auto
  show ?case
  proof (cases "n < count_list (calls (sys_world s)) (task_execute t)")
    case True
    with calls_grow_run [OF Cons.prems(1)] show ?thesis by auto
  next
    case False
    with Cons.prems(2) have hand: "in_hand (wk_pc (sys_workers s ! i)) = {#t#}"
      "hand_rank (wk_pc (sys_workers s ! i)) \<le> k" "n \<le> count_list (calls (sys_world s)) (task_execute t)" by auto
    show ?thesis
    proof (cases "works i l")
      case True
      then have l: "l = LWorker i" by (cases l) auto
      obtain wk w where step: "worker_step dq sy i (sys_workers s ! i) (sys_world s) = Some (wk, w)"
        and next_state: "calls w = calls (sys_world s) @ [task_execute t] \<or> calls w = calls (sys_world s) \<and>
          in_hand (wk_pc wk) = {#t#} \<and> hand_rank (wk_pc wk) + 1 = hand_rank (wk_pc (sys_workers s ! i))"
        by (rule worker_step_hand [OF hand(1)])
      from step u(1) l have "i < length (sys_workers s)" "u = s\<lparr>sys_world := w, sys_workers := (sys_workers s)[i := wk]\<rparr>"
        by (auto split: if_splits)
      with next_state hand have "n < count_list (calls (sys_world u)) (task_execute t) \<or>
          n \<le> count_list (calls (sys_world u)) (task_execute t) \<and>
          in_hand (wk_pc (sys_workers u ! i)) = {#t#} \<and> hand_rank (wk_pc (sys_workers u ! i)) \<le> k - 1" by auto
      moreover have "0 < k" using hand(2) by (cases "wk_pc (sys_workers s ! i)") auto
      ultimately show ?thesis using Cons.IH [OF u(2), of "k - 1"] True by (auto simp: worker_actions_def)
    next
      case False
      from other_step_keeps_worker [OF u(1) False] hand le_trans [OF hand(3) grow]
        Cons.IH [OF u(2), of k] False
      show ?thesis by (simp add: worker_actions_def)
    qed
  qed
qed

lemma run_threads:
  "run (sys_step dq sy cap) ls s = Some s' \<Longrightarrow>
     length (sys_workers s') = length (sys_workers s) \<and> length (sys_clients s') = length (sys_clients s)"
  by (induction ls arbitrary: s) (auto split: option.splits dest: sys_step_threads)

section \<open>Properties\<close>

text \<open>
  Property C9. A submission terminates in every interleaving: whatever other threads
  do, after twelve of its own actions, plus one for every exchange it lost, the call
  has returned; until then it is never blocked; and without a capacity there is no
  exchange to lose.
\<close>

theorem submission_terminates:
  assumes "run (sys_step dq sy capacity) ls s = Some s'"
    and "j < length (sys_clients s)" and "sys_clients s ! j = CPush (QStart t)"
    and "list_all (\<lambda>l. \<not> starts j l) ls"
  shows "(12 + lost_exchanges dq sy capacity j ls s \<le> client_actions j ls \<longrightarrow>
      (\<exists>r. sys_clients s' ! j = CPush (QDone r))) \<and>
    ((\<exists>r. sys_clients s' ! j = CPush (QDone r)) \<or> sys_step dq sy capacity (LClient j spurious) s' \<noteq> None) \<and>
    (capacity = 0 \<longrightarrow> lost_exchanges dq sy capacity j ls s = 0)"
proof -
  obtain q where q: "sys_clients s' ! j = CPush q"
    "client_actions j ls + push_rank q \<le> 12 + lost_exchanges dq sy capacity j ls s"
    "capacity = 0 \<longrightarrow> lost_exchanges dq sy capacity j ls s = 0"
    using push_run [OF assms(1,3)] assms(4) by (auto simp: list_all_iff)
  have done_iff: "push_rank q = 0 \<longleftrightarrow> (\<exists>r. q = QDone r)" by (cases q) simp_all
  have "j < length (sys_clients s')" using run_threads [OF assms(1)] assms(2) by simp
  then have "sys_step dq sy capacity (LClient j spurious) s' \<noteq> None" if "0 < push_rank q"
    using push_step_enabled [OF that, of dq sy capacity spurious "sys_world s'"] q(1)
    by (auto split: option.splits)
  with q done_iff show ?thesis by auto
qed

text \<open>
  Property C10. A task that a worker has taken from the queues is executed: after at
  most three further actions of that worker, whatever other threads do, its function
  has been called once more than before, and until then the worker is never blocked.
\<close>

theorem taken_task_is_called:
  assumes "run (sys_step dq sy capacity) ls s = Some s'"
    and "i < length (sys_workers s)" and "in_hand (wk_pc (sys_workers s ! i)) = {#t#}"
  shows "(3 \<le> worker_actions i ls \<longrightarrow>
      count_list (calls (sys_world s)) (task_execute t) < count_list (calls (sys_world s')) (task_execute t)) \<and>
    (count_list (calls (sys_world s)) (task_execute t) < count_list (calls (sys_world s')) (task_execute t) \<or>
     sys_step dq sy capacity (LWorker i) s' \<noteq> None)"
proof -
  have "hand_rank (wk_pc (sys_workers s ! i)) \<le> 3" by (cases "wk_pc (sys_workers s ! i)") simp_all
  with assms(3) have run: "count_list (calls (sys_world s)) (task_execute t) < count_list (calls (sys_world s')) (task_execute t) \<or>
      in_hand (wk_pc (sys_workers s' ! i)) = {#t#} \<and> hand_rank (wk_pc (sys_workers s' ! i)) + worker_actions i ls \<le> 3"
    by (intro hand_run [OF assms(1)]) simp
  have "0 < hand_rank (wk_pc (sys_workers s' ! i))" by (cases "wk_pc (sys_workers s' ! i)") simp_all
  moreover have "sys_step dq sy capacity (LWorker i) s' \<noteq> None" if "in_hand (wk_pc (sys_workers s' ! i)) = {#t#}"
  proof -
    note hand = that
    obtain wk w where "worker_step dq sy i (sys_workers s' ! i) (sys_world s') = Some (wk, w)"
      by (rule worker_step_hand [OF hand])
    with run_threads [OF assms(1)] assms(2) show ?thesis by simp
  qed
  ultimately show ?thesis using run by auto
qed

section \<open>Witnesses\<close>

text \<open>One worker and two clients that have both just started to submit.\<close>

definition starting_trace :: "label list" where
  "starting_trace = [LStart 0 (OpPush (sample_task High 7)), LStart 1 (OpPush (sample_task Low 9))]"

definition starting_state :: sys where
  "starting_state = the (sample_run 1 2 1 starting_trace)"

text \<open>Client 0 loses one exchange to client 1 and then finds the scheduler full.\<close>

definition contended_trace :: "label list" where
  "contended_trace = client_acts 0 2 @ client_acts 1 8 @ client_acts 0 3"

theorem submission_terminates_witness:
  "lost_exchanges half_deque fifo_sync 1 0 contended_trace starting_state = 1 \<and>
   client_actions 0 contended_trace = 5 \<and>
   (\<exists>s'. run (sys_step half_deque fifo_sync 1) contended_trace starting_state = Some s' \<and>
      ((\<exists>r. sys_clients s' ! 0 = CPush (QDone r)) \<or>
        sys_step half_deque fifo_sync 1 (LClient 0 False) s' \<noteq> None))"
proof -
  have "run (sys_step half_deque fifo_sync 1) contended_trace starting_state \<noteq> None" by code_simp
  then obtain s' where run: "run (sys_step half_deque fifo_sync 1) contended_trace starting_state = Some s'" by blast
  have "0 < length (sys_clients starting_state)"
    "sys_clients starting_state ! 0 = CPush (QStart (sample_task High 7))"
    "list_all (\<lambda>l. \<not> starts 0 l) contended_trace" by code_simp+
  note ends = submission_terminates [OF run this, of False]
  have "lost_exchanges half_deque fifo_sync 1 0 contended_trace starting_state = 1"
    "client_actions 0 contended_trace = 5" by code_simp+
  with ends run show ?thesis by blast
qed

text \<open>A worker that has just taken the submitted task.\<close>

definition taken_trace :: "label list" where
  "taken_trace = LStart 0 (OpPush (sample_task High 7)) # client_acts 0 8 @ worker_acts 0 3"

definition taken_state :: sys where
  "taken_state = the (sample_run 1 2 1 taken_trace)"

theorem taken_task_is_called_witness:
  "calls (sys_world taken_state) = [] \<and>
   (\<exists>s'. run (sys_step half_deque fifo_sync 1) (worker_acts 0 3) taken_state = Some s' \<and>
      0 < count_list (calls (sys_world s')) (task_execute (sample_task High 7)))"
proof -
  have "run (sys_step half_deque fifo_sync 1) (worker_acts 0 3) taken_state \<noteq> None" by code_simp
  then obtain s' where run: "run (sys_step half_deque fifo_sync 1) (worker_acts 0 3) taken_state = Some s'" by blast
  have hand: "0 < length (sys_workers taken_state)" by code_simp
  have "wk_pc (sys_workers taken_state ! 0) = WExec (sample_task High 7)" by code_simp
  then have "in_hand (wk_pc (sys_workers taken_state ! 0)) = {#sample_task High 7#}" by simp
  note called = taken_task_is_called [OF run hand this]
  have "worker_actions 0 (worker_acts 0 3) = 3" by code_simp
  moreover have "calls (sys_world taken_state) = []" by code_simp
  ultimately show ?thesis using called run by auto
qed

end
