(* ===== verification/Fairness.thy ===== *)
theory Fairness
  imports Ledger
begin

text \<open>
  The fairness state of the workers in the interleaved system.  A worker's search is
  not atomic, so other threads change the queues between its probes; the bound on
  the streak of high-priority tasks holds nevertheless, because the streak is
  private to the worker and is checked at the start of every search.
\<close>

section \<open>The streak during a search\<close>

text \<open>The points of a search at which the streak may have reached the limit.\<close>

fun intervening :: "pop_pc \<Rightarrow> bool" where
  "intervening PStart = True"
| "intervening PFairNormal = True"
| "intervening PFairLow = True"
| "intervening _ = False"

definition streak_ok :: "pop_pc \<Rightarrow> priority_state \<Rightarrow> bool" where
  "streak_ok pc ps \<longleftrightarrow> high_streak ps \<le> 32 \<and> (\<not> intervening pc \<longrightarrow> high_streak ps < 32)"

lemma probe_streak:
  assumes "deque_ok dq" and "injectors_ok qs"
    and "probe dq me p f pc (qs, ss, st, ps) = (res, qs', ss', st', ps')"
  shows "(\<exists>t. res = Inr (PopTask t) \<and> ps' = record_task ps t \<and> tk_priority t = p) \<or>
    res = Inr PopRetry \<and> ps' = ps \<or> res = Inl pc \<and> ps' = f ps"
  using assms(1)
  by (cases rule: try_priority_queue_cases [where qs = qs and p = p and me = me and ps = ps])
    (use assms(2,3) in \<open>auto simp: probe_def injector_priority\<close>)

lemma pop_step_taken:
  assumes dq: "deque_ok dq" and inj: "injectors_ok qs" and ok: "streak_ok pc ps"
    and step: "pop_step dq me pc (qs, ss, st, ps) = (Inr (PopTask t), qs', ss', st', ps')"
  shows "ps' = record_task ps t \<and> (tk_priority t = High \<longrightarrow> high_streak ps < 32)"
proof (cases pc)
  case (PSteal vs)
  then show ?thesis
    using step ok by (cases vs) (auto simp: streak_ok_def Let_def split: if_splits prod.splits steal.splits)
qed (use step ok in \<open>auto simp: streak_ok_def Let_def dest!: probe_streak [OF dq inj]
    split: if_splits prod.splits option.splits\<close>)

lemma pop_step_streak:
  assumes dq: "deque_ok dq" and inj: "injectors_ok qs" and ok: "streak_ok pc ps"
    and step: "pop_step dq me pc (qs, ss, st, ps) = (res, qs', ss', st', ps')"
  shows "high_streak ps' \<le> 32 \<and> (\<forall>pc'. res = Inl pc' \<longrightarrow> streak_ok pc' ps')"
proof (cases "\<exists>t. res = Inr (PopTask t)")
  case True
  then obtain t where t: "res = Inr (PopTask t)" by blast
  from pop_step_taken [OF dq inj ok step [unfolded t]] t show ?thesis
    by (auto simp: high_streak_record usize_Suc_le)
next
  case False
  show ?thesis
  proof (cases pc)
    case (PSteal vs)
    then show ?thesis
      using step ok False
      by (cases vs) (auto simp: streak_ok_def Let_def split: if_splits prod.splits steal.splits)
  qed (use step ok False in
      \<open>auto dest!: probe_streak [OF dq inj] simp: streak_ok_def fairness_due_def HIGH_BURST_LIMIT_def reset_streak_def Let_def
        split: if_splits prod.splits option.splits\<close>)
qed

section \<open>The streak of every worker\<close>

definition worker_streak_ok :: "worker \<Rightarrow> bool" where
  "worker_streak_ok wk \<longleftrightarrow> high_streak (wk_priority wk) \<le> 32 \<and>
     (\<forall>ph pc. wk_pc wk = WPop ph pc \<longrightarrow> streak_ok pc (wk_priority wk))"

text \<open>Searches start afresh, with a point at which the limit may have been reached.\<close>

fun fresh_search :: "worker_pc \<Rightarrow> bool" where
  "fresh_search (WPop ph pc) = intervening pc"
| "fresh_search _ = True"

lemma fresh_search_simps [simp]:
  "fresh_search (follow a)" "fresh_search (leave ph a)" "fresh_search (proceed ph)"
  "fresh_search (after_search ph r)" "fresh_search (group_or_next g)"
proof -
  show f: "fresh_search (follow a)" for a by (cases a) simp_all
  show l: "fresh_search (leave ph a)" for a by (cases ph) (simp_all add: f)
  show "fresh_search (proceed ph)" by (cases ph) simp_all
  show "fresh_search (after_search ph r)" by (cases r) (simp_all add: l)
  show "fresh_search (group_or_next g)" by (cases g) (simp_all add: group_or_next_def)
qed

lemma worker_streak_fresh:
  "high_streak (wk_priority wk) \<le> 32 \<Longrightarrow> fresh_search (wk_pc wk) \<Longrightarrow> worker_streak_ok wk"
  by (auto simp: worker_streak_ok_def streak_ok_def)

lemma worker_step_streak:
  assumes dq: "deque_ok dq" and inj: "injectors_ok (ws_queues (shared w))" and ok: "worker_streak_ok wk"
    and step: "worker_step dq sy me wk w = Some (wk', w')"
  shows "worker_streak_ok wk'"
proof (cases "\<exists>ph pc. wk_pc wk = WPop ph pc")
  case True
  then obtain ph pc where pc: "wk_pc wk = WPop ph pc" by blast
  obtain res qs ss st ps where search:
    "pop_step dq me pc (ws_queues (shared w), wk_steal wk, ws_stats (shared w), wk_priority wk) =
       (res, qs, ss, st, ps)" by (metis prod_cases5)
  with step pc have wk': "wk' = wk\<lparr>wk_pc := (case res of Inl pc' \<Rightarrow> WPop ph pc' | Inr r \<Rightarrow> after_search ph r),
      wk_steal := ss, wk_priority := ps\<rparr>" by (simp add: worker_step_def)
  have "streak_ok pc (wk_priority wk)" using ok pc by (simp add: worker_streak_ok_def)
  from pop_step_streak [OF dq inj this search] show ?thesis
  proof (cases res)
    case (Inl pc')
    with pop_step_streak [OF dq inj \<open>streak_ok pc (wk_priority wk)\<close> search] show ?thesis
      by (simp add: wk' worker_streak_ok_def)
  next
    case (Inr r)
    with pop_step_streak [OF dq inj \<open>streak_ok pc (wk_priority wk)\<close> search] show ?thesis
      by (intro worker_streak_fresh) (simp_all add: wk')
  qed
next
  case False
  have "fresh_search (wk_pc wk')"
    using step False by (cases "wk_pc wk") (auto simp: worker_step_def Let_def split: if_splits prod.splits)
  moreover have "wk_priority wk' = wk_priority wk" using worker_other_effect [OF step False] by simp
  ultimately show ?thesis using ok by (intro worker_streak_fresh) (simp_all add: worker_streak_ok_def)
qed

interpretation streak: invariant sys_init "sys_step dq sy cap" "\<lambda>_. True" "\<lambda>s. deque_ok dq \<longrightarrow> sys_shape s"
  "\<lambda>s. deque_ok dq \<longrightarrow> list_all worker_streak_ok (sys_workers s)" for dq sy cap
proof unfold_locales
  show "deque_ok dq \<longrightarrow> list_all worker_streak_ok (sys_workers s)" if "sys_init s" for s
    using that by (auto simp: sys_init_def sys_new_def worker_start_def list_all_iff worker_streak_ok_def
        streak_ok_def priority_state_new_def)
  show "deque_ok dq \<longrightarrow> list_all worker_streak_ok (sys_workers s')"
    if "deque_ok dq \<longrightarrow> sys_shape s" and ok: "deque_ok dq \<longrightarrow> list_all worker_streak_ok (sys_workers s)"
      and "sys_step dq sy cap l s = Some s'" for s l s'
    using that(3)
  proof (cases rule: sys_step_cases)
    case (Worker i wk w)
    show ?thesis
    proof
      assume dq: "deque_ok dq"
      with that(1,2) Worker(2) have "injectors_ok (ws_queues (sys_shared s))" "worker_streak_ok (sys_workers s ! i)"
        by (simp_all add: sys_shape_def list_all_length)
      from worker_step_streak [OF dq this Worker(3)] dq ok Worker(4)
      show "list_all worker_streak_ok (sys_workers s')"
        using set_update_subset_insert [of "sys_workers s" i wk] by (auto simp: list_all_iff)
    qed
  qed (use ok in simp_all)
qed (auto intro: shape.reach_inv [THEN mp])

lemma reachable_streak:
  "deque_ok dq \<Longrightarrow> reachable dq sy cap s \<Longrightarrow> i < length (sys_workers s) \<Longrightarrow> worker_streak_ok (sys_workers s ! i)"
  unfolding reachable_def by (drule streak.reach_inv) (simp add: list_all_length)

section \<open>Properties\<close>

text \<open>
  Property C27. Every reachable state is well formed: each injector holds only tasks of
  its own priority, there is exactly one deque per worker, every worker steals with
  its own index and the true number of workers, and no streak of high-priority tasks
  exceeds the burst limit.
\<close>

theorem reachable_states_well_formed:
  assumes "deque_ok dq" and "reachable dq sy capacity s" and "i < length (sys_workers s)"
  shows "injectors_ok (ws_queues (sys_shared s)) \<and>
    length (q_locals (ws_queues (sys_shared s))) = length (sys_workers s) \<and>
    steal_worker_id (wk_steal (sys_workers s ! i)) = of_nat i \<and>
    steal_worker_count (wk_steal (sys_workers s ! i)) = of_nat (length (sys_workers s)) \<and>
    high_streak (wk_priority (sys_workers s ! i)) \<le> HIGH_BURST_LIMIT"
  using reachable_shape [OF assms(1,2)] reachable_streak [OF assms] assms(3)
  by (simp add: sys_shape_def worker_view_ok_def steal_worker_id_def steal_worker_count_def
      queue_worker_count_def worker_streak_ok_def HIGH_BURST_LIMIT_def)

text \<open>
  Property C11. The burst limit holds in every interleaving: when an action of a worker
  takes a high-priority task, the worker had taken fewer than \<open>HIGH_BURST_LIMIT\<close> of them
  since its streak was last reset, and its streak is one longer afterwards.
\<close>

theorem burst_limit_in_every_interleaving:
  assumes "deque_ok dq" and "reachable dq sy capacity s" and "i < length (sys_workers s)"
    and "sys_step dq sy capacity (LWorker i) s = Some s'"
    and "wk_pc (sys_workers s ! i) = WPop ph pc" and "in_hand (wk_pc (sys_workers s' ! i)) = {#t#}"
    and "tk_priority t = High"
  shows "high_streak (wk_priority (sys_workers s ! i)) < HIGH_BURST_LIMIT \<and>
    high_streak (wk_priority (sys_workers s' ! i)) = high_streak (wk_priority (sys_workers s ! i)) + 1"
proof -
  let ?wk = "sys_workers s ! i" and ?w = "sys_world s"
  have inj: "injectors_ok (ws_queues (sys_shared s))"
    using reachable_shape [OF assms(1,2)] by (simp add: sys_shape_def)
  have ok: "streak_ok pc (wk_priority ?wk)"
    using reachable_streak [OF assms(1-3)] assms(5) by (simp add: worker_streak_ok_def)
  obtain res qs ss st ps where search:
    "pop_step dq i pc (ws_queues (shared ?w), wk_steal ?wk, ws_stats (shared ?w), wk_priority ?wk) =
       (res, qs, ss, st, ps)" by (metis prod_cases5)
  with assms(3,4,5) have "wk_pc (sys_workers s' ! i) = (case res of Inl pc' \<Rightarrow> WPop ph pc' | Inr r \<Rightarrow> after_search ph r)"
    and ps: "wk_priority (sys_workers s' ! i) = ps" by (auto simp: worker_step_def)
  with assms(6) have "res = Inr (PopTask t)" by (cases res; cases "projr res") auto
  with pop_step_taken [OF assms(1) inj ok] search
  have "ps = record_task (wk_priority ?wk) t" "high_streak (wk_priority ?wk) < 32" using assms(7) by auto
  with ps assms(7) show ?thesis by (simp add: high_streak_record HIGH_BURST_LIMIT_def)
qed

section \<open>Witnesses\<close>

theorem reachable_states_well_formed_witness:
  "steal_worker_id (wk_steal (sys_workers full_state ! 0)) = 0 \<and>
   high_streak (wk_priority (sys_workers full_state ! 0)) \<le> 32"
proof -
  have "0 < length (sys_workers full_state)" by code_simp
  from reachable_states_well_formed [OF half_deque_ok full_state_reachable this] show ?thesis
    by (simp add: HIGH_BURST_LIMIT_def)
qed

text \<open>A worker about to probe the injector that holds a high-priority task.\<close>

definition probing_trace :: "label list" where
  "probing_trace = full_trace @ worker_acts 0 2"

definition probing_state :: sys where
  "probing_state = the (sample_run 1 2 1 probing_trace)"

lemma probing_run: "sample_run 1 2 1 probing_trace = Some probing_state"
proof -
  have "sample_run 1 2 1 probing_trace \<noteq> None" by code_simp
  then show ?thesis by (auto simp: probing_state_def)
qed

theorem burst_limit_in_every_interleaving_witness:
  "\<exists>s'. sys_step half_deque fifo_sync 1 (LWorker 0) probing_state = Some s' \<and>
     high_streak (wk_priority (sys_workers s' ! 0)) = high_streak (wk_priority (sys_workers probing_state ! 0)) + 1"
proof -
  have reach: "reachable half_deque fifo_sync 1 probing_state"
    by (rule sample_run_reachable [OF probing_run]) simp_all
  have len: "0 < length (sys_workers probing_state)" by code_simp
  have pc: "wk_pc (sys_workers probing_state ! 0) = WPop Fast PHigh" by code_simp
  have "map_option (\<lambda>s. wk_pc (sys_workers s ! 0)) (sys_step half_deque fifo_sync 1 (LWorker 0) probing_state) =
      Some (WExec (sample_task High 7))" by code_simp
  then obtain s' where s': "sys_step half_deque fifo_sync 1 (LWorker 0) probing_state = Some s'"
    "wk_pc (sys_workers s' ! 0) = WExec (sample_task High 7)" by blast
  have "tk_priority (sample_task High 7) = High" by code_simp
  with burst_limit_in_every_interleaving [OF half_deque_ok reach len s'(1) pc] s' show ?thesis by simp
qed

end
