(* ===== verification/Spec2Isabelle.thy ===== *)
theory Spec2Isabelle
  imports Prelude Stats Steal Sync Group Queue Topology Worker Scheduler System Accounting Shutdown
    Construction Sequential Ffi Ledger Locking Specification Progress Fairness
begin

text \<open>
  A verification of \<^verbatim>\<open>libcortlet-upgradesched\<close>, a task scheduler written in Rust with a C
  interface: the sources under \<^verbatim>\<open>src/src/\<close>.

  \<^bold>\<open>The program.\<close>  A scheduler owns a fixed number of worker threads.  Clients submit
  tasks (a function and an argument, a priority, optionally a task group) through
  the C interface; a task is put into the global injector of its priority, and the
  workers look for tasks in their own deque, in the injectors and in each other's
  deques.  One atomic counter holds the outstanding tasks and enforces an optional
  capacity; each group has a counter of its own; waiting threads and idle workers
  block in condition variables; shutdown lets the workers drain what was accepted.

  \<^bold>\<open>The model, by source file.\<close>
  \<^item> \<^verbatim>\<open>stats.rs\<close>: theory \<open>Stats\<close>.  The counters, the seven recording operations, the
    snapshot.
  \<^item> \<^verbatim>\<open>steal.rs\<close>: theory \<open>Steal\<close>.  Victim selection on 64-bit words, wrapping as in a
    release build and panicking as in a build with overflow checks.
  \<^item> \<^verbatim>\<open>topology.rs\<close>: theory \<open>Topology\<close>.  Detection and CPU assignment.
  \<^item> \<^verbatim>\<open>group.rs\<close>: theory \<open>Group\<close>.  The operations of a group, \<open>wait\<close> as a machine.
  \<^item> \<^verbatim>\<open>queue.rs\<close>: theory \<open>Queue\<close>.  Tasks, the fairness state, the queues, and the search
    \<open>pop_for_worker\<close>.
  \<^item> \<^verbatim>\<open>worker.rs\<close>: theory \<open>Worker\<close>.  The shared state with its operations, \<open>execute_task\<close>,
    and \<open>worker_main\<close> as the machine \<open>worker_step\<close>.
  \<^item> \<^verbatim>\<open>scheduler.rs\<close>: theory \<open>Scheduler\<close>.  Configuration, construction (the machine
    \<open>create_step\<close>, and \<open>create\<close>, which runs it under a schedule), submission (the function
    \<open>push_internal\<close> and the machine \<open>push_step\<close>), waiting, shutdown, joining.
  \<^item> \<^verbatim>\<open>ffi.rs\<close>: theory \<open>Ffi\<close>.  Every exported function over a heap of handles, in which
    NULL, live and dangling addresses are different things.

  Operations that touch shared state exist twice: as a function that runs without
  interference, and as a machine that performs one atomic action (one atomic
  read-modify-write, one lock or unlock, one queue operation) per step.  Theory
  \<open>System\<close> composes the machines of any number of workers and clients into one system,
  \<open>sys_step\<close>, whose labels say which thread acts; \<open>reachable\<close> are the states of its
  runs, and \<open>reachable_real\<close> those of runs in which fewer than \<open>2 ^ 64\<close> tasks and threads
  exist at a time.  The latter bound is needed because the counters are 64-bit words;
  for a scheduler with a capacity it is proved, not assumed.

  \<^bold>\<open>Parameters.\<close>  Code that is not in the repository is a parameter with its documented
  behaviour as a predicate: the queues of \<^verbatim>\<open>crossbeam_deque\<close> (\<open>deque_api\<close>, \<open>deque_ok\<close>) and
  the mutexes and condition variables of \<^verbatim>\<open>parking_lot\<close> (\<open>sync_api\<close>, \<open>sync_ok\<close>; it has no
  spurious wake-ups).  The operating system's decisions (available parallelism, success
  of an allocation, of a thread creation, of a pinning, the order in which threads run
  during construction and destruction) and the address of an allocation are arguments.
  A schedule is finite; a call that has not returned at its end has the outcome
  \<open>Blocks\<close>, and that a construction never returns is stated for all continuations.
  Concrete instances (\<open>half_deque\<close>, \<open>fifo_sync\<close>) satisfy the predicates and run the
  concrete executions.

  \<^bold>\<open>What is shown.\<close>
  \<^item> \<open>Steal\<close>, \<open>Queue\<close>, \<open>Topology\<close>, \<open>Stats\<close>: victims are exactly the other workers, in a
    rotation that lets each be first; a search loses and invents nothing, follows the
    order of fairness, local deque, injectors and peers, and reports empty only when
    it saw every queue empty; bursts of high-priority tasks are bounded while an injector
    of lower priority holds a task; counters count.
  \<^item> \<open>Sequential\<close>: the machines driven alone compute the functions, with the number of
    actions they need (19 for a submission, nine and one per victim for a search,
    seven for an execution), and the functions have closed forms on every path.
  \<^item> \<open>Construction\<close>: every outcome of a construction, under every schedule; a successful
    one leaves a reachable state of the system and needs one action per worker and one
    more, a failing one can hang in joining the threads it has created; a join that
    completes has drained the scheduler.
  \<^item> \<open>Accounting\<close>, \<open>Shutdown\<close>: in every interleaving no task is lost or run twice, the
    capacity is respected, the outstanding counter is exact; workers leave only when
    everything accepted was executed, destruction returns only then, and waiting
    returns only when nothing is outstanding.
  \<^item> \<open>Ledger\<close>: the counters shared by threads (sleepers, statistics, groups) are exact,
    through one locale for counters that follow the control points of threads.
  \<^item> \<open>Specification\<close>: an abstract scheduler without threads or queues, and the proof that
    every atomic action of the system is one of its events.
  \<^item> \<open>Progress\<close>: submissions are never blocked and end after twelve actions and one per
    lost exchange; a taken task is called within three actions of its worker.
  \<^item> \<open>Fairness\<close>: well-formedness of all reachable states, and the burst limit under
    interference.
  \<^item> \<open>Locking\<close>: mutual exclusion; a stall has every mutex free and every unfinished thread
    in a condition variable or joining.  Such stalls exist: notifications are sent
    without the mutex, all threads share one condition variable, and releasing a slot
    notifies nobody, so concrete executions of clients that keep to the documented
    contracts end with an accepted task that is never executed, a waiter that is never
    woken, or a destruction that never returns.
  \<^item> \<open>Ffi\<close>: when a submission is invalid, result codes, submission on every path, the
    configuration round trip, the lifetime of group handles, and that a destruction
    which returns has executed everything accepted.

  \<^bold>\<open>Interfaces.\<close>  The locales are \<open>invariant\<close> (\<open>Prelude\<close>), \<open>stat_recorder\<close> (\<open>Stats\<close>), \<open>ledger\<close>
  (\<open>Ledger\<close>), \<open>mutex_protocol\<close> (\<open>Locking\<close>), \<open>simulation\<close> (\<open>Specification\<close>) and \<open>c_submission\<close>
  (\<open>Ffi\<close>), each interpreted on the definitions of the model.

  \<^bold>\<open>Not modelled.\<close>  Memory orderings weaker than sequential consistency: every atomic
  action takes effect at once for all threads.  Panics of task functions, and blocking
  calls made from within a task (a task that submits is a client that submits).  The
  two counters read by \<open>cortlet_sched_get_stats\<close> are read at one moment.  The variant of
  \<open>pin_current_thread\<close> for other systems, which \<^verbatim>\<open>lib.rs\<close> does not let compile; the C
  header, the C tests and the benchmark.  The sizes of the types in the vectors: below
  \<open>2 ^ 63\<close> workers the success of their allocation is the operating system's.
\<close>

end
